(* ===== verification/SL_Prelude.thy ===== *)
theory SL_Prelude
  imports "HOL-Library.Word"
begin

text \<open>
  The vocabulary every component shares: the C integer types as words, pointers, output
  buffers, big-endian packing, block copies, and the lemmas and collections the component
  proofs rest on.

  Conventions of the model.
  \<^item> \<open>uint8_t\<close> \<dots> \<open>uint64_t\<close> are words of that width, so \<open>+\<close>, \<open>-\<close>, \<open>*\<close> and shifts wrap as in C.
  \<^item> \<open>size_t\<close> values that count bytes of objects in memory are \<open>nat\<close>: no object is larger than
    \<open>PTRDIFF_MAX\<close>, so sums of two such sizes do not wrap. Where a caller can pass any
    \<open>size_t\<close>, the sum is written with its \<open>mod 2 ^ 64\<close>.
  \<^item> A pointer parameter that the code compares with \<open>NULL\<close> is an option (\<open>ptr\<close>).
    An input buffer with its length is one list; an output buffer with its capacity is a
    \<open>nat ptr\<close>, its capacity, and the function returns the bytes it writes. The address of a
    single result is an \<open>out_ref\<close>, and the result is returned.
  \<^item> A status of \<open>-1\<close> or \<open>0\<close> with no other result is an \<open>int\<close>; a function that yields data
    or fails returns an option.
\<close>

unbundle bit_operations_syntax

type_synonym u8 = "8 word"
type_synonym u16 = "16 word"
type_synonym u32 = "32 word"
type_synonym u64 = "64 word"
type_synonym bytes = "u8 list"
type_synonym 'a ptr = "'a option"
type_synonym out_buf = "nat ptr"
type_synonym out_ref = "unit ptr"

abbreviation NULL :: "'a ptr" where
  "NULL \<equiv> None"

abbreviation OUT :: out_ref where
  "OUT \<equiv> Some ()"

abbreviation SIZE_MOD :: nat where
  "SIZE_MOD \<equiv> 2 ^ 64"

named_theorems wire \<open>layout of packed fields: lengths, reads back\<close>
named_theorems bitwise \<open>facts about single bits of machine words\<close>

subsection \<open>Bits of bytes\<close>

lemma bit_u8_ge [bitwise]: "8 \<le> n \<Longrightarrow> \<not> bit (a :: u8) n"
  by (simp add: impossible_bit)

text \<open>Lengths read from the wire stay \<open>unat\<close> when they become an \<open>int\<close>.\<close>

declare of_nat_unat [simp del]

lemma word_of_nat_unat [simp]: "of_nat (unat w) = (w :: 'a::len word)"
  by (simp add: of_nat_unat)

lemma u8_cases_less: "unat (a :: u8) < 256"
  using unsigned_less [where 'a = nat, of a] by simp

lemma u16_less: "unat (a :: u16) < 65536"
  using unsigned_less [where 'a = nat, of a] by simp

lemma u32_less: "unat (a :: u32) < 4294967296"
  using unsigned_less [where 'a = nat, of a] by simp

lemma u64_less: "unat (a :: u64) < 18446744073709551616"
  using unsigned_less [where 'a = nat, of a] by simp

lemma of_nat_unat_u16 [simp]: "unat (of_nat n :: u16) = n" if "n < 65536"
  using that by (simp add: unat_of_nat take_bit_eq_mod)

lemma of_nat_unat_u32 [simp]: "unat (of_nat n :: u32) = n" if "n < 4294967296"
  using that by (simp add: unat_of_nat take_bit_eq_mod)

lemma of_nat_unat_u64 [simp]: "unat (of_nat n :: u64) = n" if "n < 18446744073709551616"
  using that by (simp add: unat_of_nat take_bit_eq_mod)

definition UINT64_MAX :: nat where
  "UINT64_MAX = 18446744073709551615"

lemma unat_u64_le: "unat (a :: u64) \<le> UINT64_MAX"
  using u64_less [of a] by (simp add: UINT64_MAX_def)

lemma unat_minus_1_u64: "unat (- 1 :: u64) = UINT64_MAX"
  by (simp add: unsigned_minus_1_eq_mask mask_eq_exp_minus_1 UINT64_MAX_def)

lemma unat_of_nat_u64: "n \<le> UINT64_MAX \<Longrightarrow> unat (of_nat n :: u64) = n"
  by (simp add: UINT64_MAX_def)

lemma unat_ucast_up:
  assumes "LENGTH('a) \<le> LENGTH('b)"
  shows "unat (ucast (w :: 'a::len word) :: 'b::len word) = unat w"
proof -
  have "unat w < 2 ^ LENGTH('b)"
    by (rule less_le_trans [OF unsigned_less power_increasing [OF assms]]) simp
  then show ?thesis by (simp add: unsigned_ucast_eq take_bit_nat_eq_self)
qed

lemma unat_widen [simp]:
  "unat (ucast (a :: u8) :: u16) = unat a"
  "unat (ucast (a :: u8) :: u32) = unat a"
  "unat (ucast (a :: u8) :: u64) = unat a"
  "unat (ucast (b :: u16) :: u32) = unat b"
  "unat (ucast (b :: u16) :: u64) = unat b"
  "unat (ucast (c :: u32) :: u64) = unat c"
  by (rule unat_ucast_up, simp)+

lemma unat_u32_of_u64: "unat (ucast (v :: u64) :: u32) = unat v mod 4294967296"
  by (simp add: unsigned_ucast_eq take_bit_eq_mod)

subsection \<open>Big-endian fields\<close>

text \<open>
  Every wire module has its own static copies of these helpers; they are the same code, and
  the model has them once. \<open>p\<close> is the buffer from the field's offset on.
\<close>

definition pack_u16 :: "u16 \<Rightarrow> bytes" where
  "pack_u16 v = [ucast (drop_bit 8 v), ucast v]"

definition pack_u32 :: "u32 \<Rightarrow> bytes" where
  "pack_u32 v = [ucast (drop_bit 24 v), ucast (drop_bit 16 v), ucast (drop_bit 8 v), ucast v]"

definition pack_u64 :: "u64 \<Rightarrow> bytes" where
  "pack_u64 v = pack_u32 (ucast (drop_bit 32 v)) @ pack_u32 (ucast v)"

definition unpack_u16 :: "bytes \<Rightarrow> u16" where
  "unpack_u16 p = push_bit 8 (ucast (p ! 0)) OR ucast (p ! 1)"

definition unpack_u32 :: "bytes \<Rightarrow> u32" where
  "unpack_u32 p = push_bit 24 (ucast (p ! 0)) OR push_bit 16 (ucast (p ! 1)) OR
     push_bit 8 (ucast (p ! 2)) OR ucast (p ! 3)"

definition unpack_u64 :: "bytes \<Rightarrow> u64" where
  "unpack_u64 p = push_bit 32 (ucast (unpack_u32 p)) OR ucast (unpack_u32 (drop 4 p))"

lemma length_pack [simp, wire]:
  "length (pack_u16 a) = 2" "length (pack_u32 b) = 4" "length (pack_u64 c) = 8"
  by (simp_all add: pack_u16_def pack_u32_def pack_u64_def)

lemma drop_pack [simp, wire]:
  "drop 2 (pack_u16 a @ xs) = xs" "drop 4 (pack_u32 b @ xs) = xs" "drop 8 (pack_u64 c @ xs) = xs"
  by (simp_all add: pack_u16_def pack_u32_def pack_u64_def)

lemma drop_pack_ge [simp, wire]:
  "2 \<le> n \<Longrightarrow> drop n (pack_u16 a @ xs) = drop (n - 2) xs"
  "4 \<le> n \<Longrightarrow> drop n (pack_u32 b @ xs) = drop (n - 4) xs"
  "8 \<le> n \<Longrightarrow> drop n (pack_u64 c @ xs) = drop (n - 8) xs"
  by simp_all

lemma unpack_pack_u16 [simp, wire]: "unpack_u16 (pack_u16 v @ xs) = v"
  by (rule bit_word_eqI) (auto simp: unpack_u16_def pack_u16_def bit_simps)

lemma unpack_pack_u32 [simp, wire]: "unpack_u32 (pack_u32 v @ xs) = v"
proof (rule bit_word_eqI)
  fix n
  assume "n < LENGTH(32)"
  then consider "n < 8" | "8 \<le> n" "n < 16" | "16 \<le> n" "n < 24" | "24 \<le> n" "n < 32"
    by fastforce
  then show "bit (unpack_u32 (pack_u32 v @ xs)) n = bit v n"
    by cases (auto simp: unpack_u32_def pack_u32_def bit_simps)
qed

lemma ucast_halves:
  "push_bit 32 (ucast (ucast (drop_bit 32 v) :: u32)) OR ucast (ucast v :: u32) = (v :: u64)"
  by (rule bit_word_eqI) (auto simp: bit_simps)

lemma unpack_pack_u64 [simp, wire]: "unpack_u64 (pack_u64 v @ xs) = v"
  by (simp add: unpack_u64_def pack_u64_def ucast_halves)

lemmas unpack_pack_Nil [simp, wire] =
  unpack_pack_u16 [of _ "[]", simplified] unpack_pack_u32 [of _ "[]", simplified]
  unpack_pack_u64 [of _ "[]", simplified]

lemma pack_unpack_u16: "pack_u16 (unpack_u16 (a # b # xs)) = [a, b]"
  by (auto simp: unpack_u16_def pack_u16_def bit_simps bitwise intro!: bit_word_eqI)

lemma pack_unpack_u32: "pack_u32 (unpack_u32 (a # b # c # d # xs)) = [a, b, c, d]"
  by (auto simp: unpack_u32_def pack_u32_def bit_simps bitwise intro!: bit_word_eqI)

lemma pack_inject [simp]:
  "pack_u16 a = pack_u16 a' \<longleftrightarrow> a = a'"
  "pack_u32 b = pack_u32 b' \<longleftrightarrow> b = b'"
  "pack_u64 c = pack_u64 c' \<longleftrightarrow> c = c'"
  by (metis unpack_pack_Nil)+

subsection \<open>Block copies\<close>

text \<open>\<open>memcpy (dst + off, src, length src)\<close> into an array of fixed size.\<close>

definition write_at :: "nat \<Rightarrow> 'a list \<Rightarrow> 'a list \<Rightarrow> 'a list" where
  "write_at off src dst = take off dst @ src @ drop (off + length src) dst"

lemma length_write_at [simp]:
  "off + length src \<le> length dst \<Longrightarrow> length (write_at off src dst) = length dst"
  by (simp add: write_at_def)

lemma nth_write_at:
  "off + length src \<le> length dst \<Longrightarrow> i < length dst \<Longrightarrow>
   write_at off src dst ! i =
     (if off \<le> i \<and> i < off + length src then src ! (i - off) else dst ! i)"
  by (auto simp: write_at_def nth_append min_def)

lemma write_at_Nil [simp]: "write_at off [] dst = dst"
  by (simp add: write_at_def)

lemma take_drop_map_nth:
  "i + n \<le> length xs \<Longrightarrow> take n (drop i xs) = map (\<lambda>k. xs ! (i + k)) [0..<n]"
  by (rule nth_equalityI) auto

subsection \<open>C characters and strings\<close>

text \<open>Character data is a list of bytes; \<open>isalnum\<close> in the C locale.\<close>

definition c_isalnum :: "u8 \<Rightarrow> bool" where
  "c_isalnum c = ((48 \<le> c \<and> c \<le> 57) \<or> (65 \<le> c \<and> c \<le> 90) \<or> (97 \<le> c \<and> c \<le> 122))"

text \<open>The string an array holds: what precedes the first NUL.\<close>

definition c_string :: "bytes \<Rightarrow> bytes" where
  "c_string a = takeWhile (\<lambda>c. c \<noteq> 0) a"

lemma c_string_prefix: "0 \<notin> set m \<Longrightarrow> c_string (m @ 0 # x) = m"
  by (induction m) (auto simp: c_string_def)

text \<open>The segments of a list between the occurrences of a separator.\<close>

fun split_on :: "'a \<Rightarrow> 'a list \<Rightarrow> 'a list list" where
  "split_on x [] = [[]]"
| "split_on x (c # cs) =
     (if c = x then [] # split_on x cs
      else (c # hd (split_on x cs)) # tl (split_on x cs))"

lemma split_on_nonempty [simp]: "split_on x cs \<noteq> []"
  by (cases cs) auto

lemma split_on_snoc_sep: "split_on x (cs @ [x]) = split_on x cs @ [[]]"
  by (induction cs) auto

end
