(* ===== verification/SL_Interfaces.thy ===== *)
theory SL_Interfaces
  imports SL_Prelude
begin

text \<open>
  The contracts that several components implement, each a locale with the lemmas its clients
  use: byte streams (ring, send queue, receive buffer), wire codecs (every pack/unpack pair),
  and identifier supplies (stream and RPC ids). The theory of each component interprets its
  contracts. The contracts of code lists, subscription registries, rate limiters and hash tables
  stand in SL_Negotiate, SL_Pubsub, SL_Time and SL_Table.
\<close>

subsection \<open>Byte streams\<close>

text \<open>
  A step of a stream takes some bytes in and gives some bytes out; a run concatenates both.
\<close>

fun run_io :: "('s \<Rightarrow> 'op \<Rightarrow> 's \<times> bytes \<times> bytes) \<Rightarrow> 's \<Rightarrow> 'op list \<Rightarrow> 's \<times> bytes \<times> bytes" where
  "run_io step s [] = (s, [], [])"
| "run_io step s (x # xs) =
     (let (s1, i1, o1) = step s x; (s2, i2, o2) = run_io step s1 xs
      in (s2, i1 @ i2, o1 @ o2))"

locale byte_stream =
  fixes invar :: "'s \<Rightarrow> bool"
    and contents :: "'s \<Rightarrow> bytes"
    and limit :: "'s \<Rightarrow> nat"
    and step :: "'s \<Rightarrow> 'op \<Rightarrow> 's \<times> bytes \<times> bytes"
  assumes step_invar: "invar s \<Longrightarrow> step s x = (s', i, out) \<Longrightarrow> invar s'"
    and step_io: "invar s \<Longrightarrow> step s x = (s', i, out) \<Longrightarrow> contents s @ i = out @ contents s'"
    and step_limit: "invar s \<Longrightarrow> step s x = (s', i, out) \<Longrightarrow> limit s' = limit s"
    and bounded: "invar s \<Longrightarrow> length (contents s) \<le> limit s"
begin

lemma run_invar:
  "invar s \<Longrightarrow> run_io step s xs = (s', i, out) \<Longrightarrow> invar s' \<and> limit s' = limit s"
proof (induction xs arbitrary: s i out)
  case Nil
  then show ?case by simp
next
  case (Cons x xs)
  then show ?case
    by (auto split: prod.splits) (metis step_invar step_limit)+
qed

lemma run_conserves:
  "invar s \<Longrightarrow> run_io step s xs = (s', i, out) \<Longrightarrow> contents s @ i = out @ contents s'"
proof (induction xs arbitrary: s i out)
  case Nil
  then show ?case by simp
next
  case (Cons x xs)
  obtain s1 i1 o1 where st: "step s x = (s1, i1, o1)"
    by (cases "step s x") auto
  obtain i2 o2 where rest: "run_io step s1 xs = (s', i2, o2)" and i: "i = i1 @ i2" and out: "out = o1 @ o2"
    using Cons.prems(2) st by (auto split: prod.splits)
  have "contents s @ i1 = o1 @ contents s1"
    using Cons.prems(1) st by (rule step_io)
  moreover have "contents s1 @ i2 = o2 @ contents s'"
    using Cons.IH [OF step_invar [OF Cons.prems(1) st] rest] .
  ultimately show ?case
    by (metis append.assoc i out)
qed

lemma run_bounded:
  "invar s \<Longrightarrow> run_io step s xs = (s', i, out) \<Longrightarrow> length (contents s') \<le> limit s"
  using run_invar bounded by fastforce

lemma fresh_run_prefix:
  "invar s \<Longrightarrow> contents s = [] \<Longrightarrow> run_io step s xs = (s', i, out) \<Longrightarrow>
   out = take (length out) i \<and> contents s' = drop (length out) i"
  by (drule (1) run_conserves) simp

end

subsection \<open>Wire codecs\<close>

text \<open>
  A codec encodes the messages it accepts and decodes a message from the front of a buffer,
  whatever follows it. \<open>view\<close> is what the decoder reports of a message (its payload without
  the buffer it came from).
\<close>

fun decode_all :: "nat \<Rightarrow> (bytes \<Rightarrow> ('v \<times> nat) option) \<Rightarrow> bytes \<Rightarrow> 'v list option" where
  "decode_all 0 dec bs = (if bs = [] then Some [] else None)"
| "decode_all (Suc fuel) dec bs =
     (if bs = [] then Some []
      else case dec bs of
        None \<Rightarrow> None
      | Some (v, n) \<Rightarrow> map_option ((#) v) (decode_all fuel dec (drop n bs)))"

locale wire_codec =
  fixes enc :: "'m \<Rightarrow> bytes option"
    and dec :: "bytes \<Rightarrow> ('v \<times> nat) option"
    and view :: "'m \<Rightarrow> 'v"
  assumes dec_enc: "enc m = Some w \<Longrightarrow> dec (w @ rest) = Some (view m, length w)"
    and enc_nonempty: "enc m = Some w \<Longrightarrow> w \<noteq> []"
begin

lemma prefix_free:
  assumes "enc m = Some w" "enc m' = Some w'" "w @ r = w' @ r'"
  shows "view m = view m' \<and> w = w'"
  using dec_enc [OF assms(1), of r] dec_enc [OF assms(2), of r'] assms(3) by auto

lemma enc_inj: "enc m = Some w \<Longrightarrow> enc m' = Some w \<Longrightarrow> view m = view m'"
  using prefix_free by blast

lemma decode_all_enc:
  assumes "list_all2 (\<lambda>m w. enc m = Some w) ms ws" "length ms \<le> fuel"
  shows "decode_all fuel dec (concat ws) = Some (map view ms)"
  using assms
proof (induction ms ws arbitrary: fuel rule: list_all2_induct)
  case Nil
  then show ?case by (cases fuel) auto
next
  case (Cons m ms w ws)
  then obtain k where "fuel = Suc k" by (cases fuel) auto
  with Cons show ?case
    by (auto simp: dec_enc dest: enc_nonempty)
qed

end

subsection \<open>Identifier supplies\<close>

text \<open>
  \<open>next s\<close> hands out an identifier, or the reserved one when the supply is used up. \<open>low s\<close>
  is a lower bound of every identifier still to come, and \<open>good\<close> holds of those handed out.
\<close>

fun take_ids :: "('s \<Rightarrow> u32 \<times> 's) \<Rightarrow> 's \<Rightarrow> nat \<Rightarrow> u32 list \<times> 's" where
  "take_ids nxt s 0 = ([], s)"
| "take_ids nxt s (Suc n) =
     (let (i, s1) = nxt s; (is, s2) = take_ids nxt s1 n
      in (if i = 0 then is else i # is, s2))"

locale id_supply =
  fixes nxt :: "'s \<Rightarrow> u32 \<times> 's"
    and low :: "'s \<Rightarrow> nat"
    and invar :: "'s \<Rightarrow> bool"
    and good :: "u32 \<Rightarrow> bool"
  assumes nxt_invar: "invar s \<Longrightarrow> nxt s = (i, s') \<Longrightarrow> invar s'"
    and nxt_good: "invar s \<Longrightarrow> nxt s = (i, s') \<Longrightarrow> i \<noteq> 0 \<Longrightarrow> good i"
    and nxt_fresh: "invar s \<Longrightarrow> nxt s = (i, s') \<Longrightarrow> i \<noteq> 0 \<Longrightarrow> low s \<le> unat i \<and> unat i < low s'"
    and nxt_done: "invar s \<Longrightarrow> nxt s = (0, s') \<Longrightarrow> s' = s"
begin

lemma nxt_low: "invar s \<Longrightarrow> nxt s = (i, s') \<Longrightarrow> low s \<le> low s'"
  using nxt_fresh nxt_done by (cases "i = 0") fastforce+

lemma take_ids_low:
  "invar s \<Longrightarrow> take_ids nxt s n = (is, s') \<Longrightarrow> invar s' \<and> low s \<le> low s' \<and> (\<forall>i \<in> set is. low s \<le> unat i \<and> i \<noteq> 0)"
proof (induction n arbitrary: s "is")
  case 0
  then show ?case by simp
next
  case (Suc n)
  obtain i s1 js where st: "nxt s = (i, s1)" and rest: "take_ids nxt s1 n = (js, s')"
    and eq: "is = (if i = 0 then js else i # js)"
    using Suc.prems(2) by (auto split: prod.splits)
  have inv1: "invar s1" and low1: "low s \<le> low s1"
    using nxt_invar [OF Suc.prems(1) st] nxt_low [OF Suc.prems(1) st] by auto
  have tl: "invar s' \<and> low s1 \<le> low s' \<and> (\<forall>i \<in> set js. low s1 \<le> unat i \<and> i \<noteq> 0)"
    using Suc.IH [OF inv1 rest] .
  show ?case
    using tl low1 eq nxt_fresh [OF Suc.prems(1) st] by (auto split: if_splits dest: order_trans)
qed

lemma take_ids_increasing:
  "invar s \<Longrightarrow> take_ids nxt s n = (is, s') \<Longrightarrow> sorted_wrt (<) is"
proof (induction n arbitrary: s "is")
  case 0
  then show ?case by simp
next
  case (Suc n)
  obtain i s1 js where st: "nxt s = (i, s1)" and rest: "take_ids nxt s1 n = (js, s')"
    and eq: "is = (if i = 0 then js else i # js)"
    using Suc.prems(2) by (auto split: prod.splits)
  have inv1: "invar s1"
    using nxt_invar [OF Suc.prems(1) st] .
  have "\<forall>j \<in> set js. low s1 \<le> unat j"
    using take_ids_low [OF inv1 rest] by blast
  moreover have "i \<noteq> 0 \<Longrightarrow> unat i < low s1"
    using nxt_fresh [OF Suc.prems(1) st] by blast
  ultimately show ?case
    using Suc.IH [OF inv1 rest] eq by (auto simp: word_less_nat_alt split: if_splits dest: order_less_le_trans)
qed

lemma take_ids_good:
  "invar s \<Longrightarrow> take_ids nxt s n = (is, s') \<Longrightarrow> list_all good is"
proof (induction n arbitrary: s "is")
  case 0
  then show ?case by simp
next
  case (Suc n)
  obtain i s1 js where st: "nxt s = (i, s1)" and rest: "take_ids nxt s1 n = (js, s')"
    and eq: "is = (if i = 0 then js else i # js)"
    using Suc.prems(2) by (auto split: prod.splits)
  show ?case
    using Suc.IH [OF nxt_invar [OF Suc.prems(1) st] rest] nxt_good [OF Suc.prems(1) st] eq by simp
qed

lemma take_ids_distinct:
  "invar s \<Longrightarrow> take_ids nxt s n = (is, s') \<Longrightarrow> distinct is \<and> 0 \<notin> set is"
  using take_ids_increasing take_ids_low strict_sorted_iff by blast

end

end
