(* ===== verification/SL_Circular.thy ===== *)
theory SL_Circular
  imports SL_Prelude
begin

text \<open>
  Circular arrays, as the ring buffer and the send queue use them: the bytes from an index on,
  around the end of the array, and what the two-part copies of the code do to them.
\<close>

definition circ_view :: "'a list \<Rightarrow> nat \<Rightarrow> nat \<Rightarrow> 'a list" where
  "circ_view buf start n = map (\<lambda>i. buf ! ((start + i) mod length buf)) [0..<n]"

lemma length_circ_view [simp]: "length (circ_view buf start n) = n"
  by (simp add: circ_view_def)

lemma nth_circ_view [simp]:
  "i < n \<Longrightarrow> circ_view buf start n ! i = buf ! ((start + i) mod length buf)"
  by (simp add: circ_view_def)

lemma circ_view_0 [simp]: "circ_view buf start 0 = []"
  by (simp add: circ_view_def)

lemma circ_view_start_mod [simp]: "circ_view buf (start mod length buf) n = circ_view buf start n"
  by (simp add: circ_view_def mod_add_left_eq)

lemma circ_view_add: "circ_view buf start (m + n) = circ_view buf start m @ circ_view buf (start + m) n"
  by (rule nth_equalityI) (auto simp: nth_append add.assoc)

lemma take_circ_view: "k \<le> n \<Longrightarrow> take k (circ_view buf start n) = circ_view buf start k"
  by (rule nth_equalityI) auto

lemma drop_circ_view: "k \<le> n \<Longrightarrow> drop k (circ_view buf start n) = circ_view buf (start + k) (n - k)"
  by (rule nth_equalityI) (auto simp: add.assoc)

text \<open>Reading: the part up to the end of the array, then the part from its start.\<close>

lemma circ_load:
  assumes "start < length buf" "n \<le> length buf"
    and "first = (if length buf - start < n then length buf - start else n)"
  shows "take first (drop start buf) @ (if first < n then take (n - first) buf else []) = circ_view buf start n"
proof (rule nth_equalityI)
  show "length (take first (drop start buf) @ (if first < n then take (n - first) buf else [])) =
      length (circ_view buf start n)"
    using assms by auto
next
  fix i
  assume "i < length (take first (drop start buf) @ (if first < n then take (n - first) buf else []))"
  then have i: "i < n"
    using assms by (auto split: if_splits)
  show "(take first (drop start buf) @ (if first < n then take (n - first) buf else [])) ! i =
      circ_view buf start n ! i"
  proof (cases "start + i < length buf")
    case True
    with i assms show ?thesis by (auto simp: nth_append)
  next
    case False
    moreover from this have "(start + i) mod length buf = start + i - length buf"
      using i assms by (simp add: mod_if)
    ultimately show ?thesis
      using i assms by (auto simp: nth_append ac_simps)
  qed
qed

text \<open>Writing: the part that fits before the end of the array, then the rest at its start.\<close>

definition circ_store :: "nat \<Rightarrow> 'a list \<Rightarrow> 'a list \<Rightarrow> 'a list" where
  "circ_store pos src buf =
     (let n = length src;
          first = (if length buf - pos < n then length buf - pos else n);
          buf1 = write_at pos (take first src) buf
      in if first < n then write_at 0 (drop first src) buf1 else buf1)"

lemma length_circ_store [simp]:
  "pos < length buf \<Longrightarrow> length src \<le> length buf \<Longrightarrow> length (circ_store pos src buf) = length buf"
  by (auto simp: circ_store_def Let_def)

lemma nth_circ_store:
  assumes "pos < length buf" "length src \<le> length buf" "i < length buf"
  shows "circ_store pos src buf ! i =
    (let d = (if pos \<le> i then i - pos else i + length buf - pos)
     in if d < length src then src ! d else buf ! i)"
  using assms by (auto simp: circ_store_def Let_def nth_write_at ac_simps)

lemma circ_distance:
  fixes c :: nat
  assumes "s < c" "u \<le> c" "k < c"
  shows "let p = (s + u) mod c; i = (s + k) mod c
         in (if p \<le> i then i - p else i + c - p) = (if u \<le> k then k - u else k + c - u)"
proof -
  have "(s + u) mod c = (if s + u < c then s + u else s + u - c)"
    using assms by (auto simp: mod_if)
  moreover have "(s + k) mod c = (if s + k < c then s + k else s + k - c)"
    using assms by (auto simp: mod_if)
  ultimately show ?thesis
    using assms by (auto simp: Let_def split: if_splits)
qed

text \<open>Storing at the end of what is in use appends to it.\<close>

lemma circ_view_store:
  assumes "start < length buf" "used + length src \<le> length buf"
  shows "circ_view (circ_store ((start + used) mod length buf) src buf) start (used + length src) =
    circ_view buf start used @ src"
proof (rule nth_equalityI)
  fix k
  let ?c = "length buf" and ?p = "(start + used) mod length buf"
  assume "k < length (circ_view (circ_store ?p src buf) start (used + length src))"
  then have k: "k < used + length src" by simp
  have "0 < ?c"
    using assms(1) by linarith
  then have p: "?p < ?c" and i: "(start + k) mod ?c < ?c"
    by (rule mod_less_divisor)+
  have len: "length (circ_store ?p src buf) = ?c"
    using assms p by simp
  have "circ_store ?p src buf ! ((start + k) mod ?c) =
      (if used \<le> k then src ! (k - used) else buf ! ((start + k) mod ?c))"
    using circ_distance [of start ?c used k] assms k
    by (auto simp: nth_circ_store [OF p _ i] Let_def split: if_splits)
  then show "circ_view (circ_store ?p src buf) start (used + length src) ! k = (circ_view buf start used @ src) ! k"
    using k len by (auto simp: nth_append)
qed simp

end
