(* ===== verification/SL_Ring.thy ===== *)
theory SL_Ring
  imports SL_Interfaces SL_Circular
begin

text \<open>
  The byte ring buffer of \<open>src/sl_ring.c\<close>: its record, one definition per function, the
  invariant that ties the two indices to the fill count, and the refinement to a queue of
  bytes. The ring implements the byte-stream contract.
\<close>

record sl_ring_t =
  ring_buf :: bytes
  ring_cap :: nat
  ring_head :: nat
  ring_tail :: nat
  ring_used :: nat

text \<open>
  \<open>malloc\<close> is a parameter: \<open>NULL\<close>, or a block of the size asked for with any contents.
  A released or failed buffer is the empty block.
\<close>

definition malloc_ok :: "(nat \<Rightarrow> bytes ptr) \<Rightarrow> bool" where
  "malloc_ok malloc \<longleftrightarrow> (\<forall>n b. malloc n = Some b \<longrightarrow> length b = n)"

definition sl_ring_init :: "(nat \<Rightarrow> bytes ptr) \<Rightarrow> sl_ring_t ptr \<Rightarrow> nat \<Rightarrow> int \<times> sl_ring_t ptr" where
  "sl_ring_init malloc rp cap =
     (case rp of
        None \<Rightarrow> (-1, NULL)
      | Some r \<Rightarrow>
          if cap = 0 then (-1, Some r)
          else (case malloc cap of
              None \<Rightarrow> (-1, Some (r\<lparr>ring_buf := []\<rparr>))
            | Some b \<Rightarrow> (0, Some \<lparr>ring_buf = b, ring_cap = cap, ring_head = 0, ring_tail = 0, ring_used = 0\<rparr>)))"

definition sl_ring_free :: "sl_ring_t ptr \<Rightarrow> sl_ring_t ptr" where
  "sl_ring_free rp =
     (case rp of
        None \<Rightarrow> NULL
      | Some r \<Rightarrow> Some \<lparr>ring_buf = [], ring_cap = 0, ring_head = 0, ring_tail = 0, ring_used = 0\<rparr>)"

definition sl_ring_reset :: "sl_ring_t ptr \<Rightarrow> sl_ring_t ptr" where
  "sl_ring_reset rp =
     (case rp of
        None \<Rightarrow> NULL
      | Some r \<Rightarrow> Some (r\<lparr>ring_head := 0, ring_tail := 0, ring_used := 0\<rparr>))"

definition sl_ring_capacity :: "sl_ring_t ptr \<Rightarrow> nat" where
  "sl_ring_capacity rp = (case rp of None \<Rightarrow> 0 | Some r \<Rightarrow> ring_cap r)"

definition sl_ring_used :: "sl_ring_t ptr \<Rightarrow> nat" where
  "sl_ring_used rp = (case rp of None \<Rightarrow> 0 | Some r \<Rightarrow> ring_used r)"

definition sl_ring_free_space :: "sl_ring_t ptr \<Rightarrow> nat" where
  "sl_ring_free_space rp = (case rp of None \<Rightarrow> 0 | Some r \<Rightarrow> ring_cap r - ring_used r)"

definition sl_ring_empty :: "sl_ring_t ptr \<Rightarrow> bool" where
  "sl_ring_empty rp = (case rp of None \<Rightarrow> True | Some r \<Rightarrow> ring_used r = 0)"

definition sl_ring_full :: "sl_ring_t ptr \<Rightarrow> bool" where
  "sl_ring_full rp = (case rp of None \<Rightarrow> True | Some r \<Rightarrow> ring_used r = ring_cap r)"

definition sl_ring_push :: "sl_ring_t ptr \<Rightarrow> bytes ptr \<Rightarrow> nat \<times> sl_ring_t ptr" where
  "sl_ring_push rp dp =
     (case (rp, dp) of
        (Some r, Some data) \<Rightarrow>
          (let len = length data;
               space = sl_ring_free_space (Some r);
               n = (if len < space then len else space)
           in if n = 0 then (0, Some r)
              else let first = (if ring_cap r - ring_head r < n then ring_cap r - ring_head r else n);
                       buf1 = write_at (ring_head r) (take first data) (ring_buf r);
                       buf2 = (if first < n then write_at 0 (take (n - first) (drop first data)) buf1 else buf1)
                   in (n, Some (r\<lparr>ring_buf := buf2,
                                 ring_head := (ring_head r + n) mod ring_cap r,
                                 ring_used := ring_used r + n\<rparr>)))
      | _ \<Rightarrow> (0, rp))"

definition sl_ring_pop :: "sl_ring_t ptr \<Rightarrow> out_buf \<Rightarrow> bytes \<times> sl_ring_t ptr" where
  "sl_ring_pop rp outp =
     (case (rp, outp) of
        (Some r, Some len) \<Rightarrow>
          (let avail = ring_used r;
               n = (if len < avail then len else avail)
           in if n = 0 then ([], Some r)
              else let first = (if ring_cap r - ring_tail r < n then ring_cap r - ring_tail r else n);
                       out = take first (drop (ring_tail r) (ring_buf r)) @
                             (if first < n then take (n - first) (ring_buf r) else [])
                   in (out, Some (r\<lparr>ring_tail := (ring_tail r + n) mod ring_cap r,
                                   ring_used := ring_used r - n\<rparr>)))
      | _ \<Rightarrow> ([], rp))"

definition sl_ring_peek :: "sl_ring_t ptr \<Rightarrow> out_buf \<Rightarrow> bytes" where
  "sl_ring_peek rp outp =
     (case (rp, outp) of
        (Some r, Some len) \<Rightarrow>
          (let avail = ring_used r;
               n = (if len < avail then len else avail)
           in if n = 0 then []
              else let first = (if ring_cap r - ring_tail r < n then ring_cap r - ring_tail r else n)
                   in take first (drop (ring_tail r) (ring_buf r)) @
                      (if first < n then take (n - first) (ring_buf r) else []))
      | _ \<Rightarrow> [])"

text \<open>
  \<open>sl_ring_discard\<close> has no early return for \<open>k = 0\<close>: it computes \<open>% r->cap\<close> on every
  call, so a ring without a buffer (\<open>cap = 0\<close>) makes it divide by zero. That trap is the
  result \<open>None\<close>.
\<close>

definition sl_ring_discard :: "sl_ring_t ptr \<Rightarrow> nat \<Rightarrow> (nat \<times> sl_ring_t ptr) option" where
  "sl_ring_discard rp n =
     (case rp of
        None \<Rightarrow> Some (0, NULL)
      | Some r \<Rightarrow>
          (let k = (if n < ring_used r then n else ring_used r)
           in if ring_cap r = 0 then None
              else Some (k, Some (r\<lparr>ring_tail := (ring_tail r + k) mod ring_cap r,
                                   ring_used := ring_used r - k\<rparr>))))"

subsection \<open>Invariant and abstraction\<close>

definition ring_ok :: "sl_ring_t \<Rightarrow> bool" where
  "ring_ok r \<longleftrightarrow>
     0 < ring_cap r \<and> length (ring_buf r) = ring_cap r \<and> ring_tail r < ring_cap r \<and>
     ring_used r \<le> ring_cap r \<and> ring_head r = (ring_tail r + ring_used r) mod ring_cap r"

definition ring_contents :: "sl_ring_t \<Rightarrow> bytes" where
  "ring_contents r = circ_view (ring_buf r) (ring_tail r) (ring_used r)"

lemma length_ring_contents [simp]: "length (ring_contents r) = ring_used r"
  by (simp add: ring_contents_def)

lemma ring_ok_head: "ring_ok r \<Longrightarrow> ring_head r < ring_cap r"
  by (auto simp: ring_ok_def)

lemma sl_ring_init_ok:
  assumes "malloc_ok malloc" "sl_ring_init malloc (Some r) cap = (0, rp)"
  shows "\<exists>r'. rp = Some r' \<and> ring_ok r' \<and> ring_contents r' = [] \<and> ring_cap r' = cap"
  using assms by (auto simp: sl_ring_init_def malloc_ok_def ring_ok_def ring_contents_def
      split: if_splits option.splits)

text \<open>The push of the code is one store at the end of what is in use.\<close>

lemma sl_ring_push_eq:
  assumes "ring_ok r" "n = min (length data) (ring_cap r - ring_used r)"
  shows "sl_ring_push (Some r) (Some data) =
    (n, Some (r\<lparr>ring_buf := circ_store (ring_head r) (take n data) (ring_buf r),
                ring_head := (ring_head r + n) mod ring_cap r,
                ring_used := ring_used r + n\<rparr>))"
proof (cases "n = 0")
  case True
  with assms ring_ok_head [OF assms(1)] show ?thesis
    by (auto simp: sl_ring_push_def sl_ring_free_space_def circ_store_def Let_def)
next
  case False
  have n: "(if length data < ring_cap r - ring_used r then length data else ring_cap r - ring_used r) = n"
    using assms(2) by (simp add: min_def)
  have len: "length (take n data) = n" and cap: "length (ring_buf r) = ring_cap r"
    using assms by (simp_all add: ring_ok_def)
  show ?thesis
    using False by (simp add: sl_ring_push_def sl_ring_free_space_def circ_store_def Let_def n len cap
        take_drop min_def)
qed

lemma sl_ring_push_spec:
  assumes ok: "ring_ok r" and push: "sl_ring_push (Some r) (Some data) = (n, rp)"
  shows "n = min (length data) (sl_ring_free_space (Some r)) \<and>
    (\<exists>r'. rp = Some r' \<and> ring_ok r' \<and> ring_cap r' = ring_cap r \<and>
          ring_contents r' = ring_contents r @ take n data)"
proof -
  let ?n = "min (length data) (ring_cap r - ring_used r)"
  let ?r' = "r\<lparr>ring_buf := circ_store (ring_head r) (take ?n data) (ring_buf r),
                ring_head := (ring_head r + ?n) mod ring_cap r, ring_used := ring_used r + ?n\<rparr>"
  have res: "n = ?n" "rp = Some ?r'"
    using push by (auto simp: sl_ring_push_eq [OF ok refl])
  have len: "length (take ?n data) = ?n" by simp
  have ok': "ring_ok ?r'"
    using ok ring_ok_head [OF ok] by (auto simp: ring_ok_def mod_add_left_eq add.assoc)
  have "ring_contents ?r' = ring_contents r @ take ?n data"
    using circ_view_store [of "ring_tail r" "ring_buf r" "ring_used r" "take ?n data"] ok
    by (auto simp: ring_contents_def ring_ok_def)
  then show ?thesis
    using res ok' by (simp add: sl_ring_free_space_def)
qed

lemma sl_ring_peek_eq:
  assumes "ring_ok r"
  shows "sl_ring_peek (Some r) (Some len) = take len (ring_contents r)"
proof -
  let ?n = "min len (ring_used r)"
  have "sl_ring_peek (Some r) (Some len) = circ_view (ring_buf r) (ring_tail r) ?n"
    using assms circ_load [of "ring_tail r" "ring_buf r" ?n, OF _ _ refl]
    by (auto simp: sl_ring_peek_def ring_ok_def Let_def min_def not_less)
  also have "\<dots> = take len (ring_contents r)"
    by (simp add: ring_contents_def take_circ_view [symmetric] min_def)
  finally show ?thesis .
qed

text \<open>Dropping \<open>k\<close> bytes at the read index, the common part of pop and discard.\<close>

lemma ring_advance:
  assumes "ring_ok r" "k \<le> ring_used r"
  defines "r' \<equiv> r\<lparr>ring_tail := (ring_tail r + k) mod ring_cap r, ring_used := ring_used r - k\<rparr>"
  shows "ring_ok r' \<and> ring_contents r' = drop k (ring_contents r)"
proof
  have "((ring_tail r + k) mod ring_cap r + (ring_used r - k)) mod ring_cap r =
      (ring_tail r + k + (ring_used r - k)) mod ring_cap r"
    by (rule mod_add_left_eq)
  then show "ring_ok r'"
    using assms by (auto simp: ring_ok_def r'_def)
  show "ring_contents r' = drop k (ring_contents r)"
    using assms circ_view_start_mod [of "ring_buf r" "ring_tail r + k"]
    by (simp add: ring_ok_def ring_contents_def drop_circ_view r'_def)
qed

lemma sl_ring_pop_spec:
  assumes ok: "ring_ok r" and pop: "sl_ring_pop (Some r) (Some len) = (out, rp)"
  shows "out = take len (ring_contents r) \<and>
    (\<exists>r'. rp = Some r' \<and> ring_ok r' \<and> ring_cap r' = ring_cap r \<and>
          ring_contents r' = drop len (ring_contents r))"
proof -
  let ?k = "min len (ring_used r)"
  let ?r' = "r\<lparr>ring_tail := (ring_tail r + ?k) mod ring_cap r, ring_used := ring_used r - ?k\<rparr>"
  have out: "out = sl_ring_peek (Some r) (Some len)"
    using pop by (auto simp: sl_ring_pop_def sl_ring_peek_def Let_def split: if_splits)
  have rp: "rp = Some ?r'"
    using pop ok by (auto simp: sl_ring_pop_def ring_ok_def Let_def min_def split: if_splits)
  have "ring_ok ?r'" "ring_contents ?r' = drop ?k (ring_contents r)"
    using ring_advance [OF ok, of ?k] by simp_all
  then show ?thesis
    using out rp by (auto simp: sl_ring_peek_eq [OF ok] min_def)
qed

lemma sl_ring_discard_spec:
  assumes "ring_ok r"
  shows "\<exists>r'. sl_ring_discard (Some r) n = Some (min n (ring_used r), Some r') \<and> ring_ok r' \<and>
    ring_cap r' = ring_cap r \<and> ring_contents r' = drop n (ring_contents r)"
proof -
  let ?k = "min n (ring_used r)"
  let ?r' = "r\<lparr>ring_tail := (ring_tail r + ?k) mod ring_cap r, ring_used := ring_used r - ?k\<rparr>"
  have "sl_ring_discard (Some r) n = Some (?k, Some ?r')"
    using assms by (auto simp: sl_ring_discard_def ring_ok_def Let_def min_def)
  moreover have "ring_ok ?r'" "ring_contents ?r' = drop ?k (ring_contents r)"
    using ring_advance [OF assms, of ?k] by simp_all
  ultimately show ?thesis
    by (auto simp: min_def)
qed

lemma sl_ring_reset_spec:
  "ring_ok r \<Longrightarrow> \<exists>r'. sl_ring_reset (Some r) = Some r' \<and> ring_ok r' \<and> ring_cap r' = ring_cap r \<and> ring_contents r' = []"
  by (auto simp: sl_ring_reset_def ring_ok_def ring_contents_def)

subsection \<open>The ring as a byte stream\<close>

datatype ring_op = RingPush bytes | RingPop nat | RingPeek nat | RingDiscard nat | RingReset

text \<open>
  One call on a ring, with the bytes it takes in and the bytes that leave it. A discard and a
  reset let the bytes leave without handing them to the caller.
\<close>

fun ring_step :: "sl_ring_t \<Rightarrow> ring_op \<Rightarrow> sl_ring_t \<times> bytes \<times> bytes" where
  "ring_step r (RingPush data) =
     (let (n, rp) = sl_ring_push (Some r) (Some data) in (the rp, take n data, []))"
| "ring_step r (RingPop len) =
     (let (out, rp) = sl_ring_pop (Some r) (Some len) in (the rp, [], out))"
| "ring_step r (RingPeek len) = (r, [], [])"
| "ring_step r (RingDiscard n) =
     (case sl_ring_discard (Some r) n of
        None \<Rightarrow> (r, [], [])
      | Some (k, rp) \<Rightarrow> (the rp, [], sl_ring_peek (Some r) (Some k)))"
| "ring_step r RingReset = (the (sl_ring_reset (Some r)), [], sl_ring_peek (Some r) (Some (sl_ring_used (Some r))))"

lemma ring_step_spec:
  assumes ok: "ring_ok r" and st: "ring_step r x = (r', i, out)"
  shows "ring_ok r' \<and> ring_cap r' = ring_cap r \<and> ring_contents r @ i = out @ ring_contents r'"
proof (cases x)
  case (RingPush data)
  with st show ?thesis
    by (auto split: prod.splits dest!: sl_ring_push_spec [OF ok])
next
  case (RingPop len)
  with st show ?thesis
    by (auto split: prod.splits dest!: sl_ring_pop_spec [OF ok])
next
  case (RingPeek len)
  with st ok show ?thesis by simp
next
  case (RingDiscard n)
  with st show ?thesis
    using sl_ring_discard_spec [OF ok, of n] by (auto simp: sl_ring_peek_eq [OF ok] min_def)
next
  case RingReset
  with st show ?thesis
    using sl_ring_reset_spec [OF ok] by (auto simp: sl_ring_used_def sl_ring_peek_eq [OF ok])
qed

interpretation ring: byte_stream ring_ok ring_contents ring_cap ring_step
proof (unfold_locales, goal_cases)
  case (4 s)
  then show ?case by (simp add: ring_ok_def)
qed (blast dest: ring_step_spec)+

lemmas ring_defs = sl_ring_init_def sl_ring_push_def sl_ring_pop_def sl_ring_peek_def
  sl_ring_discard_def sl_ring_reset_def sl_ring_free_space_def sl_ring_used_def

subsection \<open>Properties\<close>

text \<open>
  C13. Over any sequence of pushes, pops, peeks, discards and resets on a well-formed ring, the
  bytes buffered at the start followed by the bytes accepted are exactly the bytes that left
  followed by the bytes still buffered: nothing is lost, duplicated or reordered, and the ring
  stays well-formed and never holds more than its capacity.
\<close>

theorem ring_run_conserves:
  assumes "ring_ok r" "run_io ring_step r ops = (r', i, out)"
  shows "ring_ok r' \<and> ring_contents r @ i = out @ ring_contents r' \<and>
    length (ring_contents r') \<le> ring_cap r"
  using ring.run_invar [OF assms] ring.run_conserves [OF assms] ring.run_bounded [OF assms] by blast

definition ring_example :: sl_ring_t where
  "ring_example = \<lparr>ring_buf = [0, 0, 0, 0], ring_cap = 4, ring_head = 0, ring_tail = 0, ring_used = 0\<rparr>"

definition ring_example_ops :: "ring_op list" where
  "ring_example_ops = [RingPush [1, 2, 3], RingPop 2, RingPush [4, 5, 6, 7], RingPop 3]"

theorem ring_run_conserves_witness:
  "ring_ok ring_example \<and>
   run_io ring_step ring_example ring_example_ops =
     (\<lparr>ring_buf = [5, 6, 3, 4], ring_cap = 4, ring_head = 2, ring_tail = 1, ring_used = 1\<rparr>,
      [1, 2, 3, 4, 5, 6], [1, 2, 3, 4, 5]) \<and>
   ring_ok \<lparr>ring_buf = [5, 6, 3, 4], ring_cap = 4, ring_head = 2, ring_tail = 1, ring_used = 1\<rparr>"
proof -
  have ok: "ring_ok ring_example"
    by (simp add: ring_ok_def ring_example_def)
  have run: "run_io ring_step ring_example ring_example_ops =
     (\<lparr>ring_buf = [5, 6, 3, 4], ring_cap = 4, ring_head = 2, ring_tail = 1, ring_used = 1\<rparr>,
      [1, 2, 3, 4, 5, 6], [1, 2, 3, 4, 5])"
    by (simp add: ring_example_def ring_example_ops_def ring_defs write_at_def)
  show ?thesis
    using ring_run_conserves [OF ok run] ok run by simp
qed

end
