(* ===== verification/SL_SendQueue.thy ===== *)
theory SL_SendQueue
  imports SL_Interfaces SL_Circular
begin

text \<open>
  The outbound queue of \<open>src/sl_send_queue.c\<close>: whole records go in, the I/O loop hands the
  kernel what it will take. The kernel is a parameter: the list of what its \<open>send\<close> calls
  return.
\<close>

record sl_send_queue =
  sq_buf :: bytes
  sq_cap :: nat
  sq_head :: nat
  sq_tail :: nat
  sq_used :: nat

text \<open>
  What one \<open>send\<close> returns: a count, of which the kernel takes at most the bytes offered, or
  \<open>-1\<close> with an errno. \<open>SendOk 0\<close> is a return value of \<open>0\<close>.
\<close>

datatype send_result = SendOk nat | SendAgain | SendIntr | SendError

definition sl_send_queue_new :: "bool \<Rightarrow> (nat \<Rightarrow> bytes ptr) \<Rightarrow> nat \<Rightarrow> sl_send_queue ptr" where
  "sl_send_queue_new calloc_ok malloc max_bytes =
     (if max_bytes = 0 then NULL
      else if \<not> calloc_ok then NULL
      else case malloc max_bytes of
          None \<Rightarrow> NULL
        | Some b \<Rightarrow> Some \<lparr>sq_buf = b, sq_cap = max_bytes, sq_head = 0, sq_tail = 0, sq_used = 0\<rparr>)"

text \<open>After \<open>sl_send_queue_free\<close> there is no queue left.\<close>

definition sl_send_queue_free :: "sl_send_queue ptr \<Rightarrow> sl_send_queue ptr" where
  "sl_send_queue_free qp = NULL"

definition sl_send_queue_enqueue :: "sl_send_queue ptr \<Rightarrow> bytes ptr \<Rightarrow> int \<times> sl_send_queue ptr" where
  "sl_send_queue_enqueue qp dp =
     (case (qp, dp) of
        (Some q, Some data) \<Rightarrow>
          (let len = length data
           in if len = 0 then (0, Some q)
              else if sq_cap q < (sq_used q + len) mod SIZE_MOD then (-1, Some q)
              else let first = (if sq_cap q - sq_tail q < len then sq_cap q - sq_tail q else len);
                       buf1 = write_at (sq_tail q) (take first data) (sq_buf q);
                       buf2 = (if first < len then write_at 0 (drop first data) buf1 else buf1)
                   in (0, Some (q\<lparr>sq_buf := buf2,
                                 sq_tail := (sq_tail q + len) mod sq_cap q,
                                 sq_used := sq_used q + len\<rparr>)))
      | _ \<Rightarrow> (-1, qp))"

text \<open>
  The loop of \<open>sl_send_queue_flush\<close>. Its result is the return value, or \<open>None\<close> while it
  waits for the kernel (the list of answers is used up); the bytes sent and the queue are
  given in both cases.
\<close>

fun flush_loop :: "send_result list \<Rightarrow> sl_send_queue \<Rightarrow> int \<Rightarrow> bytes \<Rightarrow> int option \<times> bytes \<times> sl_send_queue" where
  "flush_loop ks q tot sent =
     (if sq_used q = 0 then (Some tot, sent, q)
      else case ks of
          [] \<Rightarrow> (None, sent, q)
        | k # ks' \<Rightarrow>
            (let chunk = (if sq_cap q - sq_head q < sq_used q then sq_cap q - sq_head q else sq_used q)
             in case k of
                  SendOk w0 \<Rightarrow>
                    (let w = min w0 chunk
                     in if 0 < w
                        then flush_loop ks'
                               (q\<lparr>sq_head := (sq_head q + w) mod sq_cap q, sq_used := sq_used q - w\<rparr>)
                               (tot + int w) (sent @ take w (drop (sq_head q) (sq_buf q)))
                        else (Some (-1), sent, q))
                | SendAgain \<Rightarrow> (Some tot, sent, q)
                | SendIntr \<Rightarrow> flush_loop ks' q tot sent
                | SendError \<Rightarrow> (Some (-1), sent, q)))"

declare flush_loop.simps [simp del]

lemma flush_loop_empty: "sq_used q = 0 \<Longrightarrow> flush_loop ks q tot sent = (Some tot, sent, q)"
  by (simp add: flush_loop.simps)

lemma flush_loop_Nil: "0 < sq_used q \<Longrightarrow> flush_loop [] q tot sent = (None, sent, q)"
  by (simp add: flush_loop.simps)

lemma flush_loop_Cons:
  "0 < sq_used q \<Longrightarrow> flush_loop (k # ks) q tot sent =
     (let chunk = min (sq_cap q - sq_head q) (sq_used q)
      in case k of
           SendOk w0 \<Rightarrow>
             (let w = min w0 chunk
              in if 0 < w
                 then flush_loop ks (q\<lparr>sq_head := (sq_head q + w) mod sq_cap q, sq_used := sq_used q - w\<rparr>)
                        (tot + int w) (sent @ take w (drop (sq_head q) (sq_buf q)))
                 else (Some (-1), sent, q))
         | SendAgain \<Rightarrow> (Some tot, sent, q)
         | SendIntr \<Rightarrow> flush_loop ks q tot sent
         | SendError \<Rightarrow> (Some (-1), sent, q))"
  by (subst flush_loop.simps) (auto simp: min_def Let_def split: send_result.split)

lemmas flush_loop_unfold = flush_loop_empty flush_loop_Nil flush_loop_Cons

definition sl_send_queue_flush :: "send_result list \<Rightarrow> sl_send_queue ptr \<Rightarrow> int option \<times> bytes \<times> sl_send_queue ptr" where
  "sl_send_queue_flush ks qp =
     (case qp of
        None \<Rightarrow> (Some (-1), [], NULL)
      | Some q \<Rightarrow> (let (rc, sent, q') = flush_loop ks q 0 [] in (rc, sent, Some q')))"

definition sl_send_queue_pending :: "sl_send_queue ptr \<Rightarrow> nat" where
  "sl_send_queue_pending qp = (case qp of None \<Rightarrow> 0 | Some q \<Rightarrow> sq_used q)"

definition sl_send_queue_empty :: "sl_send_queue ptr \<Rightarrow> bool" where
  "sl_send_queue_empty qp = (case qp of None \<Rightarrow> True | Some q \<Rightarrow> sq_used q = 0)"

subsection \<open>Invariant and abstraction\<close>

definition sq_ok :: "sl_send_queue \<Rightarrow> bool" where
  "sq_ok q \<longleftrightarrow>
     0 < sq_cap q \<and> sq_cap q < 2 ^ 63 \<and> length (sq_buf q) = sq_cap q \<and> sq_head q < sq_cap q \<and>
     sq_used q \<le> sq_cap q \<and> sq_tail q = (sq_head q + sq_used q) mod sq_cap q"

definition sq_contents :: "sl_send_queue \<Rightarrow> bytes" where
  "sq_contents q = circ_view (sq_buf q) (sq_head q) (sq_used q)"

lemma length_sq_contents [simp]: "length (sq_contents q) = sq_used q"
  by (simp add: sq_contents_def)

lemma sl_send_queue_new_ok:
  assumes "\<And>n b. malloc n = Some b \<Longrightarrow> length b = n" "n < 2 ^ 63"
    and "sl_send_queue_new c malloc n = Some q"
  shows "sq_ok q \<and> sq_contents q = [] \<and> sq_cap q = n"
  using assms by (auto simp: sl_send_queue_new_def sq_ok_def sq_contents_def split: if_splits option.splits)

lemma sl_send_queue_enqueue_fits:
  assumes ok: "sq_ok q" and fits: "sq_used q + length data \<le> sq_cap q"
  shows "\<exists>q'. sl_send_queue_enqueue (Some q) (Some data) = (0, Some q') \<and> sq_ok q' \<and>
    sq_cap q' = sq_cap q \<and> sq_contents q' = sq_contents q @ data"
proof (cases "data = []")
  case True
  with ok show ?thesis by (simp add: sl_send_queue_enqueue_def)
next
  case False
  let ?q' = "q\<lparr>sq_buf := circ_store (sq_tail q) data (sq_buf q),
      sq_tail := (sq_tail q + length data) mod sq_cap q, sq_used := sq_used q + length data\<rparr>"
  have cap: "length (sq_buf q) = sq_cap q" and small: "(sq_used q + length data) mod SIZE_MOD = sq_used q + length data"
    using ok fits by (simp_all add: sq_ok_def)
  have tail: "sq_tail q < sq_cap q"
    using ok by (simp add: sq_ok_def)
  have "sl_send_queue_enqueue (Some q) (Some data) = (0, Some ?q')"
    using False fits by (simp add: sl_send_queue_enqueue_def small circ_store_def Let_def cap del: power_numeral)
  moreover have "sq_ok ?q'"
    using ok fits tail by (auto simp: sq_ok_def mod_add_left_eq add.assoc)
  moreover have "sq_contents ?q' = sq_contents q @ data"
    using circ_view_store [of "sq_head q" "sq_buf q" "sq_used q" data] ok fits
    by (simp add: sq_contents_def sq_ok_def)
  ultimately show ?thesis by auto
qed

lemma sl_send_queue_enqueue_full:
  assumes "sq_ok q" "sq_cap q < sq_used q + length data" "length data < 2 ^ 63"
  shows "sl_send_queue_enqueue (Some q) (Some data) = (-1, Some q)"
proof -
  have "(sq_used q + length data) mod SIZE_MOD = sq_used q + length data"
    using assms by (simp add: sq_ok_def)
  then show ?thesis
    using assms by (auto simp: sl_send_queue_enqueue_def sq_ok_def Let_def simp del: power_numeral)
qed

text \<open>Sending \<open>w\<close> bytes from the head, at most up to the end of the array.\<close>

lemma sq_advance:
  assumes ok: "sq_ok q" and w: "w \<le> sq_used q" "w \<le> sq_cap q - sq_head q"
  defines "q' \<equiv> q\<lparr>sq_head := (sq_head q + w) mod sq_cap q, sq_used := sq_used q - w\<rparr>"
  shows "sq_ok q'" and "take w (drop (sq_head q) (sq_buf q)) @ sq_contents q' = sq_contents q"
proof -
  have "((sq_head q + w) mod sq_cap q + (sq_used q - w)) mod sq_cap q = (sq_head q + w + (sq_used q - w)) mod sq_cap q"
    by (rule mod_add_left_eq)
  then show "sq_ok q'"
    using ok w by (auto simp: sq_ok_def q'_def)
  have "take w (drop (sq_head q) (sq_buf q)) = circ_view (sq_buf q) (sq_head q) w"
    using circ_load [of "sq_head q" "sq_buf q" w w] ok w by (simp add: sq_ok_def)
  moreover have "sq_contents q' = drop w (sq_contents q)"
    using ok w circ_view_start_mod [of "sq_buf q" "sq_head q + w"]
    by (simp add: sq_ok_def sq_contents_def drop_circ_view q'_def)
  moreover have "circ_view (sq_buf q) (sq_head q) w = take w (sq_contents q)"
    using w by (simp add: sq_contents_def take_circ_view)
  ultimately show "take w (drop (sq_head q) (sq_buf q)) @ sq_contents q' = sq_contents q"
    by simp
qed

lemma flush_loop_spec:
  "sq_ok q \<Longrightarrow> flush_loop ks q tot sent = (rc, sent', q') \<Longrightarrow>
   \<exists>out. sent' = sent @ out \<and> sq_ok q' \<and> sq_cap q' = sq_cap q \<and> sq_contents q = out @ sq_contents q' \<and>
     (\<forall>r. rc = Some r \<longrightarrow> r = -1 \<or> r = tot + int (length out))"
proof (induction ks arbitrary: q tot sent)
  case Nil
  then show ?case
    by (cases "sq_used q") (auto simp: flush_loop_unfold)
next
  case (Cons k ks)
  show ?case
  proof (cases "0 < sq_used q")
    case True
    show ?thesis
    proof (cases k)
      case (SendOk w0)
      let ?w = "min w0 (min (sq_cap q - sq_head q) (sq_used q))"
      let ?q = "q\<lparr>sq_head := (sq_head q + ?w) mod sq_cap q, sq_used := sq_used q - ?w\<rparr>"
      let ?b = "take ?w (drop (sq_head q) (sq_buf q))"
      have adv: "sq_ok ?q" "?b @ sq_contents ?q = sq_contents q"
        using sq_advance [OF Cons.prems(1), of ?w] by auto
      have len: "length ?b = ?w"
        using Cons.prems(1) by (auto simp: sq_ok_def)
      show ?thesis
      proof (cases "0 < ?w")
        case pos: True
        have "flush_loop ks ?q (tot + int ?w) (sent @ ?b) = (rc, sent', q')"
          using Cons.prems(2) pos SendOk True by (simp add: flush_loop_Cons Let_def)
        from Cons.IH [OF adv(1) this]
        obtain out where out: "sent' = (sent @ ?b) @ out" "sq_ok q'" "sq_cap q' = sq_cap q"
          "sq_contents ?q = out @ sq_contents q'"
          "\<forall>r. rc = Some r \<longrightarrow> r = -1 \<or> r = tot + int ?w + int (length out)"
          by auto
        have "sq_contents q = (?b @ out) @ sq_contents q'"
          by (simp only: adv(2) [symmetric] out(4) append_assoc)
        moreover have "int ?w + int (length out) = int (length (?b @ out))"
          by (simp only: length_append len of_nat_add)
        ultimately show ?thesis
          using out(1,2,3,5) by (metis append_assoc add.assoc)
      next
        case False
        then show ?thesis
          using Cons.prems SendOk True by (auto simp: flush_loop_Cons Let_def)
      qed
    qed (use Cons.prems Cons.IH [OF Cons.prems(1)] True in \<open>auto simp: flush_loop_Cons Let_def\<close>)
  next
    case False
    then show ?thesis
      using Cons.prems by (auto simp: flush_loop_empty)
  qed
qed

text \<open>A kernel that takes at least one byte per call empties the queue.\<close>

lemma flush_loop_drains:
  "sq_ok q \<Longrightarrow> \<forall>k \<in> set ks. \<exists>w > 0. k = SendOk w \<Longrightarrow> sq_used q \<le> length ks \<Longrightarrow>
   \<exists>sent' q'. flush_loop ks q tot sent = (Some (tot + int (sq_used q)), sent', q') \<and> sq_used q' = 0"
proof (induction ks arbitrary: q tot sent)
  case Nil
  then show ?case by (simp add: flush_loop_empty)
next
  case (Cons k ks)
  show ?case
  proof (cases "0 < sq_used q")
    case True
    obtain w0 where k: "k = SendOk w0" "0 < w0"
      using Cons.prems(2) by auto
    let ?w = "min w0 (min (sq_cap q - sq_head q) (sq_used q))"
    let ?q = "q\<lparr>sq_head := (sq_head q + ?w) mod sq_cap q, sq_used := sq_used q - ?w\<rparr>"
    have pos: "0 < ?w"
      using k True Cons.prems(1) by (auto simp: sq_ok_def)
    have ok: "sq_ok ?q"
      using sq_advance(1) [OF Cons.prems(1), of ?w] by auto
    have "sq_used ?q \<le> length ks"
      using Cons.prems(3) pos by (simp add: min_def split: if_splits)
    from Cons.IH [OF ok _ this, of "tot + int ?w"] Cons.prems(2)
    show ?thesis
      using pos k True by (auto simp: flush_loop_Cons Let_def)
  next
    case False
    then show ?thesis by (simp add: flush_loop_empty)
  qed
qed

subsection \<open>The queue as a byte stream\<close>

datatype sq_op = SqEnqueue bytes | SqFlush "send_result list"

fun sq_step :: "sl_send_queue \<Rightarrow> sq_op \<Rightarrow> sl_send_queue \<times> bytes \<times> bytes" where
  "sq_step q (SqEnqueue data) =
     (let (rc, qp) = sl_send_queue_enqueue (Some q) (Some data)
      in (the qp, if rc = 0 then data else [], []))"
| "sq_step q (SqFlush ks) =
     (let (rc, sent, qp) = sl_send_queue_flush ks (Some q) in (the qp, [], sent))"

definition sq_op_ok :: "sq_op \<Rightarrow> bool" where
  "sq_op_ok x = (case x of SqEnqueue data \<Rightarrow> length data < 2 ^ 63 | SqFlush ks \<Rightarrow> True)"

text \<open>
  An enqueue whose length does not fit in memory is no call at all: the stream contract is
  stated for steps with real buffers.
\<close>

definition sq_step_real :: "sl_send_queue \<Rightarrow> sq_op \<Rightarrow> sl_send_queue \<times> bytes \<times> bytes" where
  "sq_step_real q x = (if sq_op_ok x then sq_step q x else (q, [], []))"

lemma sq_step_spec:
  assumes ok: "sq_ok q" and st: "sq_step_real q x = (q', i, out)"
  shows "sq_ok q' \<and> sq_cap q' = sq_cap q \<and> sq_contents q @ i = out @ sq_contents q'"
proof (cases "sq_op_ok x")
  case real: True
  show ?thesis
  proof (cases x)
    case (SqEnqueue data)
    show ?thesis
    proof (cases "sq_used q + length data \<le> sq_cap q")
      case True
      from sl_send_queue_enqueue_fits [OF ok True] show ?thesis
        using st SqEnqueue real by (auto simp: sq_step_real_def)
    next
      case False
      then show ?thesis
        using st SqEnqueue real ok sl_send_queue_enqueue_full [OF ok, of data]
        by (auto simp: sq_step_real_def sq_op_ok_def)
    qed
  next
    case (SqFlush ks)
    then obtain rc where "flush_loop ks q 0 [] = (rc, out, q')" and "i = []"
      using st real by (auto simp: sq_step_real_def sl_send_queue_flush_def split: prod.splits)
    then show ?thesis
      using flush_loop_spec [OF ok, of ks 0 "[]"] by auto
  qed
next
  case False
  with st ok show ?thesis by (auto simp: sq_step_real_def)
qed

interpretation sendq: byte_stream sq_ok sq_contents sq_cap sq_step_real
proof (unfold_locales, goal_cases)
  case (4 s)
  then show ?case by (simp add: sq_ok_def)
qed (blast dest: sq_step_spec)+

subsection \<open>Properties\<close>

text \<open>
  Whatever the kernel answers (partial sends, EAGAIN, EINTR, hard errors), over any sequence
  of enqueues and flushes the bytes put on the wire are a prefix of the records accepted, in
  order, and the rest is what the queue still holds, never more than its capacity.
\<close>

theorem send_queue_run_conserves:
  assumes "sq_ok q" "sq_contents q = []" "run_io sq_step_real q ops = (q', i, out)"
  shows "out = take (length out) i \<and> sq_contents q' = drop (length out) i \<and>
    length (sq_contents q') \<le> sq_cap q"
  using sendq.fresh_run_prefix [OF assms] sendq.run_bounded [OF assms(1,3)] by simp

definition sq_example :: sl_send_queue where
  "sq_example = \<lparr>sq_buf = [0, 0, 0, 0], sq_cap = 4, sq_head = 0, sq_tail = 0, sq_used = 0\<rparr>"

theorem send_queue_run_conserves_witness:
  "sq_ok sq_example \<and> sq_contents sq_example = [] \<and>
   (\<exists>q'. run_io sq_step_real sq_example
        [SqEnqueue [1, 2, 3], SqFlush [SendIntr, SendOk 2, SendAgain], SqEnqueue [4, 5], SqEnqueue [6, 7], SqFlush [SendOk 9, SendError]]
      = (q', [1, 2, 3, 4, 5], [1, 2, 3, 4]) \<and> sq_contents q' = [5])"
proof -
  let ?ops = "[SqEnqueue [1, 2, 3], SqFlush [SendIntr, SendOk 2, SendAgain], SqEnqueue [4, 5], SqEnqueue [6, 7], SqFlush [SendOk 9, SendError]]"
  let ?q = "\<lparr>sq_buf = [5, 2, 3, 4], sq_cap = 4, sq_head = 0, sq_tail = 1, sq_used = 1\<rparr>"
  have ok: "sq_ok sq_example" "sq_contents sq_example = []"
    by (simp_all add: sq_ok_def sq_example_def sq_contents_def)
  have run: "run_io sq_step_real sq_example ?ops = (?q, [1, 2, 3, 4, 5], [1, 2, 3, 4])"
    by (simp add: sq_example_def sq_step_real_def sq_op_ok_def sl_send_queue_enqueue_def
        sl_send_queue_flush_def flush_loop_unfold write_at_def Let_def)
  show ?thesis
    using send_queue_run_conserves [OF ok run] ok run by auto
qed



end
