(* ===== verification/SL_Mem.thy ===== *)
theory SL_Mem
  imports SL_Prelude
begin

text \<open>
  The constant-time and wiping primitives of \<open>src/sl_mem.c\<close>, and their equivalence with the
  plain operations they stand for.
\<close>

fun zero_loop :: "bytes \<Rightarrow> bytes" where
  "zero_loop [] = []"
| "zero_loop (_ # bs) = 0 # zero_loop bs"

definition sl_secure_zero :: "bytes ptr \<Rightarrow> bytes ptr" where
  "sl_secure_zero p = (case p of None \<Rightarrow> NULL | Some bs \<Rightarrow> Some (zero_loop bs))"

text \<open>
  \<open>sl_ct_equal\<close> accumulates the differences of the first \<open>n\<close> bytes and maps zero to one
  without a branch: \<open>1U & (((uint32_t)diff - 1U) >> 8)\<close>.
\<close>

fun ct_diff :: "nat \<Rightarrow> bytes \<Rightarrow> bytes \<Rightarrow> nat \<Rightarrow> u8 \<Rightarrow> u8" where
  "ct_diff 0 a b i diff = diff"
| "ct_diff (Suc k) a b i diff = ct_diff k a b (Suc i) (diff OR (a ! i XOR b ! i))"

definition sl_ct_equal :: "bytes \<Rightarrow> bytes \<Rightarrow> nat \<Rightarrow> int" where
  "sl_ct_equal a b n =
     (let diff = ct_diff n a b 0 0
      in uint ((1 :: u32) AND drop_bit 8 (ucast diff - 1)))"

fun xor_loop :: "nat \<Rightarrow> nat \<Rightarrow> bytes \<Rightarrow> bytes \<Rightarrow> bytes" where
  "xor_loop 0 i dst src = dst"
| "xor_loop (Suc k) i dst src = xor_loop k (Suc i) (dst[i := dst ! i XOR src ! i]) src"

definition sl_xor_inplace :: "bytes \<Rightarrow> bytes \<Rightarrow> nat \<Rightarrow> bytes" where
  "sl_xor_inplace dst src n = xor_loop n 0 dst src"

text \<open>\<open>mask\<close> is \<open>0xFF\<close> for a condition that holds and \<open>0\<close> otherwise.\<close>

fun ct_copy_loop :: "nat \<Rightarrow> nat \<Rightarrow> u8 \<Rightarrow> bytes \<Rightarrow> bytes \<Rightarrow> bytes" where
  "ct_copy_loop 0 i msk dst src = dst"
| "ct_copy_loop (Suc k) i msk dst src =
     ct_copy_loop k (Suc i) msk (dst[i := (src ! i AND msk) OR (dst ! i AND NOT msk)]) src"

definition sl_ct_copy :: "bytes \<Rightarrow> bytes \<Rightarrow> nat \<Rightarrow> int \<Rightarrow> bytes" where
  "sl_ct_copy dst src n cond =
     (let msk = (- (if cond \<noteq> 0 then 1 else 0) :: u8) in ct_copy_loop n 0 msk dst src)"

lemma zero_loop_eq: "zero_loop bs = replicate (length bs) 0"
  by (induction bs) auto

lemma or_u8_eq_0_iff: "(a :: u8) OR b = 0 \<longleftrightarrow> a = 0 \<and> b = 0"
  by (rule or_eq_0_iff)

lemma xor_u8_eq_0_iff: "(a :: u8) XOR b = 0 \<longleftrightarrow> a = b"
  by (auto simp: bit_eq_iff bit_simps)

lemma ct_diff_eq_0_iff:
  "ct_diff n a b i d = 0 \<longleftrightarrow> d = 0 \<and> (\<forall>k < n. a ! (i + k) = b ! (i + k))"
proof (induction n arbitrary: i d)
  case 0
  then show ?case by simp
next
  case (Suc n)
  have "(\<forall>k < Suc n. a ! (i + k) = b ! (i + k)) \<longleftrightarrow> a ! i = b ! i \<and> (\<forall>k < n. a ! (Suc i + k) = b ! (Suc i + k))"
    by (auto simp: less_Suc_eq_0_disj)
  then show ?case
    by (simp add: Suc.IH or_u8_eq_0_iff xor_u8_eq_0_iff)
qed

lemma ct_mask_trick:
  "(1 :: u32) AND drop_bit 8 (ucast (d :: u8) - 1) = (if d = 0 then 1 else 0)"
proof (cases "d = 0")
  case True
  then show ?thesis by (simp add: mask_eq_exp_minus_1)
next
  case False
  have "drop_bit 8 (ucast d - 1 :: u32) = 0"
  proof -
    have "unat (ucast d - 1 :: u32) < 256"
    proof -
      have "(ucast d :: u32) \<noteq> 0" using False by (simp flip: unat_eq_0)
      then have "unat (ucast d - 1 :: u32) = unat d - 1" by (simp add: unat_minus_one)
      with u8_cases_less [of d] show ?thesis by simp
    qed
    then show ?thesis
      by (simp add: drop_bit_eq_div unat_div flip: unat_eq_0)
  qed
  with False show ?thesis by simp
qed

lemma take_eq_iff_nth:
  "n \<le> length a \<Longrightarrow> n \<le> length b \<Longrightarrow> take n a = take n b \<longleftrightarrow> (\<forall>k < n. a ! k = b ! k)"
  by (auto simp: list_eq_iff_nth_eq)

lemma sl_secure_zero_eq: "sl_secure_zero (Some bs) = Some (replicate (length bs) 0)"
  by (simp add: sl_secure_zero_def zero_loop_eq)

lemma sl_ct_equal_eq:
  assumes "n \<le> length a" "n \<le> length b"
  shows "sl_ct_equal a b n = (if take n a = take n b then 1 else 0)"
  using assms by (simp add: sl_ct_equal_def Let_def ct_mask_trick ct_diff_eq_0_iff take_eq_iff_nth)

lemma sl_ct_equal_full:
  "length a = n \<Longrightarrow> length b = n \<Longrightarrow> sl_ct_equal a b n = (if a = b then 1 else 0)"
  by (simp add: sl_ct_equal_eq)

lemma length_xor_loop [simp]: "length (xor_loop n i dst src) = length dst"
  by (induction n arbitrary: i dst) auto

lemma nth_xor_loop:
  "i + n \<le> length dst \<Longrightarrow> k < length dst \<Longrightarrow>
   xor_loop n i dst src ! k = (if i \<le> k \<and> k < i + n then dst ! k XOR src ! k else dst ! k)"
  by (induction n arbitrary: i dst) (auto simp: nth_list_update)

lemma sl_xor_inplace_eq:
  assumes "n \<le> length dst" "n \<le> length src"
  shows "sl_xor_inplace dst src n = map2 (XOR) (take n dst) (take n src) @ drop n dst"
  unfolding sl_xor_inplace_def using assms
  by (intro nth_equalityI) (auto simp: nth_xor_loop nth_append)

lemma sl_xor_inplace_involution:
  assumes "n \<le> length dst"
  shows "sl_xor_inplace (sl_xor_inplace dst src n) src n = dst"
  unfolding sl_xor_inplace_def using assms
  by (intro nth_equalityI) (auto simp: nth_xor_loop xor.assoc)

lemma length_ct_copy_loop [simp]: "length (ct_copy_loop n i m dst src) = length dst"
  by (induction n arbitrary: i dst) auto

lemma nth_ct_copy_loop:
  "i + n \<le> length dst \<Longrightarrow> k < length dst \<Longrightarrow>
   ct_copy_loop n i m dst src ! k =
     (if i \<le> k \<and> k < i + n then (src ! k AND m) OR (dst ! k AND NOT m) else dst ! k)"
  by (induction n arbitrary: i dst) (auto simp: nth_list_update)

lemma sl_ct_copy_eq:
  assumes "n \<le> length dst" "n \<le> length src"
  shows "sl_ct_copy dst src n cond = (if cond \<noteq> 0 then take n src @ drop n dst else dst)"
  unfolding sl_ct_copy_def Let_def using assms
  by (intro nth_equalityI) (auto simp: nth_ct_copy_loop nth_append)

text \<open>
  The branch-free primitives compute what their plain counterparts do: \<open>sl_ct_equal\<close>
  returns 1 exactly when the two ranges are equal and 0 otherwise, \<open>sl_ct_copy\<close> overwrites the
  range exactly when the condition is non-zero, and applying \<open>sl_xor_inplace\<close> twice with one
  pad restores the buffer.
\<close>

theorem ct_primitives_correct:
  assumes "n \<le> length a" "n \<le> length b"
  shows "sl_ct_equal a b n = (if take n a = take n b then 1 else 0)
    \<and> sl_ct_copy a b n cond = (if cond \<noteq> 0 then take n b @ drop n a else a)
    \<and> sl_xor_inplace (sl_xor_inplace a b n) b n = a"
  using assms by (simp add: sl_ct_equal_eq sl_ct_copy_eq sl_xor_inplace_involution)

theorem ct_primitives_correct_witness:
  "sl_ct_equal [1, 2, 3] [1, 2, 4] 2 = 1 \<and> sl_ct_equal [1, 2, 3] [1, 2, 4] 3 = 0
   \<and> sl_ct_copy [1, 2, 3] [1, 2, 4] 3 5 = [1, 2, 4]
   \<and> sl_xor_inplace (sl_xor_inplace [1, 2, 3] [1, 2, 4] 3) [1, 2, 4] 3 = [1, 2, 3]"
  using ct_primitives_correct [of 2 "[1, 2, 3]" "[1, 2, 4]" 5]
    ct_primitives_correct [of 3 "[1, 2, 3]" "[1, 2, 4]" 5]
  by simp

end
