(* ===== verification/SL_Rng.thy ===== *)
theory SL_Rng
  imports SL_Mem
begin

text \<open>
  Randomness and what is built on it: \<open>src/sl_rng.c\<close>, \<open>src/sl_backoff.c\<close> and
  \<open>src/sl_canary.c\<close>. OpenSSL's \<open>RAND_bytes\<close> is a parameter, a function of a generator
  state of any type that delivers bytes or fails; \<open>rand_law\<close> is the only thing assumed of it.
\<close>

type_synonym 'g rand_bytes = "'g \<Rightarrow> nat \<Rightarrow> bytes option \<times> 'g"

definition rand_law :: "'g rand_bytes \<Rightarrow> bool" where
  "rand_law R \<longleftrightarrow> (\<forall>g n b g'. R g n = (Some b, g') \<longrightarrow> length b = n)"

subsection \<open>The generator\<close>

definition sl_rng_init :: "'g rand_bytes \<Rightarrow> 'g \<Rightarrow> int \<times> 'g" where
  "sl_rng_init R g = (case R g 1 of (None, g') \<Rightarrow> (- 1, g') | (Some _, g') \<Rightarrow> (0, g'))"

function rng_bytes_loop :: "'g rand_bytes \<Rightarrow> 'g \<Rightarrow> nat \<Rightarrow> bytes \<Rightarrow> bytes option \<times> 'g" where
  "rng_bytes_loop R g len buf =
     (if len = 0 then (Some buf, g)
      else let chunk = (if len > 1048576 then 1048576 else len) in
        case R g chunk of
          (None, g') \<Rightarrow> (None, g')
        | (Some b, g') \<Rightarrow> rng_bytes_loop R g' (len - chunk) (buf @ b))"
  by pat_completeness auto

termination
  by (relation "measure (\<lambda>(R, g, len, buf). len)") (auto split: if_splits)

declare rng_bytes_loop.simps [simp del]

definition sl_rng_bytes :: "'g rand_bytes \<Rightarrow> 'g \<Rightarrow> out_buf \<Rightarrow> bytes option \<times> 'g" where
  "sl_rng_bytes R g buf =
     (case buf of
        None \<Rightarrow> (None, g)
      | Some len \<Rightarrow> if len = 0 then (None, g) else rng_bytes_loop R g len [])"

definition sl_rng_u32 :: "'g rand_bytes \<Rightarrow> 'g \<Rightarrow> out_ref \<Rightarrow> u32 option \<times> 'g" where
  "sl_rng_u32 R g out =
     (if out = NULL then (None, g)
      else case sl_rng_bytes R g (Some 4) of
        (None, g') \<Rightarrow> (None, g')
      | (Some b, g') \<Rightarrow>
          (Some (push_bit 24 (ucast (b ! 0)) OR push_bit 16 (ucast (b ! 1)) OR
                 push_bit 8 (ucast (b ! 2)) OR ucast (b ! 3)), g'))"

fun be_accumulate :: "u64 \<Rightarrow> bytes \<Rightarrow> u64" where
  "be_accumulate v [] = v"
| "be_accumulate v (b # bs) = be_accumulate (push_bit 8 v OR ucast b) bs"

definition sl_rng_u64 :: "'g rand_bytes \<Rightarrow> 'g \<Rightarrow> out_ref \<Rightarrow> u64 option \<times> 'g" where
  "sl_rng_u64 R g out =
     (if out = NULL then (None, g)
      else case sl_rng_bytes R g (Some 8) of
        (None, g') \<Rightarrow> (None, g')
      | (Some b, g') \<Rightarrow> (Some (be_accumulate 0 b), g'))"

text \<open>
  The rejection loop of \<open>sl_rng_uniform\<close> has no bound on its iterations. The outer option is
  \<open>None\<close> when it does not return.
\<close>

partial_function (option) rng_uniform_loop ::
  "'g rand_bytes \<Rightarrow> u64 \<Rightarrow> u64 \<Rightarrow> 'g \<Rightarrow> (u64 option \<times> 'g) option" where
  "rng_uniform_loop R limit upper g =
     (case sl_rng_u64 R g OUT of
        (None, g') \<Rightarrow> Some (None, g')
      | (Some r, g') \<Rightarrow>
          if r < limit then Some (Some (r mod upper), g')
          else rng_uniform_loop R limit upper g')"

definition uniform_limit :: "u64 \<Rightarrow> u64" where
  "uniform_limit upper = - 1 - (- 1 mod upper)"

definition sl_rng_uniform ::
  "'g rand_bytes \<Rightarrow> 'g \<Rightarrow> u64 \<Rightarrow> out_ref \<Rightarrow> (u64 option \<times> 'g) option" where
  "sl_rng_uniform R g upper out =
     (if upper = 0 \<or> out = NULL then Some (None, g)
      else rng_uniform_loop R (uniform_limit upper) upper g)"

subsection \<open>Backoff with jitter\<close>

record sl_backoff_t =
  bo_base_ms :: u32
  bo_cap_ms :: u32
  bo_last_ms :: u32
  bo_attempt :: u32

definition sl_backoff_init :: "sl_backoff_t ptr \<Rightarrow> u32 \<Rightarrow> u32 \<Rightarrow> int \<times> sl_backoff_t ptr" where
  "sl_backoff_init b base_ms cap_ms =
     (if b = NULL \<or> base_ms = 0 \<or> cap_ms < base_ms then (- 1, b)
      else (0, Some \<lparr>bo_base_ms = base_ms, bo_cap_ms = cap_ms, bo_last_ms = base_ms, bo_attempt = 0\<rparr>))"

definition sl_backoff_reset :: "sl_backoff_t ptr \<Rightarrow> sl_backoff_t ptr" where
  "sl_backoff_reset b =
     (case b of
        None \<Rightarrow> NULL
      | Some s \<Rightarrow> Some (s\<lparr>bo_last_ms := bo_base_ms s, bo_attempt := 0\<rparr>))"

definition sl_backoff_attempt :: "sl_backoff_t ptr \<Rightarrow> u32" where
  "sl_backoff_attempt b = (case b of None \<Rightarrow> 0 | Some s \<Rightarrow> bo_attempt s)"

text \<open>The width of the jitter window; \<open>base_ms + 1\<close> is computed in 32 bits.\<close>

definition backoff_span :: "sl_backoff_t \<Rightarrow> u64" where
  "backoff_span s =
     (let upper0 = (ucast (bo_last_ms s) :: u64) * 3;
          upper1 = (if upper0 > ucast (bo_cap_ms s) then ucast (bo_cap_ms s) else upper0);
          upper2 = (if upper1 \<le> ucast (bo_base_ms s) then ucast (bo_base_ms s + 1) else upper1)
      in upper2 - ucast (bo_base_ms s))"

definition backoff_advance :: "sl_backoff_t \<Rightarrow> u64 \<Rightarrow> u32 \<times> sl_backoff_t" where
  "backoff_advance s r =
     (let delay = bo_base_ms s + ucast r
      in (delay, s\<lparr>bo_last_ms := delay, bo_attempt := bo_attempt s + 1\<rparr>))"

definition sl_backoff_next ::
  "'g rand_bytes \<Rightarrow> 'g \<Rightarrow> sl_backoff_t ptr \<Rightarrow> (u32 \<times> sl_backoff_t ptr \<times> 'g) option" where
  "sl_backoff_next R g b =
     (case b of
        None \<Rightarrow> Some (0, NULL, g)
      | Some s \<Rightarrow>
          (case sl_rng_uniform R g (backoff_span s) OUT of
             None \<Rightarrow> None
           | Some (r, g') \<Rightarrow>
               let (delay, s') = backoff_advance s (case r of None \<Rightarrow> 0 | Some v \<Rightarrow> v)
               in Some (delay, Some s', g')))"

subsection \<open>Canaries\<close>

text \<open>The state is the process-wide \<open>g_canary\<close>; a 64-bit object is its eight bytes.\<close>

definition sl_canary_init :: "'g rand_bytes \<Rightarrow> 'g \<Rightarrow> u64 \<Rightarrow> int \<times> u64 \<times> 'g" where
  "sl_canary_init R g g_canary =
     (case sl_rng_u64 R g OUT of
        (None, g') \<Rightarrow> (- 1, g_canary, g')
      | (Some v, g') \<Rightarrow>
          let v1 = (if v AND 0xFF = 0 then v OR 0xA5 else v);
              v2 = (if v1 AND 0xFF00000000000000 = 0 then v1 OR push_bit 56 0x5A else v1)
          in (0, v2, g'))"

definition sl_canary_value :: "u64 \<Rightarrow> u64" where
  "sl_canary_value g_canary = g_canary"

definition sl_canary_arm :: "u64 \<Rightarrow> u64 ptr \<Rightarrow> u64 ptr" where
  "sl_canary_arm g_canary slot =
     (case slot of None \<Rightarrow> NULL | Some _ \<Rightarrow> Some (sl_canary_value g_canary))"

definition sl_canary_check :: "u64 \<Rightarrow> u64 ptr \<Rightarrow> bool" where
  "sl_canary_check g_canary slot =
     (case slot of
        None \<Rightarrow> False
      | Some v \<Rightarrow> sl_ct_equal (rev (pack_u64 v)) (rev (pack_u64 (sl_canary_value g_canary))) 8 = 1)"

definition sl_canary_disarm :: "u64 ptr \<Rightarrow> u64 ptr" where
  "sl_canary_disarm slot =
     (case slot of
        None \<Rightarrow> NULL
      | Some v \<Rightarrow> (case sl_secure_zero (Some (rev (pack_u64 v))) of
                     None \<Rightarrow> slot
                   | Some bs \<Rightarrow> Some (unpack_u64 (rev bs))))"

subsection \<open>What the generator delivers\<close>

lemma rng_bytes_loop_length:
  "rand_law R \<Longrightarrow> rng_bytes_loop R g len buf = (Some b, g') \<Longrightarrow> length b = length buf + len"
proof (induction R g len buf rule: rng_bytes_loop.induct)
  case (1 R g len buf)
  show ?case
  proof (cases "len = 0")
    case True
    with 1(3) show ?thesis by (simp add: rng_bytes_loop.simps)
  next
    case False
    define chunk :: nat where "chunk = (if len > 1048576 then 1048576 else len)"
    obtain c g1 where R: "R g chunk = (Some c, g1)" and
      rest: "rng_bytes_loop R g1 (len - chunk) (buf @ c) = (Some b, g')"
      using 1(3) False
      by (subst (asm) rng_bytes_loop.simps)
        (auto simp: Let_def chunk_def split: prod.splits option.splits if_splits)
    have "length c = chunk" using R 1(2) by (auto simp: rand_law_def)
    moreover have "chunk \<le> len" by (simp add: chunk_def)
    moreover have "length b = length (buf @ c) + (len - chunk)"
      using 1(1) [OF False chunk_def R [symmetric] refl 1(2) rest] by simp
    ultimately show ?thesis by simp
  qed
qed

lemma sl_rng_bytes_length:
  "rand_law R \<Longrightarrow> sl_rng_bytes R g (Some n) = (Some b, g') \<Longrightarrow> length b = n"
  by (auto simp: sl_rng_bytes_def split: if_splits dest: rng_bytes_loop_length)

lemma sl_rng_bytes_small:
  "0 < n \<Longrightarrow> n \<le> 1048576 \<Longrightarrow> sl_rng_bytes R g (Some n) = R g n"
  by (simp add: sl_rng_bytes_def rng_bytes_loop.simps split: prod.splits option.splits)

lemma replicate_8: "replicate 8 x = [x, x, x, x, x, x, x, x]"
  by (simp add: eval_nat_numeral)

fun rng_after :: "'g rand_bytes \<Rightarrow> 'g \<Rightarrow> nat \<Rightarrow> 'g" where
  "rng_after R g 0 = g"
| "rng_after R g (Suc n) = rng_after R (snd (sl_rng_u64 R g OUT)) n"

definition draw_stops :: "'g rand_bytes \<Rightarrow> u64 \<Rightarrow> 'g \<Rightarrow> bool" where
  "draw_stops R limit g = (case fst (sl_rng_u64 R g OUT) of None \<Rightarrow> True | Some r \<Rightarrow> r < limit)"

lemma rng_uniform_loop_stops:
  "draw_stops R limit g \<Longrightarrow> \<exists>y. rng_uniform_loop R limit upper g = Some y"
  by (subst rng_uniform_loop.simps) (auto simp: draw_stops_def split: prod.splits option.splits)

lemma rng_uniform_loop_continues:
  "\<not> draw_stops R limit g \<Longrightarrow>
   rng_uniform_loop R limit upper g = rng_uniform_loop R limit upper (snd (sl_rng_u64 R g OUT))"
  by (subst rng_uniform_loop.simps) (auto simp: draw_stops_def split: prod.splits option.splits)

lemma rng_uniform_loop_returns:
  "draw_stops R limit (rng_after R g n) \<Longrightarrow> \<exists>y. rng_uniform_loop R limit upper g = Some y"
proof (induction n arbitrary: g)
  case 0
  then have "draw_stops R limit g" by simp
  then show ?case by (rule rng_uniform_loop_stops)
next
  case (Suc n)
  show ?case
  proof (cases "draw_stops R limit g")
    case True
    then show ?thesis by (rule rng_uniform_loop_stops)
  next
    case False
    have "\<exists>y. rng_uniform_loop R limit upper (snd (sl_rng_u64 R g OUT)) = Some y"
      using Suc by simp
    then show ?thesis by (simp add: rng_uniform_loop_continues [OF False])
  qed
qed

definition draw_result :: "'g rand_bytes \<Rightarrow> u64 \<Rightarrow> u64 \<Rightarrow> 'g \<Rightarrow> u64 option \<times> 'g \<Rightarrow> bool" where
  "draw_result R limit upper g y \<longleftrightarrow>
     (\<exists>n. draw_stops R limit (rng_after R g n)) \<and>
     (\<forall>v. fst y = Some v \<longrightarrow> (\<exists>r < limit. v = r mod upper))"

lemma draw_result_now:
  assumes "draw_stops R limit g" and "\<And>v. fst y = Some v \<Longrightarrow> \<exists>r < limit. v = r mod upper"
  shows "draw_result R limit upper g y"
  unfolding draw_result_def using assms by (metis rng_after.simps(1))

lemma draw_result_later:
  assumes "draw_result R limit upper (snd (sl_rng_u64 R g OUT)) y"
  shows "draw_result R limit upper g y"
proof -
  obtain n where "draw_stops R limit (rng_after R g (Suc n))"
    using assms by (auto simp: draw_result_def)
  with assms show ?thesis unfolding draw_result_def by blast
qed

lemma rng_uniform_loop_result:
  assumes "rng_uniform_loop R limit upper g = Some y"
  shows "draw_result R limit upper g y"
proof (rule rng_uniform_loop.raw_induct [where P = draw_result, OF _ assms], goal_cases)
  case (1 f R limit upper g y)
  obtain d g1 where draw: "sl_rng_u64 R g OUT = (d, g1)" by fastforce
  show ?case
  proof (cases "draw_stops R limit g")
    case True
    have "\<exists>r < limit. v = r mod upper" if "fst y = Some v" for v
      using True that 1(2) by (auto simp: draw draw_stops_def split: option.splits if_splits)
    with True show ?thesis by (rule draw_result_now)
  next
    case False
    then have "f R limit upper (snd (sl_rng_u64 R g OUT)) = Some y"
      using 1(2) by (auto simp: draw draw_stops_def split: option.splits if_splits)
    from 1(1) [OF this] show ?thesis by (rule draw_result_later)
  qed
qed

subsection \<open>Rejection sampling is unbiased\<close>

lemma card_residue:
  assumes "k < q"
  shows "card {r :: nat. r < m * q \<and> r mod q = k} = m"
proof -
  have "{r :: nat. r < m * q \<and> r mod q = k} = (\<lambda>j. j * q + k) ` {..< m}"
  proof (intro equalityI subsetI)
    fix r assume "r \<in> {r. r < m * q \<and> r mod q = k}"
    then have r: "r mod q = k" "r < m * q" by simp_all
    have eq: "r = r div q * q + k" using div_mult_mod_eq [of r q] unfolding r(1) by (rule sym)
    have "r div q \<in> {..< m}" using r(2) by (simp add: less_mult_imp_div_less)
    then show "r \<in> (\<lambda>j. j * q + k) ` {..< m}" by (intro image_eqI [of r "\<lambda>j. j * q + k" "r div q"] eq)
  next
    fix r assume "r \<in> (\<lambda>j. j * q + k) ` {..< m}"
    then obtain j where j: "j < m" "r = j * q + k" by blast
    have "r < Suc j * q" using j assms by simp
    also have "\<dots> \<le> m * q" using j by (intro mult_le_mono1) simp
    finally show "r \<in> {r. r < m * q \<and> r mod q = k}" using j assms by simp
  qed
  moreover have "inj_on (\<lambda>j. j * q + k) {..< m}"
    using assms by (auto simp: inj_on_def)
  ultimately show ?thesis by (simp add: card_image)
qed

lemma uniform_limit_unat:
  assumes "upper \<noteq> 0"
  shows "unat (uniform_limit upper) = (UINT64_MAX div unat upper) * unat upper"
proof -
  have "unat (- 1 mod upper) = UINT64_MAX mod unat upper"
    by (simp add: unat_mod unat_minus_1_u64)
  moreover have "UINT64_MAX mod unat upper \<le> UINT64_MAX" by simp
  ultimately have "unat (uniform_limit upper) = UINT64_MAX - UINT64_MAX mod unat upper"
    by (simp add: uniform_limit_def unat_sub_if_size unat_minus_1_u64)
  then show ?thesis by (simp add: minus_mod_eq_div_mult)
qed

lemma unat_image_below:
  assumes "\<And>r. Q r \<Longrightarrow> r \<le> UINT64_MAX"
  shows "unat ` {r :: u64. Q (unat r)} = {r. Q r}"
proof (intro equalityI subsetI)
  fix r assume "r \<in> {r. Q r}"
  then have "unat (of_nat r :: u64) = r" and "Q r" using assms by (simp_all add: unat_of_nat_u64)
  then show "r \<in> unat ` {r :: u64. Q (unat r)}" by (intro image_eqI [of _ _ "of_nat r"]) simp_all
qed auto

lemma card_draws:
  assumes "k < upper"
  shows "card {r :: u64. r < uniform_limit upper \<and> r mod upper = k} = UINT64_MAX div unat upper"
proof -
  have up: "upper \<noteq> 0" using assms by auto
  let ?m = "UINT64_MAX div unat upper :: nat"
  let ?Q = "\<lambda>r. r < ?m * unat upper \<and> r mod unat upper = unat k"
  have iff: "r < uniform_limit upper \<and> r mod upper = k \<longleftrightarrow> ?Q (unat r)" for r
    by (simp only: word_less_nat_alt uniform_limit_unat [OF up] unat_mod word_unat_eq_iff)
  have "r \<le> UINT64_MAX" if "?Q r" for r
    using that div_times_less_eq_dividend [of UINT64_MAX "unat upper"] by linarith
  then have "unat ` {r :: u64. ?Q (unat r)} = {r. ?Q r}" by (rule unat_image_below)
  moreover have "card (unat ` {r :: u64. ?Q (unat r)}) = card {r :: u64. ?Q (unat r)}"
    by (intro card_image inj_onI) (simp only: word_unat_eq_iff)
  ultimately have "card {r :: u64. ?Q (unat r)} = card {r. ?Q r}" by (simp only:)
  also have "\<dots> = ?m"
    using assms by (intro card_residue) (simp add: word_less_nat_alt)
  finally show ?thesis by (simp only: iff)
qed

lemma sl_rng_uniform_draw:
  assumes "sl_rng_uniform R g upper OUT = Some (Some v, g')"
  shows "\<exists>r < uniform_limit upper. v = r mod upper"
  using assms rng_uniform_loop_result [of R _ upper g "(Some v, g')"]
  by (auto simp: sl_rng_uniform_def draw_result_def split: if_splits)

lemma sl_rng_uniform_below:
  assumes "sl_rng_uniform R g upper OUT = Some (Some v, g')"
  shows "v < upper"
proof -
  have "upper \<noteq> 0" using assms by (auto simp: sl_rng_uniform_def split: if_splits)
  then show ?thesis
    using sl_rng_uniform_draw [OF assms] by (auto simp: word_less_nat_alt unat_mod unat_gt_0)
qed



text \<open>
  C16. The rejection loop of \<open>sl_rng_uniform\<close> returns exactly when the generator, at some point,
  fails or delivers a draw below the acceptance limit; nothing else makes it run forever.
\<close>

theorem sl_rng_uniform_returns_iff:
  assumes "upper \<noteq> 0"
  shows "(\<exists>y. sl_rng_uniform R g upper OUT = Some y) \<longleftrightarrow>
         (\<exists>n. draw_stops R (uniform_limit upper) (rng_after R g n))"
proof
  assume "\<exists>y. sl_rng_uniform R g upper OUT = Some y"
  then obtain q g' where "rng_uniform_loop R (uniform_limit upper) upper g = Some (q, g')"
    using assms by (auto simp: sl_rng_uniform_def)
  from rng_uniform_loop_result [OF this] show "\<exists>n. draw_stops R (uniform_limit upper) (rng_after R g n)"
    by (simp add: draw_result_def)
next
  assume "\<exists>n. draw_stops R (uniform_limit upper) (rng_after R g n)"
  then obtain n where "draw_stops R (uniform_limit upper) (rng_after R g n)" by blast
  from rng_uniform_loop_returns [OF this, of upper] show "\<exists>y. sl_rng_uniform R g upper OUT = Some y"
    using assms by (simp add: sl_rng_uniform_def)
qed

theorem sl_rng_uniform_returns_iff_witness:
  "(\<exists>y. sl_rng_uniform (\<lambda>g n. (None, g)) () 10 OUT = Some y) \<and>
   \<not> (\<exists>y. sl_rng_uniform (\<lambda>g n. (Some (replicate n 255), g)) () 10 OUT = Some y)"
proof -
  let ?R = "\<lambda>g n. (Some (replicate n 255), g) :: bytes option \<times> unit"
  have after: "rng_after ?R () n = ()" for n by simp
  have "\<not> draw_stops ?R (uniform_limit 10) ()"
    by (simp add: draw_stops_def sl_rng_u64_def sl_rng_bytes_small replicate_8 uniform_limit_def)
  then show ?thesis
    using sl_rng_uniform_returns_iff [of 10 ?R "()"] sl_rng_uniform_returns_iff [of 10 "\<lambda>g n. (None, g)" "()"]
    by (simp add: draw_stops_def sl_rng_u64_def sl_rng_bytes_small)
qed

subsection \<open>The backoff window\<close>

definition bo_ok :: "sl_backoff_t \<Rightarrow> bool" where
  "bo_ok s \<longleftrightarrow> bo_base_ms s \<noteq> 0 \<and> bo_base_ms s \<le> bo_last_ms s \<and> bo_last_ms s \<le> bo_cap_ms s
     \<and> bo_base_ms s \<noteq> - 1"

definition backoff_top :: "sl_backoff_t \<Rightarrow> nat" where
  "backoff_top s = max (unat (bo_base_ms s) + 1) (min (3 * unat (bo_last_ms s)) (unat (bo_cap_ms s)))"

lemma unat_u32_succ: "a \<noteq> - 1 \<Longrightarrow> unat (a + 1 :: u32) = unat a + 1"
  using unatSuc [of a] eq_neg_iff_add_eq_0 [of a 1] by (simp add: add.commute [of 1])

lemma unat_triple: "unat ((ucast (a :: u32) :: u64) * 3) = 3 * unat a"
proof -
  have "unat (ucast a :: u64) * unat (3 :: u64) < 2 ^ 64"
    using u32_less [of a] by simp
  then show ?thesis by (simp add: unat_word_ariths)
qed

lemma backoff_span_unat:
  assumes "bo_ok s"
  shows "unat (backoff_span s) = backoff_top s - unat (bo_base_ms s)"
  using assms
  by (simp add: bo_ok_def backoff_span_def backoff_top_def Let_def unat_sub_if_size word_le_nat_alt
      word_less_nat_alt unat_triple unat_u32_succ)

lemma backoff_advance_window:
  assumes ok: "bo_ok s" and r: "r < backoff_span s" and adv: "backoff_advance s r = (d, s')"
  shows "bo_base_ms s \<le> d \<and> unat d < backoff_top s \<and> bo_ok s' \<and> bo_last_ms s' = d"
proof -
  have top: "backoff_top s \<le> max (unat (bo_base_ms s) + 1) (unat (bo_cap_ms s))"
    by (simp add: backoff_top_def)
  have r': "unat r < backoff_top s - unat (bo_base_ms s)"
    using r backoff_span_unat [OF ok] by (simp add: word_less_nat_alt)
  have cap: "unat (bo_base_ms s) + 1 < 4294967296"
    using ok u32_less [of "bo_base_ms s + 1"] by (simp add: bo_ok_def unat_u32_succ)
  have bound: "unat (bo_base_ms s) + unat r < 4294967296"
    using r' top cap u32_less [of "bo_cap_ms s"] by linarith
  have d: "d = bo_base_ms s + ucast r" "s' = s\<lparr>bo_last_ms := d, bo_attempt := bo_attempt s + 1\<rparr>"
    using adv by (auto simp: backoff_advance_def Let_def)
  have "unat (ucast r :: u32) = unat r" using bound by (simp add: unat_u32_of_u64)
  then have ud: "unat d = unat (bo_base_ms s) + unat r"
    using bound by (simp add: d(1) unat_word_ariths)
  moreover have "unat d \<le> unat (bo_cap_ms s)"
    using ud r' top ok by (auto simp: bo_ok_def word_le_nat_alt)
  ultimately show ?thesis
    using ok r' d(2) by (simp add: bo_ok_def word_le_nat_alt)
qed

text \<open>
  Every delay the backoff chooses lies in the documented window: at least \<open>base_ms\<close>, at most
  \<open>cap_ms\<close>, and below \<open>min(cap_ms, 3 * previous)\<close> unless that window is empty and the delay is
  \<open>base_ms\<close> itself. The state stays well formed, remembers the delay and counts the attempt; a
  failing generator gives \<open>base_ms\<close>.
\<close>

theorem sl_backoff_next_window:
  assumes "bo_ok s" "sl_backoff_next R g (Some s) = Some (d, Some s', g')"
  shows "bo_base_ms s \<le> d \<and> d \<le> bo_cap_ms s \<and> unat d < backoff_top s \<and> bo_ok s'
    \<and> bo_last_ms s' = d \<and> bo_base_ms s' = bo_base_ms s \<and> bo_cap_ms s' = bo_cap_ms s
    \<and> sl_backoff_attempt (Some s') = sl_backoff_attempt (Some s) + 1"
proof -
  obtain q where q: "sl_rng_uniform R g (backoff_span s) OUT = Some (q, g')"
    and adv: "backoff_advance s (case q of None \<Rightarrow> 0 | Some v \<Rightarrow> v) = (d, s')"
    using assms(2) by (auto simp: sl_backoff_next_def split: option.splits prod.splits)
  have span: "0 < backoff_span s"
    using backoff_span_unat [OF assms(1)] by (simp add: word_less_nat_alt backoff_top_def)
  have "(case q of None \<Rightarrow> 0 | Some v \<Rightarrow> v) < backoff_span s"
    using span sl_rng_uniform_below [of R g _ _ g'] q by (cases q) auto
  from backoff_advance_window [OF assms(1) this adv]
  have w: "bo_base_ms s \<le> d \<and> unat d < backoff_top s \<and> bo_ok s' \<and> bo_last_ms s' = d" .
  moreover have "s' = s\<lparr>bo_last_ms := d, bo_attempt := bo_attempt s + 1\<rparr>"
    using adv by (auto simp: backoff_advance_def Let_def)
  ultimately show ?thesis by (auto simp: bo_ok_def sl_backoff_attempt_def)
qed

lemma sl_rng_uniform_first_draw:
  assumes "R g 8 = (Some b, g')" "upper \<noteq> 0" "be_accumulate 0 b < uniform_limit upper"
  shows "sl_rng_uniform R g upper OUT = Some (Some (be_accumulate 0 b mod upper), g')"
  unfolding sl_rng_uniform_def using assms
  by (subst rng_uniform_loop.simps) (simp add: sl_rng_u64_def sl_rng_bytes_small)

theorem sl_backoff_next_window_witness:
  "let R = (\<lambda>g n. (Some (replicate n g), g + 1)); s = \<lparr>bo_base_ms = 100, bo_cap_ms = 1000, bo_last_ms = 100, bo_attempt = 0\<rparr>
   in sl_backoff_next R (5 :: u8) (Some s) = Some (265, Some (s\<lparr>bo_last_ms := 265, bo_attempt := 1\<rparr>), 6)
      \<and> 100 \<le> (265 :: u32) \<and> 265 \<le> (1000 :: u32) \<and> bo_ok (s\<lparr>bo_last_ms := 265, bo_attempt := 1\<rparr>)"
proof -
  let ?R = "\<lambda>g n. (Some (replicate n g), g + 1) :: bytes option \<times> u8"
  let ?s = "\<lparr>bo_base_ms = 100, bo_cap_ms = 1000, bo_last_ms = 100, bo_attempt = 0\<rparr>"
  have "backoff_span ?s = 200" by (simp add: backoff_span_def)
  moreover have "sl_rng_uniform ?R 5 200 OUT = Some (Some 165, 6)"
    by (subst sl_rng_uniform_first_draw [of _ _ "replicate 8 5" 6])
      (simp_all add: replicate_8 uniform_limit_def)
  ultimately have run: "sl_backoff_next ?R 5 (Some ?s) = Some (265, Some (?s\<lparr>bo_last_ms := 265, bo_attempt := 1\<rparr>), 6)"
    by (simp add: sl_backoff_next_def backoff_advance_def)
  have "bo_ok ?s" by (simp add: bo_ok_def)
  from sl_backoff_next_window [OF this run] run show ?thesis by (simp add: Let_def)
qed

text \<open>
  The window needs \<open>base_ms < UINT32_MAX\<close>. With \<open>base_ms = cap_ms = UINT32_MAX\<close>, which
  \<open>sl_backoff_init\<close> accepts, \<open>base_ms + 1\<close> wraps to zero, the span becomes almost the whole
  64-bit range, and a draw of one yields a delay of zero, below \<open>base_ms\<close>.
\<close>

lemma sl_backoff_next_wraps:
  "let s = snd (sl_backoff_init (Some s0) 0xFFFFFFFF 0xFFFFFFFF) in
   map_option fst (sl_backoff_next (\<lambda>g n. (Some (replicate (n - 1) 0 @ [1]), g)) () s) = Some 0"
proof -
  let ?s = "\<lparr>bo_base_ms = 0xFFFFFFFF, bo_cap_ms = 0xFFFFFFFF, bo_last_ms = 0xFFFFFFFF, bo_attempt = 0\<rparr>"
  let ?R = "\<lambda>g n. (Some (replicate (n - 1) 0 @ [1]), g) :: bytes option \<times> unit"
  have span: "backoff_span ?s = 0xFFFFFFFF00000001"
    by (simp add: backoff_span_def)
  have "replicate 7 (0 :: u8) = [0, 0, 0, 0, 0, 0, 0]" by (simp add: eval_nat_numeral)
  then have "sl_rng_uniform ?R () 0xFFFFFFFF00000001 OUT = Some (Some 1, ())"
    by (subst sl_rng_uniform_first_draw [of _ _ "[0, 0, 0, 0, 0, 0, 0, 1]" "()"])
      (simp_all add: word_less_nat_alt uniform_limit_unat UINT64_MAX_def)
  then show ?thesis
    by (simp add: sl_backoff_init_def sl_backoff_next_def backoff_advance_def span Let_def)
qed

subsection \<open>Canaries detect every change\<close>

lemma sl_canary_check_iff: "sl_canary_check c (Some v) \<longleftrightarrow> v = c"
  by (simp add: sl_canary_check_def sl_canary_value_def sl_ct_equal_full)

lemma sl_canary_disarm_zero: "sl_canary_disarm (Some v) = Some 0"
  by (simp add: sl_canary_disarm_def sl_secure_zero_eq unpack_u64_def unpack_u32_def replicate_8)

lemma canary_bytes_nonzero:
  fixes v :: u64
  defines "v1 \<equiv> if v AND 0xFF = 0 then v OR 0xA5 else v"
  defines "v2 \<equiv> if v1 AND 0xFF00000000000000 = 0 then v1 OR push_bit 56 0x5A else v1"
  shows "v2 AND 0xFF \<noteq> 0 \<and> v2 AND 0xFF00000000000000 \<noteq> 0"
proof -
  have or0: "(a OR b) AND m = 0 \<longleftrightarrow> a AND m = 0 \<and> b AND m = 0" for a b m :: u64
    by (simp add: bit.conj_disj_distrib2 or_eq_0_iff)
  have "v1 AND 0xFF \<noteq> 0" by (simp add: v1_def or0)
  then have "v2 AND 0xFF \<noteq> 0" by (simp add: v2_def or0)
  moreover have "v2 AND 0xFF00000000000000 \<noteq> 0" by (simp add: v2_def or0)
  ultimately show ?thesis ..
qed

text \<open>
  Canaries: after a successful initialisation the canary's low and high bytes are non-zero, an
  armed slot passes the check, a slot holding any other value (a disarmed one included) fails it,
  and so does a null slot; a failing generator leaves the canary unchanged.
\<close>

theorem canary_detects:
  assumes "sl_canary_init R g c0 = (rc, c, g')"
  shows "(rc \<noteq> 0 \<longrightarrow> c = c0)
    \<and> (rc = 0 \<longrightarrow> c AND 0xFF \<noteq> 0 \<and> c AND 0xFF00000000000000 \<noteq> 0
         \<and> sl_canary_check c (sl_canary_arm c (Some slot))
         \<and> (sl_canary_check c (Some w) \<longleftrightarrow> w = c)
         \<and> \<not> sl_canary_check c (sl_canary_disarm (Some w))
         \<and> \<not> sl_canary_check c NULL)"
proof (cases "fst (sl_rng_u64 R g OUT)")
  case None
  then show ?thesis using assms by (auto simp: sl_canary_init_def split: prod.splits)
next
  case (Some v)
  then have rc: "rc = 0" and c: "c AND 0xFF \<noteq> 0 \<and> c AND 0xFF00000000000000 \<noteq> 0"
    using assms canary_bytes_nonzero [of v] by (auto simp: sl_canary_init_def Let_def split: prod.splits)
  then have "c \<noteq> 0" by auto
  with rc c show ?thesis
    by (simp add: sl_canary_check_iff sl_canary_arm_def sl_canary_value_def sl_canary_disarm_zero)
      (simp add: sl_canary_check_def)
qed

theorem canary_detects_witness:
  "let c = 0x5A000000000000A5 in
   sl_canary_init (\<lambda>g n. (Some (replicate n 0), g)) () 0 = (0, c, ())
   \<and> sl_canary_check c (sl_canary_arm c (Some 7)) \<and> \<not> sl_canary_check c (Some 7)"
proof -
  have run: "sl_canary_init (\<lambda>g n. (Some (replicate n 0), g)) () 0 = (0, 0x5A000000000000A5, ())"
    by (simp add: sl_canary_init_def sl_rng_u64_def sl_rng_bytes_small replicate_8)
  from canary_detects [OF run, of 7 7] run show ?thesis by (simp add: Let_def)
qed

end
