(* ===== verification/SL_Aead.thy ===== *)
theory SL_Aead
  imports SL_Rng
begin

text \<open>
  Authenticated encryption: \<open>src/sl_nonce.c\<close> and \<open>src/sl_aead.c\<close>. OpenSSL's AES-256-GCM
  is the parameter \<open>evp_gcm\<close>: which of the EVP calls succeed, the keystream encryption and its
  inverse, and the tag of a key, nonce, additional data and ciphertext. \<open>gcm_law\<close> states its
  documented behaviour: decryption inverts encryption, both keep the length, a tag has 16 bytes.
  \<open>EVP_DecryptFinal_ex\<close> succeeds when the expected tag is the computed one. The \<open>int\<close>
  lengths passed to EVP are those of the buffers, which are shorter than \<open>INT_MAX\<close>.
\<close>

subsection \<open>OpenSSL\<close>

datatype evp_call = EVP_CIPHER_CTX_new | EVP_Init_cipher | EVP_CTRL_GCM_SET_IVLEN | EVP_Init_key
  | EVP_Update_aad | EVP_Update_data | EVP_CTRL_GCM_SET_TAG | EVP_Final | EVP_CTRL_GCM_GET_TAG

record evp_gcm =
  evp_ok :: "evp_call \<Rightarrow> bool"
  gcm_enc :: "bytes \<Rightarrow> bytes \<Rightarrow> bytes \<Rightarrow> bytes"
  gcm_dec :: "bytes \<Rightarrow> bytes \<Rightarrow> bytes \<Rightarrow> bytes"
  gcm_tag :: "bytes \<Rightarrow> bytes \<Rightarrow> bytes \<Rightarrow> bytes \<Rightarrow> bytes"

definition gcm_law :: "evp_gcm \<Rightarrow> bool" where
  "gcm_law E \<longleftrightarrow>
     (\<forall>k iv x. length (gcm_enc E k iv x) = length x \<and> length (gcm_dec E k iv x) = length x
        \<and> gcm_dec E k iv (gcm_enc E k iv x) = x)
   \<and> (\<forall>k iv aad x. length (gcm_tag E k iv aad x) = 16)"

definition evp_healthy :: "evp_gcm \<Rightarrow> bool" where
  "evp_healthy E \<longleftrightarrow> (\<forall>c. evp_ok E c)"

subsection \<open>Nonces\<close>

fun nonce_xor_loop :: "nat \<Rightarrow> nat \<Rightarrow> bytes \<Rightarrow> bytes \<Rightarrow> bytes" where
  "nonce_xor_loop 0 i nonce seq_be = nonce"
| "nonce_xor_loop (Suc k) i nonce seq_be =
     nonce_xor_loop k (Suc i) (nonce[12 - 8 + i := nonce ! (12 - 8 + i) XOR seq_be ! i]) seq_be"

definition sl_nonce_build :: "bytes \<Rightarrow> u64 \<Rightarrow> bytes" where
  "sl_nonce_build iv seq =
     (let seq_be = [ucast (drop_bit 56 seq), ucast (drop_bit 48 seq), ucast (drop_bit 40 seq),
                    ucast (drop_bit 32 seq), ucast (drop_bit 24 seq), ucast (drop_bit 16 seq),
                    ucast (drop_bit 8 seq), ucast seq]
      in nonce_xor_loop 8 0 (take 12 iv) seq_be)"

definition sl_nonce_next :: "bytes \<Rightarrow> u64 ptr \<Rightarrow> bytes option \<times> u64 ptr" where
  "sl_nonce_next iv seq_inout =
     (case seq_inout of
        None \<Rightarrow> (None, NULL)
      | Some seq \<Rightarrow>
          if seq = - 1 then (None, seq_inout)
          else (Some (sl_nonce_build iv seq), Some (seq + 1)))"

subsection \<open>Sealing and opening\<close>

text \<open>The memory a call reads through a pointer and a length.\<close>

definition mem_take :: "bytes ptr \<Rightarrow> nat \<Rightarrow> bytes" where
  "mem_take p n = (case p of None \<Rightarrow> [] | Some b \<Rightarrow> take n b)"

definition evp_setup :: "evp_gcm \<Rightarrow> bool" where
  "evp_setup E = (evp_ok E EVP_Init_cipher \<and> evp_ok E EVP_CTRL_GCM_SET_IVLEN \<and> evp_ok E EVP_Init_key)"

text \<open>
  \<open>sl_aead_seal\<close> returns the ciphertext and the tag it writes, or \<open>None\<close> for \<open>-1\<close>. Additional
  data behind a null pointer is not fed to the cipher.
\<close>

definition sl_aead_seal ::
  "evp_gcm \<Rightarrow> bytes ptr \<Rightarrow> bytes ptr \<Rightarrow> bytes ptr \<Rightarrow> nat \<Rightarrow> bytes ptr \<Rightarrow> nat \<Rightarrow>
   out_ref \<Rightarrow> out_ref \<Rightarrow> (bytes \<times> bytes) option" where
  "sl_aead_seal E key iv aad aad_len pt pt_len ct tag =
     (case (key, iv, tag) of
        (Some k, Some n, Some _) \<Rightarrow>
          if pt_len > 0 \<and> (pt = NULL \<or> ct = NULL) then None
          else if \<not> evp_ok E EVP_CIPHER_CTX_new then None
          else if \<not> evp_setup E then None
          else if aad_len > 0 \<and> aad \<noteq> NULL \<and> \<not> evp_ok E EVP_Update_aad then None
          else if pt_len > 0 \<and> \<not> evp_ok E EVP_Update_data then None
          else if \<not> evp_ok E EVP_Final then None
          else if \<not> evp_ok E EVP_CTRL_GCM_GET_TAG then None
          else let c = (if pt_len > 0 then gcm_enc E k n (mem_take pt pt_len) else [])
               in Some (c, gcm_tag E k n (mem_take aad aad_len) c)
      | _ \<Rightarrow> None)"

text \<open>
  \<open>sl_aead_open\<close> returns the status and the plaintext buffer as the call leaves it: untouched
  when a call before the decryption fails, zeroed when the tag does not match.
\<close>

definition sl_aead_open ::
  "evp_gcm \<Rightarrow> bytes ptr \<Rightarrow> bytes ptr \<Rightarrow> bytes ptr \<Rightarrow> nat \<Rightarrow> bytes ptr \<Rightarrow> nat \<Rightarrow>
   bytes ptr \<Rightarrow> bytes ptr \<Rightarrow> int \<times> bytes ptr" where
  "sl_aead_open E key iv aad aad_len ct ct_len tag pt =
     (case (key, iv, tag) of
        (Some k, Some n, Some t) \<Rightarrow>
          if ct_len > 0 \<and> (ct = NULL \<or> pt = NULL) then (- 1, pt)
          else if \<not> evp_ok E EVP_CIPHER_CTX_new then (- 1, pt)
          else if \<not> evp_setup E then (- 1, pt)
          else if aad_len > 0 \<and> aad \<noteq> NULL \<and> \<not> evp_ok E EVP_Update_aad then (- 1, pt)
          else if ct_len > 0 \<and> \<not> evp_ok E EVP_Update_data then (- 1, pt)
          else
            let c = (if ct_len > 0 then mem_take ct ct_len else []);
                pt1 = (if ct_len > 0 then map_option (write_at 0 (gcm_dec E k n c)) pt else pt)
            in if \<not> evp_ok E EVP_CTRL_GCM_SET_TAG then (- 1, pt1)
               else if \<not> (evp_ok E EVP_Final \<and> take 16 t = gcm_tag E k n (mem_take aad aad_len) c)
               then (- 1, if ct_len > 0
                          then map_option (\<lambda>b. zero_loop (take ct_len b) @ drop ct_len b) pt1
                          else pt1)
               else (0, pt1)
      | _ \<Rightarrow> (- 1, pt))"

subsection \<open>Nonces are distinct\<close>

lemma length_nonce_xor_loop [simp]: "length (nonce_xor_loop k i nonce s) = length nonce"
  by (induction k arbitrary: i nonce) auto

lemma nth_nonce_xor_loop:
  "4 + i + k \<le> length nonce \<Longrightarrow> j < length nonce \<Longrightarrow>
   nonce_xor_loop k i nonce s ! j =
     (if 4 + i \<le> j \<and> j < 4 + i + k then nonce ! j XOR s ! (j - 4) else nonce ! j)"
  by (induction k arbitrary: i nonce) (auto simp: nth_list_update)

lemma sl_nonce_build_eq:
  assumes "length iv = 12"
  shows "sl_nonce_build iv seq = take 4 iv @ map2 (XOR) (drop 4 iv) (pack_u64 seq)"
proof (rule nth_equalityI)
  have be: "[ucast (drop_bit 56 seq), ucast (drop_bit 48 seq), ucast (drop_bit 40 seq),
        ucast (drop_bit 32 seq), ucast (drop_bit 24 seq), ucast (drop_bit 16 seq),
        ucast (drop_bit 8 seq), ucast seq] = pack_u64 seq"
    by (simp add: pack_u64_def pack_u32_def bit_eq_iff bit_simps)
  show "length (sl_nonce_build iv seq) = length (take 4 iv @ map2 (XOR) (drop 4 iv) (pack_u64 seq))"
    using assms by (simp add: sl_nonce_build_def Let_def)
  fix j assume "j < length (sl_nonce_build iv seq)"
  then have "j < 12" using assms by (simp add: sl_nonce_build_def Let_def)
  then show "sl_nonce_build iv seq ! j = (take 4 iv @ map2 (XOR) (drop 4 iv) (pack_u64 seq)) ! j"
    using assms unfolding sl_nonce_build_def Let_def be
    by (auto simp: nth_nonce_xor_loop nth_append)
qed

lemma length_sl_nonce_build [simp]: "length iv = 12 \<Longrightarrow> length (sl_nonce_build iv seq) = 12"
  by (simp add: sl_nonce_build_eq)

lemma map2_xor_inject:
  "length ys = length xs \<Longrightarrow> length zs = length xs \<Longrightarrow>
   map2 (XOR) xs ys = map2 (XOR) xs (zs :: bytes) \<longleftrightarrow> ys = zs"
proof (induction xs arbitrary: ys zs)
  case (Cons x xs)
  then obtain y ys' z zs' where "ys = y # ys'" "zs = z # zs'" by (auto simp: length_Suc_conv)
  moreover have "x XOR y = x XOR z \<longleftrightarrow> y = z"
    by (auto simp: bit_eq_iff bit_simps)
  ultimately show ?case using Cons by auto
qed auto

lemma sl_nonce_build_inject:
  "length iv = 12 \<Longrightarrow> sl_nonce_build iv s = sl_nonce_build iv s' \<longleftrightarrow> s = s'"
  by (simp add: sl_nonce_build_eq map2_xor_inject)

text \<open>The nonces of \<open>n\<close> successive calls of \<open>sl_nonce_next\<close>, failed calls left out.\<close>

fun take_nonces :: "bytes \<Rightarrow> u64 ptr \<Rightarrow> nat \<Rightarrow> bytes list" where
  "take_nonces iv seq 0 = []"
| "take_nonces iv seq (Suc n) =
     (case sl_nonce_next iv seq of
        (None, seq') \<Rightarrow> take_nonces iv seq' n
      | (Some w, seq') \<Rightarrow> w # take_nonces iv seq' n)"

lemma unat_u64_succ: "a \<noteq> - 1 \<Longrightarrow> unat (a + 1 :: u64) = unat a + 1"
  using unatSuc [of a] eq_neg_iff_add_eq_0 [of a 1] by (simp add: add.commute [of 1])

lemma take_nonces_eq:
  "take_nonces iv (Some seq) n =
     map (\<lambda>j. sl_nonce_build iv (of_nat j)) [unat seq ..< min UINT64_MAX (unat seq + n)]"
proof (induction n arbitrary: seq)
  case 0
  then show ?case by simp
next
  case (Suc n)
  show ?case
  proof (cases "seq = - 1")
    case True
    with Suc [of seq] show ?thesis by (simp add: sl_nonce_next_def unat_minus_1_u64)
  next
    case False
    then have "unat seq \<noteq> UINT64_MAX"
      using unat_minus_1_u64 by (metis word_unat_eq_iff)
    with unat_u64_le [of seq] have lt: "unat seq < min UINT64_MAX (unat seq + Suc n)" by simp
    show ?thesis
      using False Suc [of "seq + 1"] upt_conv_Cons [OF lt]
      by (simp add: sl_nonce_next_def unat_u64_succ)
  qed
qed

text \<open>
  C5. No nonce is ever repeated under one IV: however often \<open>sl_nonce_next\<close> is called, the nonces
  it hands out are pairwise distinct, and it hands out one per call until the counter reaches
  \<open>UINT64_MAX\<close>, where it refuses instead of wrapping.
\<close>

theorem nonces_never_repeat:
  assumes "length iv = 12"
  shows "distinct (take_nonces iv (Some seq) n)
    \<and> length (take_nonces iv (Some seq) n) = min n (UINT64_MAX - unat seq)"
proof -
  have "inj_on (\<lambda>j. sl_nonce_build iv (of_nat j)) {unat seq ..< min UINT64_MAX (unat seq + n)}"
    using assms by (auto intro!: inj_onI simp: sl_nonce_build_inject)
      (metis less_imp_le unat_of_nat_u64)
  then show ?thesis by (auto simp: take_nonces_eq distinct_map)
qed

theorem nonces_never_repeat_witness:
  "distinct (take_nonces (replicate 12 7) (Some 5) 3) \<and> length (take_nonces (replicate 12 7) (Some 5) 3) = 3"
  using nonces_never_repeat [of "replicate 12 7" 5 3] by (simp add: UINT64_MAX_def)

subsection \<open>What opening accepts\<close>

lemma length_mem_take: "p = Some b \<Longrightarrow> n \<le> length b \<Longrightarrow> length (mem_take p n) = n"
  by (simp add: mem_take_def)

lemma sl_aead_seal_ok:
  assumes "evp_healthy E" "n \<le> length pt"
  shows "sl_aead_seal E (Some k) (Some iv) aad al (Some pt) n OUT OUT =
    Some (if n > 0 then gcm_enc E k iv (take n pt) else [],
          gcm_tag E k iv (mem_take aad al) (if n > 0 then gcm_enc E k iv (take n pt) else []))"
  using assms by (simp add: sl_aead_seal_def evp_healthy_def evp_setup_def mem_take_def Let_def)

lemma sl_aead_seal_SomeD:
  assumes "sl_aead_seal E (Some k) (Some iv) aad al pt n ct tag = Some (c, t)"
  shows "c = (if n > 0 then gcm_enc E k iv (mem_take pt n) else []) \<and> t = gcm_tag E k iv (mem_take aad al) c
    \<and> (n > 0 \<longrightarrow> pt \<noteq> NULL)"
  using assms by (auto simp: sl_aead_seal_def Let_def split: option.splits if_splits)

lemma sl_aead_open_rc:
  assumes "sl_aead_open E key iv aad al ct n tag pt = (rc, pt')"
  shows "rc = 0 \<or> rc = - 1"
  using assms by (auto simp: sl_aead_open_def Let_def split: option.splits if_splits)

lemma sl_aead_open_accepts:
  assumes "sl_aead_open E (Some k) (Some iv) aad al ct n (Some t) pt = (0, pt')"
  defines "c \<equiv> if n > 0 then mem_take ct n else []"
  shows "take 16 t = gcm_tag E k iv (mem_take aad al) c
    \<and> pt' = (if n > 0 then map_option (write_at 0 (gcm_dec E k iv c)) pt else pt)"
  using assms by (auto simp: sl_aead_open_def Let_def split: if_splits)

lemma sl_aead_open_healthy:
  assumes "evp_healthy E" "n > 0 \<Longrightarrow> ct \<noteq> NULL \<and> pt \<noteq> NULL"
  shows "fst (sl_aead_open E (Some k) (Some iv) aad al ct n (Some t) pt) = 0 \<longleftrightarrow>
    take 16 t = gcm_tag E k iv (mem_take aad al) (if n > 0 then mem_take ct n else [])"
  using assms by (auto simp: sl_aead_open_def evp_healthy_def evp_setup_def Let_def)

end
