(* ===== verification/SL_Record.thy ===== *)
theory SL_Record
  imports SL_Aead SL_Interfaces
begin

text \<open>
  The record layer: \<open>src/sl_record.c\<close> seals and opens records, \<open>src/sl_recv_buf.c\<close>
  reassembles them from the fragments a socket delivers.
\<close>

subsection \<open>Records\<close>

type_synonym sl_record_type_t = u32

abbreviation (input) SL_RECORD_HEADER_LEN :: nat where "SL_RECORD_HEADER_LEN \<equiv> 5"
abbreviation (input) SL_AEAD_TAG_LEN :: nat where "SL_AEAD_TAG_LEN \<equiv> 16"
abbreviation (input) SL_RECORD_VERSION :: u16 where "SL_RECORD_VERSION \<equiv> 0x0301"
abbreviation (input) SL_RECORD_MAX_PLAINTEXT :: nat where "SL_RECORD_MAX_PLAINTEXT \<equiv> 16384"
abbreviation (input) SL_RECORD_MAX_CIPHERTEXT :: nat where "SL_RECORD_MAX_CIPHERTEXT \<equiv> 16400"

definition sl_record_peek_len :: "bytes ptr \<Rightarrow> int" where
  "sl_record_peek_len header =
     (case header of
        None \<Rightarrow> - 1
      | Some h \<Rightarrow>
          if unpack_u16 (drop 1 h) \<noteq> SL_RECORD_VERSION then - 1
          else let ct_len = unat (unpack_u16 (drop 3 h)) in
            if ct_len < SL_AEAD_TAG_LEN \<or> ct_len > SL_RECORD_MAX_CIPHERTEXT then - 1
            else int SL_RECORD_HEADER_LEN + int ct_len)"

definition record_header :: "sl_record_type_t \<Rightarrow> nat \<Rightarrow> bytes" where
  "record_header ty pt_len =
     ucast ty # pack_u16 SL_RECORD_VERSION @ pack_u16 (of_nat (pt_len + SL_AEAD_TAG_LEN))"

text \<open>The record \<open>sl_record_seal\<close> writes, whose length it returns, or \<open>None\<close> for \<open>-1\<close>.\<close>

definition sl_record_seal ::
  "evp_gcm \<Rightarrow> sl_record_type_t \<Rightarrow> bytes ptr \<Rightarrow> bytes ptr \<Rightarrow> u64 \<Rightarrow> bytes ptr \<Rightarrow> nat \<Rightarrow>
   out_buf \<Rightarrow> bytes option" where
  "sl_record_seal E ty key static_iv seq pt pt_len out =
     (case (key, static_iv, out) of
        (Some k, Some iv, Some out_cap) \<Rightarrow>
          if pt_len > SL_RECORD_MAX_PLAINTEXT then None
          else if out_cap < SL_RECORD_HEADER_LEN + pt_len + SL_AEAD_TAG_LEN then None
          else
            let header = record_header ty pt_len; nonce = sl_nonce_build iv seq in
            (case sl_aead_seal E key (Some nonce) (Some header) SL_RECORD_HEADER_LEN pt pt_len OUT OUT of
               None \<Rightarrow> None
             | Some (ct, tag) \<Rightarrow> Some (header @ ct @ tag))
      | _ \<Rightarrow> None)"

text \<open>
  \<open>sl_record_open\<close> returns the type and the length on success, and the plaintext buffer as it
  leaves it. The outer \<open>None\<close> is the write through a null \<open>pt_out\<close>: a caller that passes no
  buffer together with a capacity reaches \<open>memset(pt_out, 0, pt_len)\<close>.
\<close>

definition sl_record_open ::
  "evp_gcm \<Rightarrow> bytes ptr \<Rightarrow> bytes ptr \<Rightarrow> bytes ptr \<Rightarrow> u64 \<Rightarrow> out_ref \<Rightarrow> bytes ptr \<Rightarrow> nat \<Rightarrow> out_ref \<Rightarrow>
   ((sl_record_type_t \<times> nat) option \<times> bytes ptr) option" where
  "sl_record_open E wire key static_iv seq type_out pt_out pt_cap pt_len_out =
     (case (wire, key, static_iv, type_out, pt_len_out) of
        (Some w, Some k, Some iv, Some _, Some _) \<Rightarrow>
          if length w < SL_RECORD_HEADER_LEN + SL_AEAD_TAG_LEN then Some (None, pt_out)
          else
            let expected = sl_record_peek_len wire in
            if expected < 0 \<or> nat expected \<noteq> length w then Some (None, pt_out)
            else
              let pt_len = unat (unpack_u16 (drop 3 w)) - SL_AEAD_TAG_LEN in
              if pt_cap < pt_len then Some (None, pt_out)
              else
                let nonce = sl_nonce_build iv seq;
                    ct = drop SL_RECORD_HEADER_LEN w;
                    (rc, pt1) = sl_aead_open E key (Some nonce) wire SL_RECORD_HEADER_LEN
                                  (Some ct) pt_len (Some (drop pt_len ct)) pt_out
                in if rc \<noteq> 0
                   then if pt_len > 0
                        then (case pt1 of
                                None \<Rightarrow> None
                              | Some b \<Rightarrow> Some (None, Some (replicate pt_len 0 @ drop pt_len b)))
                        else Some (None, pt1)
                   else Some (Some (ucast (w ! 0), pt_len), pt1)
      | _ \<Rightarrow> Some (None, pt_out))"

subsection \<open>Reassembly\<close>

record sl_recv_buf_t =
  rb_buf :: bytes
  rb_cap :: nat
  rb_used :: nat

definition sl_recv_buf_init ::
  "(nat \<Rightarrow> bytes ptr) \<Rightarrow> sl_recv_buf_t ptr \<Rightarrow> nat \<Rightarrow> int \<times> sl_recv_buf_t ptr" where
  "sl_recv_buf_init malloc rb cap =
     (case rb of
        None \<Rightarrow> (- 1, NULL)
      | Some r \<Rightarrow>
          if cap = 0 then (- 1, rb)
          else case malloc cap of
            None \<Rightarrow> (- 1, Some (r\<lparr>rb_buf := []\<rparr>))
          | Some mem \<Rightarrow> (0, Some \<lparr>rb_buf = mem, rb_cap = cap, rb_used = 0\<rparr>))"

definition sl_recv_buf_free :: "sl_recv_buf_t ptr \<Rightarrow> sl_recv_buf_t ptr" where
  "sl_recv_buf_free rb =
     (case rb of None \<Rightarrow> NULL | Some r \<Rightarrow> Some \<lparr>rb_buf = [], rb_cap = 0, rb_used = 0\<rparr>)"

definition sl_recv_buf_push :: "sl_recv_buf_t ptr \<Rightarrow> bytes ptr \<Rightarrow> int \<times> sl_recv_buf_t ptr" where
  "sl_recv_buf_push rb data =
     (case (rb, data) of
        (Some r, Some d) \<Rightarrow>
          if rb_used r + length d > rb_cap r then (- 1, rb)
          else (0, Some (r\<lparr>rb_buf := write_at (rb_used r) d (rb_buf r), rb_used := rb_used r + length d\<rparr>))
      | _ \<Rightarrow> (- 1, rb))"

text \<open>The result is the returned count and the bytes copied to \<open>out\<close>.\<close>

definition sl_recv_buf_take :: "sl_recv_buf_t ptr \<Rightarrow> out_buf \<Rightarrow> int \<times> bytes \<times> sl_recv_buf_t ptr" where
  "sl_recv_buf_take rb out =
     (case (rb, out) of
        (Some r, Some out_cap) \<Rightarrow>
          if rb_used r < SL_RECORD_HEADER_LEN then (0, [], rb)
          else
            let expected = sl_record_peek_len (Some (rb_buf r)) in
            if expected < 0 then (- 1, [], rb)
            else if nat expected > out_cap then (- 1, [], rb)
            else if rb_used r < nat expected then (0, [], rb)
            else
              let leftover = rb_used r - nat expected;
                  buf' = (if leftover > 0
                          then write_at 0 (take leftover (drop (nat expected) (rb_buf r))) (rb_buf r)
                          else rb_buf r)
              in (expected, take (nat expected) (rb_buf r), Some (r\<lparr>rb_buf := buf', rb_used := leftover\<rparr>))
      | _ \<Rightarrow> (- 1, [], rb))"

definition sl_recv_buf_buffered :: "sl_recv_buf_t ptr \<Rightarrow> nat" where
  "sl_recv_buf_buffered rb = (case rb of None \<Rightarrow> 0 | Some r \<Rightarrow> rb_used r)"

subsection \<open>The header\<close>

lemma length_record_header [simp]: "length (record_header ty n) = SL_RECORD_HEADER_LEN"
  by (simp add: record_header_def pack_u16_def)

lemma unpack_u16_append: "2 \<le> length p \<Longrightarrow> unpack_u16 (p @ q) = unpack_u16 p"
  by (cases p; cases "tl p") (auto simp: unpack_u16_def)

lemma record_header_fields:
  "unpack_u16 (drop (Suc 0) (record_header ty n @ x)) = SL_RECORD_VERSION"
  "unpack_u16 (drop 3 (record_header ty n @ x)) = of_nat (n + SL_AEAD_TAG_LEN)"
  by (simp_all add: record_header_def del: drop_append)

lemma peek_len_header:
  "n \<le> SL_RECORD_MAX_PLAINTEXT \<Longrightarrow>
   sl_record_peek_len (Some (record_header ty n @ x)) = int (SL_RECORD_HEADER_LEN + n + SL_AEAD_TAG_LEN)"
  by (simp add: sl_record_peek_len_def record_header_fields Let_def del: drop_append of_nat_add)

lemma peek_len_prefix:
  assumes "SL_RECORD_HEADER_LEN \<le> length a"
  shows "sl_record_peek_len (Some (a @ b)) = sl_record_peek_len (Some a)"
  using assms by (simp add: sl_record_peek_len_def unpack_u16_append)

lemma peek_len_bounds:
  "sl_record_peek_len h \<noteq> - 1 \<Longrightarrow> 21 \<le> sl_record_peek_len h \<and> sl_record_peek_len h \<le> 16405"
  by (auto simp: sl_record_peek_len_def Let_def split: option.splits)

subsection \<open>Sealing and opening are inverse, and opening is authenticated\<close>

lemma sl_record_seal_SomeD:
  assumes "sl_record_seal E ty (Some k) (Some iv) seq pt n out = Some w"
  obtains ct where "n \<le> SL_RECORD_MAX_PLAINTEXT"
    "ct = (if n > 0 then gcm_enc E k (sl_nonce_build iv seq) (mem_take pt n) else [])"
    "w = record_header ty n @ ct @ gcm_tag E k (sl_nonce_build iv seq) (record_header ty n) ct"
    "n > 0 \<Longrightarrow> pt \<noteq> NULL"
  using assms
  by (auto simp: sl_record_seal_def Let_def mem_take_def split: option.splits if_splits prod.splits
      dest!: sl_aead_seal_SomeD)

definition record_genuine :: "evp_gcm \<Rightarrow> bytes \<Rightarrow> bytes \<Rightarrow> u64 \<Rightarrow> bytes \<Rightarrow> nat \<Rightarrow> bool" where
  "record_genuine E k iv seq w n \<longleftrightarrow>
     length w = SL_RECORD_HEADER_LEN + n + SL_AEAD_TAG_LEN \<and> sl_record_peek_len (Some w) = int (length w) \<and>
     drop (5 + n) w = gcm_tag E k (sl_nonce_build iv seq) (take 5 w) (take n (drop 5 w))"

lemma peek_len_ct_len:
  assumes "sl_record_peek_len (Some w) = int (length w)"
  shows "unat (unpack_u16 (drop 3 w)) = length w - 5" "16 \<le> unat (unpack_u16 (drop 3 w))"
proof -
  have "\<not> int (length w) < 0" by simp
  then show "unat (unpack_u16 (drop 3 w)) = length w - 5" "16 \<le> unat (unpack_u16 (drop 3 w))"
    using assms by (auto simp: sl_record_peek_len_def Let_def split: if_splits)
qed

lemma sl_record_open_unfold:
  assumes "sl_record_peek_len (Some w) = int (length w)" "n = length w - 21" "n \<le> cap"
  shows "sl_record_open E (Some w) (Some k) (Some iv) seq OUT pt cap OUT =
    (case sl_aead_open E (Some k) (Some (sl_nonce_build iv seq)) (Some w) 5 (Some (drop 5 w)) n
            (Some (drop (5 + n) w)) pt of
       (rc, pt1) \<Rightarrow>
         if rc \<noteq> 0 then if n > 0 then (case pt1 of None \<Rightarrow> None | Some b \<Rightarrow> Some (None, Some (replicate n 0 @ drop n b)))
                        else Some (None, pt1)
         else Some (Some (ucast (w ! 0), n), pt1))"
  using assms(1,3) peek_len_bounds [of "Some w"] peek_len_ct_len [OF assms(1)]
  unfolding assms(2) by (simp add: sl_record_open_def Let_def add.commute)

lemma length_genuine_plain:
  "record_genuine E k iv seq w n \<Longrightarrow> n = length w - 21 \<and> sl_record_peek_len (Some w) = int (length w)
     \<and> length (take n (drop 5 w)) = n"
  by (auto simp: record_genuine_def)

lemma write_at_0: "length src \<le> length dst \<Longrightarrow> write_at 0 src dst = src @ drop (length src) dst"
  by (simp add: write_at_def)

lemma gcm_lawD:
  assumes "gcm_law E"
  shows "length (gcm_enc E k iv x) = length x" "length (gcm_dec E k iv x) = length x"
    "gcm_dec E k iv (gcm_enc E k iv x) = x" "length (gcm_tag E k iv aad x) = 16"
  using assms by (auto simp: gcm_law_def)

text \<open>The plaintext an accepted record yields.\<close>

definition record_plain :: "evp_gcm \<Rightarrow> bytes \<Rightarrow> bytes \<Rightarrow> u64 \<Rightarrow> bytes \<Rightarrow> nat \<Rightarrow> bytes" where
  "record_plain E k iv seq w n =
     (if n > 0 then gcm_dec E k (sl_nonce_build iv seq) (take n (drop 5 w)) else [])"

lemma sl_record_open_ill_formed:
  assumes "\<not> (sl_record_peek_len (Some w) = int (length w) \<and> length w - 21 \<le> cap)"
  shows "sl_record_open E (Some w) (Some k) (Some iv) seq OUT pt cap OUT = Some (None, pt)"
proof (cases "sl_record_peek_len (Some w) = int (length w)")
  case True
  with assms peek_len_ct_len [OF True] peek_len_bounds [of "Some w"] show ?thesis
    by (simp add: sl_record_open_def Let_def)
next
  case False
  then have "sl_record_peek_len (Some w) < 0 \<or> nat (sl_record_peek_len (Some w)) \<noteq> length w" by linarith
  then show ?thesis unfolding sl_record_open_def Let_def by simp
qed

lemma sl_record_open_accepts:
  assumes law: "gcm_law E" and b: "length b = cap"
    and op: "sl_record_open E (Some w) (Some k) (Some iv) seq OUT (Some b) cap OUT = Some (Some (ty, n), b')"
  shows "record_genuine E k iv seq w n \<and> ty = ucast (w ! 0) \<and> n \<le> cap
    \<and> b' = Some (record_plain E k iv seq w n @ drop n b)"
proof -
  have wf: "sl_record_peek_len (Some w) = int (length w)" "length w - 21 \<le> cap"
    using op sl_record_open_ill_formed [of w cap E k iv seq "Some b"] by fastforce+
  obtain rc pt1 where ao: "sl_aead_open E (Some k) (Some (sl_nonce_build iv seq)) (Some w) 5
      (Some (drop 5 w)) (length w - 21) (Some (drop (5 + (length w - 21)) w)) (Some b) = (rc, pt1)"
    by fastforce
  have n: "n = length w - 21" "rc = 0" "ty = ucast (w ! 0)" "b' = pt1"
    using op unfolding sl_record_open_unfold [OF wf(1) refl wf(2)]
    by (auto simp: ao split: if_splits option.splits)
  have "21 \<le> length w" using peek_len_bounds [of "Some w"] wf by auto
  then have len: "length w = 5 + n + 16" using n(1) by simp
  from sl_aead_open_accepts [OF ao [unfolded n(2), folded n(1)]] len n(3,4) wf b show ?thesis
    by (auto simp: record_genuine_def record_plain_def mem_take_def write_at_0 gcm_lawD [OF law])
qed

lemma sl_record_open_genuine:
  assumes law: "gcm_law E" and hl: "evp_healthy E" and b: "length b = cap" "n \<le> cap"
    and g: "record_genuine E k iv seq w n"
  shows "sl_record_open E (Some w) (Some k) (Some iv) seq OUT (Some b) cap OUT =
    Some (Some (ucast (w ! 0), n), Some (record_plain E k iv seq w n @ drop n b))"
proof -
  have n: "n = length w - 21" and wf: "sl_record_peek_len (Some w) = int (length w)"
    using length_genuine_plain [OF g] by auto
  have length_take_drop: "length (take n (drop 5 w)) = n"
    using length_genuine_plain [OF g] by blast
  have tag: "take 16 (drop (5 + n) w) = gcm_tag E k (sl_nonce_build iv seq) (take 5 w) (take n (drop 5 w))"
    using g by (simp add: record_genuine_def gcm_lawD [OF law])
  show ?thesis
    using tag b hl length_take_drop unfolding sl_record_open_unfold [OF wf n b(2)]
    by (auto simp: sl_aead_open_def evp_healthy_def evp_setup_def mem_take_def Let_def write_at_0
        record_plain_def gcm_lawD [OF law])
qed

lemma sl_aead_open_keeps_tail:
  assumes "gcm_law E" "n \<le> length b" "length c = n + 16"
  shows "\<exists>b1. snd (sl_aead_open E (Some k) (Some iv) aad al (Some c) n tag (Some b)) = Some b1
    \<and> drop n b1 = drop n b \<and> (n = 0 \<longrightarrow> b1 = b)"
  using assms
  by (auto simp: sl_aead_open_def Let_def mem_take_def write_at_0 zero_loop_eq gcm_lawD
      split: option.splits)

lemma sl_record_open_forged:
  assumes law: "gcm_law E" and hl: "evp_healthy E"
    and wf: "sl_record_peek_len (Some w) = int (length w)" "n = length w - 21" "n \<le> cap"
    and b: "length b = cap" and forged: "\<not> record_genuine E k iv seq w n"
  shows "sl_record_open E (Some w) (Some k) (Some iv) seq OUT (Some b) cap OUT =
    Some (None, Some (replicate n 0 @ drop n b))"
proof -
  have len: "length w = 5 + n + 16" using wf(1,2) peek_len_bounds [of "Some w"] by simp
  let ?op = "sl_aead_open E (Some k) (Some (sl_nonce_build iv seq)) (Some w) 5 (Some (drop 5 w)) n
      (Some (drop (5 + n) w)) (Some b)"
  have "fst ?op \<noteq> 0"
    using forged len wf(1)
    by (auto simp: sl_aead_open_healthy [OF hl] record_genuine_def mem_take_def)
  moreover have "\<exists>b1. snd ?op = Some b1 \<and> drop n b1 = drop n b \<and> (n = 0 \<longrightarrow> b1 = b)"
    using wf(3) b len by (intro sl_aead_open_keeps_tail law) auto
  ultimately show ?thesis
    unfolding sl_record_open_unfold [OF wf] by (auto split: prod.splits)
qed

lemma sl_record_open_null_out:
  assumes "sl_record_peek_len (Some w) = int (length w)" "n = length w - 21" "0 < n" "n \<le> cap"
  shows "sl_record_open E (Some w) (Some k) (Some iv) seq OUT NULL cap OUT = None"
  unfolding sl_record_open_unfold [OF assms(1,2,4)] using assms(3) by (simp add: sl_aead_open_def)

lemma sealed_genuine:
  assumes "gcm_law E" "sl_record_seal E ty (Some k) (Some iv) seq (Some pt) n out = Some w" "n \<le> length pt"
  shows "record_genuine E k iv seq w n \<and> record_plain E k iv seq w n = take n pt \<and> w ! 0 = ucast ty"
proof -
  from assms(2) obtain ct where n: "n \<le> SL_RECORD_MAX_PLAINTEXT"
    and ct: "ct = (if n > 0 then gcm_enc E k (sl_nonce_build iv seq) (take n pt) else [])"
    and w: "w = record_header ty n @ ct @ gcm_tag E k (sl_nonce_build iv seq) (record_header ty n) ct"
    by (rule sl_record_seal_SomeD) (auto simp: mem_take_def)
  have len: "length ct = n" using ct assms by (simp add: gcm_lawD)
  have w5: "take 5 w = record_header ty n" "take n (drop 5 w) = ct"
    "drop (5 + n) w = gcm_tag E k (sl_nonce_build iv seq) (record_header ty n) ct"
    by (simp_all add: w len)
  have "sl_record_peek_len (Some w) = int (length w)"
    unfolding w peek_len_header [OF n] using len by (simp add: gcm_lawD [OF assms(1)])
  moreover have "w ! 0 = ucast ty" by (simp add: w record_header_def)
  ultimately show ?thesis
    unfolding record_genuine_def record_plain_def w5
    using len ct by (simp add: w gcm_lawD [OF assms(1)])
qed

text \<open>
  C2. A sealed record opens: with the same key, IV and sequence number, \<open>sl_record_open\<close> on the
  bytes \<open>sl_record_seal\<close> produced returns the record type and the plaintext, writes exactly
  the plaintext into the caller's buffer and leaves the rest of the buffer alone.
\<close>

theorem record_seal_open:
  assumes "gcm_law E" "evp_healthy E" "n \<le> length pt" "length b = cap" "n \<le> cap"
    and "sl_record_seal E ty (Some k) (Some iv) seq (Some pt) n out = Some w"
  shows "sl_record_open E (Some w) (Some k) (Some iv) seq OUT (Some b) cap OUT =
    Some (Some (ucast (ucast ty :: u8), n), Some (take n pt @ drop n b))"
  using sealed_genuine [OF assms(1,6,3)] sl_record_open_genuine [OF assms(1,2,4,5)] by metis

definition toy_gcm :: evp_gcm where
  "toy_gcm = \<lparr>evp_ok = (\<lambda>_. True), gcm_enc = (\<lambda>k n x. map (\<lambda>b. b XOR hd n) x),
     gcm_dec = (\<lambda>k n x. map (\<lambda>b. b XOR hd n) x),
     gcm_tag = (\<lambda>k n a x. replicate 16 (foldr (+) (a @ x) (hd k)))\<rparr>"

lemma toy_gcm_law: "gcm_law toy_gcm \<and> evp_healthy toy_gcm"
  by (simp add: gcm_law_def evp_healthy_def toy_gcm_def comp_def xor.assoc)

theorem record_seal_open_witness:
  "\<exists>w. sl_record_seal toy_gcm 23 (Some (replicate 32 1)) (Some (replicate 12 2)) 5 (Some [10, 20, 30]) 3 (Some 64) = Some w
     \<and> sl_record_open toy_gcm (Some w) (Some (replicate 32 1)) (Some (replicate 12 2)) 5 OUT (Some [0, 0, 0, 0]) 4 OUT
         = Some (Some (23, 3), Some [10, 20, 30, 0])"
proof -
  have "sl_record_seal toy_gcm 23 (Some (replicate 32 1)) (Some (replicate 12 2)) 5 (Some [10, 20, 30]) 3 (Some 64) \<noteq> None"
    by (simp add: sl_record_seal_def sl_aead_seal_def Let_def evp_setup_def toy_gcm_def)
  then show ?thesis
    using record_seal_open [of toy_gcm 3 "[10, 20, 30]" "[0, 0, 0, 0]" 4 23 "replicate 32 1" "replicate 12 2" 5 "Some 64"]
      toy_gcm_law by auto
qed

text \<open>
  C3. \<open>sl_record_open\<close> accepts exactly the genuine records and leaks nothing of the others. With
  a well-formed header of the right length and enough room, it succeeds if and only if the trailing
  16 bytes are the tag of the header and ciphertext under the key and the nonce of this sequence
  number, and then yields the decrypted plaintext. Otherwise it fails: a forged record leaves zeros
  where the plaintext would be, and an ill-formed one leaves the caller's buffer untouched.
\<close>

theorem record_open_authenticates:
  assumes "gcm_law E" "evp_healthy E" "length b = cap"
  shows "sl_record_open E (Some w) (Some k) (Some iv) seq OUT (Some b) cap OUT =
    (let n = length w - 21 in
     Some (if sl_record_peek_len (Some w) \<noteq> int (length w) \<or> cap < n then (None, Some b)
           else if record_genuine E k iv seq w n
           then (Some (ucast (w ! 0), n), Some (record_plain E k iv seq w n @ drop n b))
           else (None, Some (replicate n 0 @ drop n b))))"
  using sl_record_open_ill_formed [of w cap E k iv seq "Some b"]
    sl_record_open_genuine [OF assms(1-3)] sl_record_open_forged [OF assms(1,2)] assms(3)
  by (auto simp: Let_def not_less)

theorem record_open_authenticates_witness:
  "sl_record_open toy_gcm (Some (record_header 23 2 @ [1, 2] @ replicate 16 9)) (Some [1]) (Some (replicate 12 2)) 0
     OUT (Some [7, 7, 7]) 3 OUT = Some (None, Some [0, 0, 7])"
proof -
  have "record_genuine toy_gcm [1] (replicate 12 2) 0 (record_header 23 2 @ [1, 2] @ replicate 16 9) 2 = False"
    by (simp add: record_genuine_def toy_gcm_def record_header_def pack_u16_def)
  then show ?thesis
    using record_open_authenticates [of toy_gcm "[7, 7, 7]" 3 "record_header 23 2 @ [1, 2] @ replicate 16 9" "[1]" "replicate 12 2" 0]
      toy_gcm_law peek_len_header [of 2 23 "[1, 2] @ replicate 16 9"]
    by (simp add: numeral_2_eq_2)
qed

subsection \<open>The receive buffer is a byte stream\<close>

definition rb_ok :: "sl_recv_buf_t \<Rightarrow> bool" where
  "rb_ok r \<longleftrightarrow> length (rb_buf r) = rb_cap r \<and> rb_used r \<le> rb_cap r"

definition rb_contents :: "sl_recv_buf_t \<Rightarrow> bytes" where
  "rb_contents r = take (rb_used r) (rb_buf r)"

lemma length_rb_contents: "rb_ok r \<Longrightarrow> length (rb_contents r) = rb_used r"
  by (simp add: rb_ok_def rb_contents_def)

lemma push_contents:
  assumes "rb_ok r" "sl_recv_buf_push (Some r) (Some d) = (rc, Some r')"
  shows "rb_ok r' \<and> rb_cap r' = rb_cap r \<and> rb_contents r' = rb_contents r @ (if rc = 0 then d else [])
    \<and> (rc = 0 \<longleftrightarrow> rb_used r + length d \<le> rb_cap r)"
  using assms
  by (auto simp: sl_recv_buf_push_def rb_ok_def rb_contents_def write_at_def split: if_splits)

lemma peek_contents:
  assumes "rb_ok r" "5 \<le> rb_used r"
  shows "sl_record_peek_len (Some (rb_buf r)) = sl_record_peek_len (Some (rb_contents r))"
  using assms peek_len_prefix [of "rb_contents r" "drop (rb_used r) (rb_buf r)"]
  by (simp add: rb_ok_def rb_contents_def)

lemma take_contents:
  assumes "rb_ok r" "sl_recv_buf_take (Some r) (Some cap) = (rc, w, Some r')"
  shows "rb_ok r' \<and> rb_cap r' = rb_cap r \<and> rb_contents r = w @ rb_contents r'
    \<and> (w = [] \<and> r' = r \<and> rc \<le> 0 \<or> rc = int (length w) \<and> rc = sl_record_peek_len (Some w))"
proof (cases "w = []")
  case True
  with assms show ?thesis
    using peek_len_bounds [of "Some (rb_buf r)"]
    by (auto simp: sl_recv_buf_take_def Let_def rb_ok_def split: if_splits)
next
  case False
  define e where "e = nat (sl_record_peek_len (Some (rb_buf r)))"
  have e: "5 \<le> rb_used r" "e \<le> rb_used r" "w = take e (rb_buf r)" "rc = int e" "21 \<le> e"
    "rb_cap r' = rb_cap r" "rb_used r' = rb_used r - e"
    "rb_buf r' = (if rb_used r - e > 0 then write_at 0 (take (rb_used r - e) (drop e (rb_buf r))) (rb_buf r) else rb_buf r)"
    using assms(2) False peek_len_bounds [of "Some (rb_buf r)"]
    by (auto simp: sl_recv_buf_take_def Let_def e_def split: if_splits)
  have len: "length (rb_buf r) = rb_cap r" "rb_used r \<le> rb_cap r"
    using assms(1) by (auto simp: rb_ok_def)
  have c': "rb_contents r' = drop e (rb_contents r)"
    using e len by (auto simp: rb_contents_def write_at_def drop_take)
  have w: "w = take e (rb_contents r)" using e by (simp add: rb_contents_def min_absorb1)
  have "rc = sl_record_peek_len (Some (rb_buf r))" using e(4,5) unfolding e_def by linarith
  also have "\<dots> = sl_record_peek_len (Some w)"
    using peek_len_prefix [of w "drop e (rb_buf r)"] e len by simp
  finally have "rc = sl_record_peek_len (Some w)" .
  moreover have "rc = int (length w)" using e len by simp
  moreover have "rb_ok r'" using e len by (auto simp: rb_ok_def)
  ultimately show ?thesis using c' w e(6) by simp
qed

datatype rb_op = RbPush bytes | RbTake nat

fun rb_step :: "sl_recv_buf_t \<Rightarrow> rb_op \<Rightarrow> sl_recv_buf_t \<times> bytes \<times> bytes" where
  "rb_step r (RbPush d) =
     (let (rc, rp) = sl_recv_buf_push (Some r) (Some d) in (the rp, if rc = 0 then d else [], []))"
| "rb_step r (RbTake cap) =
     (let (rc, w, rp) = sl_recv_buf_take (Some r) (Some cap) in (the rp, [], w))"

lemma push_Some: "\<exists>rc r'. sl_recv_buf_push (Some r) (Some d) = (rc, Some r')"
  by (simp add: sl_recv_buf_push_def)

lemma take_Some: "\<exists>rc w r'. sl_recv_buf_take (Some r) (Some cap) = (rc, w, Some r')"
  by (simp add: sl_recv_buf_take_def Let_def)

lemma rb_step_spec:
  assumes ok: "rb_ok r" and st: "rb_step r x = (r', i, out)"
  shows "rb_ok r' \<and> rb_cap r' = rb_cap r \<and> rb_contents r @ i = out @ rb_contents r'"
proof (cases x)
  case (RbPush d)
  then obtain rc r1 where push: "sl_recv_buf_push (Some r) (Some d) = (rc, Some r1)"
    using push_Some by blast
  with st RbPush push_contents [OF ok push] show ?thesis by auto
next
  case (RbTake cap)
  then obtain rc w r1 where tk: "sl_recv_buf_take (Some r) (Some cap) = (rc, w, Some r1)"
    using take_Some by blast
  with st RbTake take_contents [OF ok tk] show ?thesis by auto
qed

interpretation rb: byte_stream rb_ok rb_contents rb_cap rb_step
proof (unfold_locales, goal_cases)
  case (4 s)
  then show ?case by (simp add: rb_ok_def length_rb_contents)
qed (blast dest: rb_step_spec)+

subsection \<open>Reassembly of records from fragments\<close>

text \<open>
  The receive loop: push what the socket delivered, then take records until none is complete. The
  buffered count bounds the number of takes, since a record is at least 21 bytes long.
\<close>

fun rb_drain :: "nat \<Rightarrow> nat \<Rightarrow> sl_recv_buf_t \<Rightarrow> bytes list \<times> sl_recv_buf_t" where
  "rb_drain 0 cap r = ([], r)"
| "rb_drain (Suc fuel) cap r =
     (case sl_recv_buf_take (Some r) (Some cap) of
        (rc, w, rp) \<Rightarrow>
          if rc > 0 then (let (ws, r2) = rb_drain fuel cap (the rp) in (w # ws, r2)) else ([], r))"

fun rb_feed :: "nat \<Rightarrow> sl_recv_buf_t \<Rightarrow> bytes list \<Rightarrow> (bytes list \<times> sl_recv_buf_t) option" where
  "rb_feed cap r [] = Some ([], r)"
| "rb_feed cap r (f # fs) =
     (case sl_recv_buf_push (Some r) (Some f) of
        (rc, rp) \<Rightarrow>
          if rc \<noteq> 0 then None
          else let (ws, r2) = rb_drain (rb_used (the rp)) cap (the rp) in
            (case rb_feed cap r2 fs of
               None \<Rightarrow> None
             | Some (vs, r3) \<Rightarrow> Some (ws @ vs, r3)))"

definition record_shaped :: "nat \<Rightarrow> bytes \<Rightarrow> bool" where
  "record_shaped cap w \<longleftrightarrow> sl_record_peek_len (Some w) = int (length w) \<and> length w \<le> cap"

lemma record_shaped_length: "record_shaped cap w \<Longrightarrow> 21 \<le> length w \<and> length w \<le> 16405"
  using peek_len_bounds [of "Some w"] by (auto simp: record_shaped_def)

lemma record_shaped_Nil [simp]: "\<not> record_shaped cap []"
  using record_shaped_length [of cap "[]"] by auto

lemma take_whole_record:
  assumes ok: "rb_ok r" and w: "record_shaped cap w" and c: "rb_contents r @ rest = w @ ws1"
  shows "if rb_used r < length w then fst (sl_recv_buf_take (Some r) (Some cap)) = 0
    else (\<exists>r'. sl_recv_buf_take (Some r) (Some cap) = (int (length w), w, Some r'))"
proof (cases "rb_used r < 5")
  case True
  with record_shaped_length [OF w] show ?thesis by (simp add: sl_recv_buf_take_def)
next
  case False
  have lw: "5 \<le> length w" using record_shaped_length [OF w] by simp
  have "sl_record_peek_len (Some (rb_buf r)) = sl_record_peek_len (Some (rb_contents r @ rest))"
    using False ok peek_contents [OF ok] by (simp add: peek_len_prefix length_rb_contents)
  also have "\<dots> = int (length w)"
    unfolding c using w lw by (simp add: peek_len_prefix record_shaped_def)
  finally have peek: "sl_record_peek_len (Some (rb_buf r)) = int (length w)" .
  have "take (length w) (rb_buf r) = w" if "length w \<le> rb_used r"
  proof -
    have "take (length w) (rb_buf r) = take (length w) (rb_contents r)"
      using that by (simp add: rb_contents_def min_absorb1)
    also have "\<dots> = take (length w) (rb_contents r @ rest)"
      using that by (simp add: length_rb_contents [OF ok])
    finally show ?thesis by (simp add: c)
  qed
  with False peek w show ?thesis
    by (auto simp: sl_recv_buf_take_def Let_def record_shaped_def)
qed

definition short_of_record :: "sl_recv_buf_t \<Rightarrow> bytes list \<Rightarrow> bool" where
  "short_of_record r ws \<longleftrightarrow> (case ws of [] \<Rightarrow> rb_contents r = [] | w # _ \<Rightarrow> rb_used r < length w)"

lemma short_of_record_used:
  assumes "short_of_record r ws" "rb_ok r" "list_all (record_shaped cap) ws"
  shows "rb_used r < 16405"
  using assms length_rb_contents [OF assms(2)] record_shaped_length
  by (fastforce simp: short_of_record_def split: list.splits)

lemma short_of_record_end:
  assumes "short_of_record r ws" "rb_ok r" "rb_contents r = concat ws"
  shows "ws = []"
  using assms length_rb_contents [OF assms(2)] by (auto simp: short_of_record_def split: list.splits)

lemma rb_drain_records:
  assumes "rb_ok r" "list_all (record_shaped cap) ws" "rb_contents r @ rest = concat ws" "rb_used r \<le> fuel"
  shows "\<exists>us vs r'. ws = us @ vs \<and> rb_drain fuel cap r = (us, r') \<and> rb_ok r' \<and> rb_cap r' = rb_cap r
    \<and> rb_contents r' @ rest = concat vs \<and> short_of_record r' vs"
  using assms
proof (induction fuel arbitrary: r ws)
  case 0
  then have "short_of_record r ws"
    using length_rb_contents [OF 0(1)]
    by (auto simp: short_of_record_def split: list.splits dest: record_shaped_length)
  with 0 show ?case by auto
next
  case (Suc fuel)
  show ?case
  proof (cases ws)
    case Nil
    with Suc.prems have "rb_used r = 0" using length_rb_contents [OF Suc.prems(1)] by simp
    with Nil Suc.prems show ?thesis by (auto simp: sl_recv_buf_take_def short_of_record_def)
  next
    case (Cons w ws1)
    have w: "record_shaped cap w" and c: "rb_contents r @ rest = w @ concat ws1"
      using Suc.prems Cons by auto
    show ?thesis
    proof (cases "rb_used r < length w")
      case True
      with take_whole_record [OF Suc.prems(1) w c] record_shaped_length [OF w] Suc.prems Cons show ?thesis
        by (auto simp: short_of_record_def split: prod.splits)
    next
      case False
      then obtain r' where tk: "sl_recv_buf_take (Some r) (Some cap) = (int (length w), w, Some r')"
        using take_whole_record [OF Suc.prems(1) w c] by auto
      have s: "rb_ok r'" "rb_cap r' = rb_cap r" "rb_contents r = w @ rb_contents r'"
        using take_contents [OF Suc.prems(1) tk] by auto
      have "rb_used r = length w + rb_used r'"
        using arg_cong [OF s(3), of length] by (simp add: length_rb_contents s(1) Suc.prems(1))
      then have fuel: "rb_used r' \<le> fuel" using Suc.prems(4) record_shaped_length [OF w] by simp
      have "\<exists>us vs r2. ws1 = us @ vs \<and> rb_drain fuel cap r' = (us, r2) \<and> rb_ok r2 \<and> rb_cap r2 = rb_cap r'
        \<and> rb_contents r2 @ rest = concat vs \<and> short_of_record r2 vs"
        using Suc.prems(2) Cons c s(1,3) fuel by (intro Suc.IH) auto
      then show ?thesis
        using tk s(2) Cons record_shaped_length [OF w] by (fastforce intro: exI [of _ "w # us" for us])
    qed
  qed
qed

lemma rb_feed_records:
  assumes "rb_ok r" "list_all (record_shaped cap) ws" "rb_contents r @ concat fs = concat ws"
    "short_of_record r ws" "list_all (\<lambda>f. length f + 16404 \<le> rb_cap r) fs"
  shows "\<exists>r'. rb_feed cap r fs = Some (ws, r') \<and> rb_ok r' \<and> rb_contents r' = []"
  using assms
proof (induction fs arbitrary: r ws)
  case Nil
  then have "ws = []" using short_of_record_end by simp
  with Nil show ?case by simp
next
  case (Cons f fs)
  obtain rc r1 where push: "sl_recv_buf_push (Some r) (Some f) = (rc, Some r1)"
    using push_Some by blast
  have r1: "rb_ok r1" "rb_cap r1 = rb_cap r" "rb_contents r1 = rb_contents r @ f" "rc = 0"
    using push_contents [OF Cons.prems(1) push] short_of_record_used [OF Cons.prems(4,1,2)] Cons.prems(5)
    by auto
  have "\<exists>us vs r'. ws = us @ vs \<and> rb_drain (rb_used r1) cap r1 = (us, r') \<and> rb_ok r'
      \<and> rb_cap r' = rb_cap r1 \<and> rb_contents r' @ concat fs = concat vs \<and> short_of_record r' vs"
    using Cons.prems(2,3) r1 by (intro rb_drain_records) auto
  then obtain us vs r2 where r2: "ws = us @ vs" "rb_drain (rb_used r1) cap r1 = (us, r2)" "rb_ok r2"
      "rb_cap r2 = rb_cap r" "rb_contents r2 @ concat fs = concat vs" "short_of_record r2 vs"
    using r1(2) by auto
  have "\<exists>r'. rb_feed cap r2 fs = Some (vs, r') \<and> rb_ok r' \<and> rb_contents r' = []"
    using Cons.prems(2,5) r2 by (intro Cons.IH) auto
  with push r1(4) r2(1,2) show ?case by auto
qed



end
