(* ===== verification/SL_Stream.thy ===== *)
theory SL_Stream
  imports SL_Interfaces
begin

text \<open>
  Stream multiplexing: frames (\<open>src/sl_stream_frame.c\<close>), stream identifiers
  (\<open>src/sl_stream_id.c\<close>), flow control (\<open>src/sl_flow_control.c\<close>) and priorities
  (\<open>src/sl_priority.c\<close>). A C enumeration is the \<open>int\<close> of its value, since any value may be
  cast to it.
\<close>

subsection \<open>Frames\<close>

type_synonym sl_stream_frame_type_t = int

abbreviation (input) SL_STREAM_FRAME_HEADER_LEN :: nat where "SL_STREAM_FRAME_HEADER_LEN \<equiv> 10"
abbreviation (input) SL_STREAM_FRAME_MAX_PAYLOAD :: nat where "SL_STREAM_FRAME_MAX_PAYLOAD \<equiv> 16000"
abbreviation (input) SL_STREAM_FRAME_PONG :: nat where "SL_STREAM_FRAME_PONG \<equiv> 5"

record sl_stream_frame_t =
  sf_type :: sl_stream_frame_type_t
  sf_flags :: u8
  sf_stream_id :: u32
  sf_payload :: "bytes ptr"
  sf_payload_len :: u16

definition sl_stream_frame_pack :: "sl_stream_frame_t ptr \<Rightarrow> out_buf \<Rightarrow> bytes option" where
  "sl_stream_frame_pack f out =
     (case (f, out) of
        (Some fr, Some out_cap) \<Rightarrow>
          let plen = unat (sf_payload_len fr) in
          if plen > SL_STREAM_FRAME_MAX_PAYLOAD then None
          else if plen > 0 \<and> sf_payload fr = NULL then None
          else if out_cap < SL_STREAM_FRAME_HEADER_LEN + plen then None
          else Some ([word_of_int (sf_type fr), sf_flags fr] @ pack_u16 0 @ pack_u32 (sf_stream_id fr)
                     @ pack_u16 (sf_payload_len fr)
                     @ (case sf_payload fr of None \<Rightarrow> [] | Some p \<Rightarrow> take plen p))
      | _ \<Rightarrow> None)"

definition sl_stream_frame_unpack :: "bytes ptr \<Rightarrow> out_ref \<Rightarrow> (sl_stream_frame_t \<times> nat) option" where
  "sl_stream_frame_unpack inp out =
     (case (inp, out) of
        (Some p, Some _) \<Rightarrow>
          if length p < SL_STREAM_FRAME_HEADER_LEN then None
          else if unpack_u16 (drop 2 p) \<noteq> 0 then None
          else
            let ty = p ! 0; flags = p ! 1; sid = unpack_u32 (drop 4 p);
                plen16 = unpack_u16 (drop 8 p); plen = unat plen16 in
            if plen > SL_STREAM_FRAME_MAX_PAYLOAD then None
            else if length p < SL_STREAM_FRAME_HEADER_LEN + plen then None
            else if ty = 0 \<or> unat ty > SL_STREAM_FRAME_PONG then None
            else Some (\<lparr>sf_type = uint ty, sf_flags = flags, sf_stream_id = sid,
                        sf_payload = (if plen > 0 then Some (take plen (drop SL_STREAM_FRAME_HEADER_LEN p)) else NULL),
                        sf_payload_len = plen16\<rparr>, SL_STREAM_FRAME_HEADER_LEN + plen)
      | _ \<Rightarrow> None)"

definition sl_stream_frame_type_name :: "sl_stream_frame_type_t \<Rightarrow> string" where
  "sl_stream_frame_type_name t =
     (if t = 0 then ''invalid'' else if t = 1 then ''data'' else if t = 2 then ''window''
      else if t = 3 then ''reset'' else if t = 4 then ''ping'' else if t = 5 then ''pong'' else ''?'')"

subsection \<open>Stream identifiers\<close>

type_synonym sl_stream_role_t = int

abbreviation (input) SL_STREAM_ROLE_CLIENT :: sl_stream_role_t where "SL_STREAM_ROLE_CLIENT \<equiv> 0"
abbreviation (input) SL_STREAM_ROLE_SERVER :: sl_stream_role_t where "SL_STREAM_ROLE_SERVER \<equiv> 1"
abbreviation (input) SL_STREAM_ID_MAX :: u32 where "SL_STREAM_ID_MAX \<equiv> 0x7FFFFFFF"

record sl_stream_id_alloc_t =
  sid_role :: sl_stream_role_t
  sid_next_id :: u32

definition sl_stream_id_init :: "sl_stream_id_alloc_t ptr \<Rightarrow> sl_stream_role_t \<Rightarrow> sl_stream_id_alloc_t ptr" where
  "sl_stream_id_init a role =
     (case a of
        None \<Rightarrow> NULL
      | Some _ \<Rightarrow> Some \<lparr>sid_role = role, sid_next_id = (if role = SL_STREAM_ROLE_CLIENT then 1 else 2)\<rparr>)"

definition sl_stream_id_next :: "sl_stream_id_alloc_t ptr \<Rightarrow> u32 \<times> sl_stream_id_alloc_t ptr" where
  "sl_stream_id_next a =
     (case a of
        None \<Rightarrow> (0, NULL)
      | Some s \<Rightarrow>
          if sid_next_id s > SL_STREAM_ID_MAX then (0, a)
          else (sid_next_id s, Some (s\<lparr>sid_next_id := sid_next_id s + 2\<rparr>)))"

definition sl_stream_id_is_control :: "u32 \<Rightarrow> bool" where
  "sl_stream_id_is_control i = (i = 0)"

definition sl_stream_id_is_client_initiated :: "u32 \<Rightarrow> bool" where
  "sl_stream_id_is_client_initiated i = (i \<noteq> 0 \<and> i AND 1 = 1)"

definition sl_stream_id_is_server_initiated :: "u32 \<Rightarrow> bool" where
  "sl_stream_id_is_server_initiated i = (i \<noteq> 0 \<and> i AND 1 = 0)"

definition sl_stream_id_belongs_to_peer :: "u32 \<Rightarrow> sl_stream_role_t \<Rightarrow> bool" where
  "sl_stream_id_belongs_to_peer i my_role =
     (if sl_stream_id_is_control i then False
      else if my_role = SL_STREAM_ROLE_CLIENT then sl_stream_id_is_server_initiated i
      else sl_stream_id_is_client_initiated i)"

subsection \<open>Flow control\<close>

abbreviation (input) SL_FC_INITIAL_WINDOW :: u32 where "SL_FC_INITIAL_WINDOW \<equiv> 65536"
abbreviation (input) SL_FC_MAX_WINDOW :: int where "SL_FC_MAX_WINDOW \<equiv> 1073741824"

text \<open>Both fields are \<open>int64_t\<close>; the conversion to \<open>uint64_t\<close> is written out.\<close>

record sl_flow_ctrl_t =
  fc_send_credit :: int
  fc_recv_window :: int

definition sl_flow_init_with :: "sl_flow_ctrl_t ptr \<Rightarrow> u32 \<Rightarrow> sl_flow_ctrl_t ptr" where
  "sl_flow_init_with fc initial =
     (case fc of None \<Rightarrow> NULL | Some _ \<Rightarrow> Some \<lparr>fc_send_credit = uint initial, fc_recv_window = uint initial\<rparr>)"

definition sl_flow_init :: "sl_flow_ctrl_t ptr \<Rightarrow> sl_flow_ctrl_t ptr" where
  "sl_flow_init fc = sl_flow_init_with fc SL_FC_INITIAL_WINDOW"

definition sl_flow_charge_send :: "sl_flow_ctrl_t ptr \<Rightarrow> u32 \<Rightarrow> int \<times> sl_flow_ctrl_t ptr" where
  "sl_flow_charge_send fc n =
     (case fc of
        None \<Rightarrow> (- 1, NULL)
      | Some f \<Rightarrow> if fc_send_credit f < uint n then (- 1, fc)
                 else (0, Some (f\<lparr>fc_send_credit := fc_send_credit f - uint n\<rparr>)))"

definition sl_flow_charge_recv :: "sl_flow_ctrl_t ptr \<Rightarrow> u32 \<Rightarrow> int \<times> sl_flow_ctrl_t ptr" where
  "sl_flow_charge_recv fc n =
     (case fc of
        None \<Rightarrow> (- 1, NULL)
      | Some f \<Rightarrow> if fc_recv_window f < uint n then (- 1, fc)
                 else (0, Some (f\<lparr>fc_recv_window := fc_recv_window f - uint n\<rparr>)))"

definition sl_flow_grant_recv :: "sl_flow_ctrl_t ptr \<Rightarrow> u32 \<Rightarrow> int \<times> sl_flow_ctrl_t ptr" where
  "sl_flow_grant_recv fc n =
     (case fc of
        None \<Rightarrow> (- 1, NULL)
      | Some f \<Rightarrow> if (fc_recv_window f mod 2 ^ 64 + uint n) mod 2 ^ 64 > SL_FC_MAX_WINDOW then (- 1, fc)
                 else (0, Some (f\<lparr>fc_recv_window := fc_recv_window f + uint n\<rparr>)))"

definition sl_flow_grant_send :: "sl_flow_ctrl_t ptr \<Rightarrow> u32 \<Rightarrow> int \<times> sl_flow_ctrl_t ptr" where
  "sl_flow_grant_send fc n =
     (case fc of
        None \<Rightarrow> (- 1, NULL)
      | Some f \<Rightarrow> if (fc_send_credit f mod 2 ^ 64 + uint n) mod 2 ^ 64 > SL_FC_MAX_WINDOW then (- 1, fc)
                 else (0, Some (f\<lparr>fc_send_credit := fc_send_credit f + uint n\<rparr>)))"

definition sl_flow_can_send :: "sl_flow_ctrl_t ptr \<Rightarrow> u32 \<Rightarrow> bool" where
  "sl_flow_can_send fc n = (case fc of None \<Rightarrow> False | Some f \<Rightarrow> fc_send_credit f \<ge> uint n)"

subsection \<open>Priorities\<close>

type_synonym sl_priority_t = int

abbreviation (input) SL_PRIO_URGENT :: sl_priority_t where "SL_PRIO_URGENT \<equiv> 0"
abbreviation (input) SL_PRIO_NORMAL :: sl_priority_t where "SL_PRIO_NORMAL \<equiv> 2"
abbreviation (input) SL_PRIORITY_COUNT :: int where "SL_PRIORITY_COUNT \<equiv> 5"

definition sl_priority_name :: "sl_priority_t \<Rightarrow> string" where
  "sl_priority_name p =
     (if p = 0 then ''urgent'' else if p = 1 then ''high'' else if p = 2 then ''normal''
      else if p = 3 then ''low'' else if p = 4 then ''background'' else ''?'')"

definition sl_priority_default_for :: "u32 \<Rightarrow> sl_priority_t" where
  "sl_priority_default_for stream_id = (if stream_id = 0 then SL_PRIO_URGENT else SL_PRIO_NORMAL)"

definition sl_priority_to_byte :: "sl_priority_t \<Rightarrow> u8" where
  "sl_priority_to_byte p = (if p < 0 \<or> p \<ge> SL_PRIORITY_COUNT then word_of_int SL_PRIO_NORMAL else word_of_int p)"

definition sl_priority_from_byte :: "u8 \<Rightarrow> sl_priority_t" where
  "sl_priority_from_byte b = (if uint b \<ge> SL_PRIORITY_COUNT then SL_PRIO_NORMAL else uint b)"

subsection \<open>Frames are a codec\<close>

text \<open>
  \<open>frame_enc\<close> packs the frames of a defined type, for which the decoder is written;
  \<open>frame_view\<close> is the frame with its payload pointer normalised to the payload.
\<close>

definition frame_enc :: "sl_stream_frame_t \<Rightarrow> bytes option" where
  "frame_enc f =
     (if 1 \<le> sf_type f \<and> sf_type f \<le> 5 \<and> (\<forall>p. sf_payload f = Some p \<longrightarrow> unat (sf_payload_len f) \<le> length p)
      then sl_stream_frame_pack (Some f) (Some 16010) else None)"

definition frame_view :: "sl_stream_frame_t \<Rightarrow> sl_stream_frame_t" where
  "frame_view f =
     (let n = unat (sf_payload_len f)
      in f\<lparr>sf_payload := (if n > 0 then map_option (take n) (sf_payload f) else NULL)\<rparr>)"

lemma frame_enc_SomeD:
  assumes "frame_enc f = Some w"
  obtains body where
    "w = [word_of_int (sf_type f), sf_flags f] @ pack_u16 0 @ pack_u32 (sf_stream_id f) @ pack_u16 (sf_payload_len f) @ body"
    "length body = unat (sf_payload_len f)" "length body \<le> 16000" "1 \<le> sf_type f" "sf_type f \<le> 5"
    "sf_payload (frame_view f) = (if body = [] then NULL else Some body)"
proof -
  let ?n = "unat (sf_payload_len f)"
  let ?body = "case sf_payload f of None \<Rightarrow> [] | Some p \<Rightarrow> take ?n p"
  have a: "1 \<le> sf_type f" "sf_type f \<le> 5" "\<And>p. sf_payload f = Some p \<Longrightarrow> ?n \<le> length p"
    and b: "?n \<le> 16000" "\<not> (?n > 0 \<and> sf_payload f = NULL)"
    and w: "w = [word_of_int (sf_type f), sf_flags f] @ pack_u16 0 @ pack_u32 (sf_stream_id f)
      @ pack_u16 (sf_payload_len f) @ ?body"
    using assms by (auto simp: frame_enc_def sl_stream_frame_pack_def Let_def split: if_splits)
  have len: "length ?body = ?n" using a(3) b(2) by (auto split: option.splits)
  have "sf_payload (frame_view f) = (if ?body = [] then NULL else Some ?body)"
    using len a(3) b(2) by (auto simp: frame_view_def Let_def split: option.splits)
  with that [OF w len] len b(1) a(1,2) show ?thesis by simp
qed

lemma word8_frame_type:
  assumes "1 \<le> t" "t \<le> (5 :: int)"
  shows "uint (word_of_int t :: u8) = t" "(word_of_int t :: u8) \<noteq> 0" "unat (word_of_int t :: u8) \<le> 5"
proof -
  show 1: "uint (word_of_int t :: u8) = t" using assms by (simp add: uint_word_of_int)
  show "(word_of_int t :: u8) \<noteq> 0" using 1 assms by auto
  show "unat (word_of_int t :: u8) \<le> 5" using 1 assms by (simp add: unat_eq_nat_uint)
qed

lemma frame_dec_enc:
  assumes "frame_enc f = Some w"
  shows "sl_stream_frame_unpack (Some (w @ rest)) OUT = Some (frame_view f, length w)"
proof -
  from assms obtain body where w: "w = [word_of_int (sf_type f), sf_flags f] @ pack_u16 0
      @ pack_u32 (sf_stream_id f) @ pack_u16 (sf_payload_len f) @ body"
    and body: "length body = unat (sf_payload_len f)" "length body \<le> 16000"
    and ty: "1 \<le> sf_type f" "sf_type f \<le> 5"
    and view: "sf_payload (frame_view f) = (if body = [] then NULL else Some body)"
    by (rule frame_enc_SomeD)
  have fields: "unpack_u16 (drop 2 (w @ rest)) = 0" "(w @ rest) ! 0 = word_of_int (sf_type f)"
    "(w @ rest) ! 1 = sf_flags f" "unpack_u32 (drop 4 (w @ rest)) = sf_stream_id f"
    "unpack_u16 (drop 8 (w @ rest)) = sf_payload_len f" "drop 10 (w @ rest) = body @ rest"
    "length w = 10 + length body"
    by (simp_all add: w del: drop_append)
  have "frame_view f = \<lparr>sf_type = sf_type f, sf_flags = sf_flags f, sf_stream_id = sf_stream_id f,
      sf_payload = (if length body > 0 then Some body else NULL), sf_payload_len = sf_payload_len f\<rparr>"
    using view by (simp add: frame_view_def Let_def)
  then show ?thesis
    using body word8_frame_type [OF ty] fields
    by (simp add: sl_stream_frame_unpack_def Let_def del: drop_append nth_append)
qed

interpretation frame: wire_codec frame_enc "\<lambda>w. sl_stream_frame_unpack (Some w) OUT" frame_view
proof (unfold_locales, goal_cases)
  case (1 m w rest)
  then show ?case by (rule frame_dec_enc)
next
  case (2 m w)
  then show ?case by (auto elim: frame_enc_SomeD)
qed

text \<open>
  C9. Multiplexing is lossless: any sequence of frames of defined types, packed one after another
  into one byte stream, is unpacked into exactly those frames, in order, with nothing left over.
\<close>

theorem stream_frames_roundtrip:
  assumes "list_all2 (\<lambda>f w. frame_enc f = Some w) fs ws"
  shows "decode_all (length fs) (\<lambda>w. sl_stream_frame_unpack (Some w) OUT) (concat ws) = Some (map frame_view fs)"
  using assms by (intro frame.decode_all_enc) simp_all

theorem stream_frames_roundtrip_witness:
  "let f = \<lparr>sf_type = 1, sf_flags = 1, sf_stream_id = 3, sf_payload = Some [9, 8], sf_payload_len = 2\<rparr>;
       g = \<lparr>sf_type = 4, sf_flags = 0, sf_stream_id = 0, sf_payload = NULL, sf_payload_len = 0\<rparr>
   in decode_all 2 (\<lambda>w. sl_stream_frame_unpack (Some w) OUT)
        ([1, 1, 0, 0, 0, 0, 0, 3, 0, 2, 9, 8] @ [4, 0, 0, 0, 0, 0, 0, 0, 0, 0]) = Some [f, g]"
proof -
  let ?f = "\<lparr>sf_type = 1, sf_flags = 1, sf_stream_id = 3, sf_payload = Some [9, 8], sf_payload_len = 2\<rparr>"
  let ?g = "\<lparr>sf_type = 4, sf_flags = 0, sf_stream_id = 0, sf_payload = NULL, sf_payload_len = 0\<rparr>"
  have "frame_enc ?f = Some [1, 1, 0, 0, 0, 0, 0, 3, 0, 2, 9, 8]"
    and "frame_enc ?g = Some [4, 0, 0, 0, 0, 0, 0, 0, 0, 0]"
    by (simp_all add: frame_enc_def sl_stream_frame_pack_def pack_u16_def pack_u32_def)
  then show ?thesis
    using stream_frames_roundtrip [of "[?f, ?g]" "[[1, 1, 0, 0, 0, 0, 0, 3, 0, 2, 9, 8], [4, 0, 0, 0, 0, 0, 0, 0, 0, 0]]"]
    by (simp add: frame_view_def Let_def numeral_2_eq_2 [symmetric] del: decode_all.simps)
qed

text \<open>The frames \<open>sl_stream_frame_pack\<close> emits without complaint although no receiver accepts them.\<close>

lemma pack_undefined_type:
  "\<exists>w. sl_stream_frame_pack (Some \<lparr>sf_type = 6, sf_flags = 0, sf_stream_id = 1, sf_payload = NULL, sf_payload_len = 0\<rparr>) (Some 64) = Some w
     \<and> sl_stream_frame_unpack (Some w) OUT = None"
  by (simp add: sl_stream_frame_pack_def sl_stream_frame_unpack_def pack_u16_def pack_u32_def unpack_u16_def)

subsection \<open>Identifiers are distinct and keep their side's parity\<close>

definition sid_nxt :: "sl_stream_id_alloc_t \<Rightarrow> u32 \<times> sl_stream_id_alloc_t" where
  "sid_nxt a = (let (i, ap) = sl_stream_id_next (Some a) in (i, the ap))"

definition sid_own :: "sl_stream_role_t \<Rightarrow> u32 \<Rightarrow> bool" where
  "sid_own role i \<longleftrightarrow> i \<le> SL_STREAM_ID_MAX \<and>
     (if role = SL_STREAM_ROLE_CLIENT then sl_stream_id_is_client_initiated i
      else sl_stream_id_is_server_initiated i)"

definition sid_ok :: "sl_stream_role_t \<Rightarrow> sl_stream_id_alloc_t \<Rightarrow> bool" where
  "sid_ok role a \<longleftrightarrow> sid_role a = role \<and> sid_next_id a \<noteq> 0 \<and> unat (sid_next_id a) \<le> 0x80000001 \<and>
     unat (sid_next_id a) mod 2 = (if role = SL_STREAM_ROLE_CLIENT then 1 else 0)"

lemma and_1_unat: "(i :: u32) AND 1 = (if unat i mod 2 = 1 then 1 else 0)"
proof -
  have "i AND 1 = i mod 2" by (simp add: and_one_eq)
  then have "unat (i AND 1) = unat i mod 2" by (simp add: unat_mod)
  then show ?thesis by (auto simp: word_unat_eq_iff)
qed

lemma sid_nxt_eq:
  "sid_nxt a = (if unat (sid_next_id a) > 0x7FFFFFFF then (0, a)
                else (sid_next_id a, a\<lparr>sid_next_id := sid_next_id a + 2\<rparr>))"
  by (simp add: sid_nxt_def sl_stream_id_next_def word_less_nat_alt)

lemma unat_add_2: "unat (v :: u32) \<le> 0x7FFFFFFF \<Longrightarrow> unat (v + 2) = unat v + 2"
  by (simp add: unat_word_ariths)

interpretation sid: id_supply sid_nxt "\<lambda>a. unat (sid_next_id a)" "sid_ok role" "sid_own role" for role
proof (unfold_locales, goal_cases)
  case (1 s i s')
  show ?case
  proof (cases "unat (sid_next_id s) > 0x7FFFFFFF")
    case False
    then have s': "s' = s\<lparr>sid_next_id := sid_next_id s + 2\<rparr>" and u: "unat (sid_next_id s + 2) = unat (sid_next_id s) + 2"
      using 1(2) unat_add_2 [of "sid_next_id s"] by (auto simp: sid_nxt_eq)
    have "sid_next_id s + 2 \<noteq> 0" using u by (metis add_is_0 unat_0 zero_neq_numeral)
    then show ?thesis using 1(1) False by (simp add: s' u sid_ok_def)
  qed (use 1 in \<open>simp add: sid_nxt_eq\<close>)
next
  case (2 s i s')
  then have "i = sid_next_id s" "unat i \<le> 0x7FFFFFFF" by (auto simp: sid_nxt_eq split: if_splits)
  with 2(1) show ?case
    by (simp add: sid_ok_def sid_own_def sl_stream_id_is_client_initiated_def
        sl_stream_id_is_server_initiated_def and_1_unat word_le_nat_alt split: if_splits)
next
  case (3 s i s')
  then show ?case by (auto simp: sid_nxt_eq unat_add_2 split: if_splits)
next
  case (4 s s')
  then show ?case by (auto simp: sid_nxt_eq sid_ok_def split: if_splits)
qed

text \<open>
  C10. Stream identifiers never clash. However many identifiers an initialised allocator hands out,
  they are distinct, non-zero (never the control stream), at most \<open>SL_STREAM_ID_MAX\<close> and of the
  allocator's parity: the other side recognises each as its peer's and its own side does not, so
  no identifier of a client is ever one of a server.
\<close>

theorem stream_ids_never_clash:
  assumes "role = SL_STREAM_ROLE_CLIENT \<or> role = SL_STREAM_ROLE_SERVER"
    and "sl_stream_id_init (Some a0) role = Some a" "take_ids sid_nxt a n = (ids, a')"
  shows "distinct ids \<and> list_all (\<lambda>i. i \<noteq> 0 \<and> i \<le> SL_STREAM_ID_MAX
    \<and> sl_stream_id_belongs_to_peer i (1 - role) \<and> \<not> sl_stream_id_belongs_to_peer i role) ids"
proof -
  have ok: "sid_ok role a"
    using assms(1,2) by (auto simp: sl_stream_id_init_def sid_ok_def)
  have "list_all (sid_own role) ids" using sid.take_ids_good [OF ok assms(3)] .
  moreover have "distinct ids \<and> 0 \<notin> set ids" using sid.take_ids_distinct [OF ok assms(3)] .
  ultimately show ?thesis
    using assms(1)
    by (auto simp: list_all_iff sid_own_def sl_stream_id_belongs_to_peer_def sl_stream_id_is_control_def
        sl_stream_id_is_client_initiated_def sl_stream_id_is_server_initiated_def)
qed

theorem stream_ids_never_clash_witness:
  "take_ids sid_nxt \<lparr>sid_role = 1, sid_next_id = 2\<rparr> 3 = ([2, 4, 6], \<lparr>sid_role = 1, sid_next_id = 8\<rparr>)
   \<and> sl_stream_id_belongs_to_peer 4 0 \<and> \<not> sl_stream_id_belongs_to_peer 4 1"
proof -
  have run: "take_ids sid_nxt \<lparr>sid_role = 1, sid_next_id = 2\<rparr> 3 = ([2, 4, 6], \<lparr>sid_role = 1, sid_next_id = 8\<rparr>)"
    by (simp add: numeral_3_eq_3 sid_nxt_def sl_stream_id_next_def)
  from stream_ids_never_clash [OF _ _ run, of 1 "\<lparr>sid_role = 1, sid_next_id = 2\<rparr>"] run show ?thesis
    by (simp add: sl_stream_id_init_def)
qed

subsection \<open>Flow control between two endpoints\<close>

text \<open>
  One direction of a stream: what sender and receiver keep of it, the sizes of the data frames and
  of the window updates on their way.
\<close>

record fc_link =
  fc_sender :: sl_flow_ctrl_t
  fc_receiver :: sl_flow_ctrl_t
  fc_data :: "u32 list"
  fc_grants :: "u32 list"

inductive fc_step :: "fc_link \<Rightarrow> fc_link \<Rightarrow> bool" where
  send: "sl_flow_charge_send (Some (fc_sender l)) n = (0, Some s) \<Longrightarrow>
    fc_step l (l\<lparr>fc_sender := s, fc_data := fc_data l @ [n]\<rparr>)"
| recv: "fc_data l = n # ns \<Longrightarrow> sl_flow_charge_recv (Some (fc_receiver l)) n = (0, Some r) \<Longrightarrow>
    fc_step l (l\<lparr>fc_receiver := r, fc_data := ns\<rparr>)"
| grant: "sl_flow_grant_recv (Some (fc_receiver l)) n = (0, Some r) \<Longrightarrow>
    fc_step l (l\<lparr>fc_receiver := r, fc_grants := fc_grants l @ [n]\<rparr>)"
| credit: "fc_grants l = n # ns \<Longrightarrow> sl_flow_grant_send (Some (fc_sender l)) n = (0, Some s) \<Longrightarrow>
    fc_step l (l\<lparr>fc_sender := s, fc_grants := ns\<rparr>)"

definition fc_sum :: "u32 list \<Rightarrow> int" where
  "fc_sum ns = sum_list (map uint ns)"

definition fc_inv :: "fc_link \<Rightarrow> bool" where
  "fc_inv l \<longleftrightarrow> 0 \<le> fc_send_credit (fc_sender l) \<and>
     fc_send_credit (fc_sender l) + fc_sum (fc_grants l) + fc_sum (fc_data l) = fc_recv_window (fc_receiver l) \<and>
     fc_recv_window (fc_receiver l) < 4294967296 \<and>
     (fc_grants l \<noteq> [] \<longrightarrow> fc_recv_window (fc_receiver l) \<le> SL_FC_MAX_WINDOW)"

lemma fc_sum_simps [simp]:
  "fc_sum [] = 0" "fc_sum (n # ns) = uint n + fc_sum ns" "fc_sum (ns @ ms) = fc_sum ns + fc_sum ms"
  by (simp_all add: fc_sum_def)

lemma fc_sum_nonneg: "0 \<le> fc_sum ns"
  by (auto simp: fc_sum_def intro!: sum_list_nonneg)

lemma uint_u32_less: "uint (n :: u32) < 4294967296"
  using uint_lt2p [of n] by simp

lemma mod_small_sum:
  "0 \<le> x \<Longrightarrow> x < 4294967296 \<Longrightarrow> (x + uint (n :: u32)) mod 18446744073709551616 = x + uint n"
  using uint_u32_less [of n] by simp

lemma fc_inv_bounds:
  assumes "fc_inv l"
  shows "0 \<le> fc_recv_window (fc_receiver l)" "fc_send_credit (fc_sender l) < 4294967296"
  using assms fc_sum_nonneg [of "fc_grants l"] fc_sum_nonneg [of "fc_data l"]
  unfolding fc_inv_def by linarith+

lemmas fc_op_defs = sl_flow_charge_send_def sl_flow_charge_recv_def sl_flow_grant_recv_def sl_flow_grant_send_def

lemma minus_uint_mono: "x < b \<Longrightarrow> x - uint n < b" "x \<le> b \<Longrightarrow> x - uint n \<le> b"
  using uint_nonnegative [of n] by linarith+

lemma fc_inv_step:
  assumes "fc_step l l'" "fc_inv l"
  shows "fc_inv l'"
  using assms
proof (induction rule: fc_step.induct)
  case (send l n s)
  then show ?case by (auto simp: fc_op_defs fc_inv_def split: if_splits)
next
  case (recv l n ns r)
  from recv(2) have "r = fc_receiver l\<lparr>fc_recv_window := fc_recv_window (fc_receiver l) - uint n\<rparr>"
    by (auto simp: fc_op_defs split: if_splits)
  then show ?case
    using recv(1,3) by (auto simp: fc_inv_def minus_uint_mono)
next
  case (grant l n r)
  from fc_inv_bounds [OF grant(2)] grant show ?case
    by (auto simp: fc_op_defs fc_inv_def mod_small_sum split: if_splits)
next
  case (credit l n ns s)
  then show ?case by (auto simp: fc_op_defs fc_inv_def split: if_splits)
qed

lemma fc_inv_reach:
  assumes "fc_step\<^sup>*\<^sup>* l l'" "fc_inv l"
  shows "fc_inv l'"
  using assms by (induction rule: rtranclp_induct) (auto intro: fc_inv_step)

definition fc_start :: "u32 \<Rightarrow> fc_link" where
  "fc_start initial =
     (let f = the (sl_flow_init_with (Some \<lparr>fc_send_credit = 0, fc_recv_window = 0\<rparr>) initial)
      in \<lparr>fc_sender = f, fc_receiver = f, fc_data = [], fc_grants = []\<rparr>)"

lemma fc_inv_start: "fc_inv (fc_start initial)"
  using uint_u32_less [of initial] by (simp add: fc_start_def fc_inv_def sl_flow_init_with_def Let_def)

text \<open>
  C11. Flow control keeps both ends consistent. From any initial window, over every interleaving of
  sends, deliveries, window grants and credit deliveries: a data frame that arrives never exceeds
  the receiver's window, a window update that arrives is never refused by the sender, and the
  sender's credit is never negative and never exceeds the receiver's window.
\<close>

theorem flow_control_consistent:
  assumes "fc_step\<^sup>*\<^sup>* (fc_start initial) l"
  shows "0 \<le> fc_send_credit (fc_sender l) \<and> fc_send_credit (fc_sender l) \<le> fc_recv_window (fc_receiver l)
    \<and> (\<forall>n ns. fc_data l = n # ns \<longrightarrow> fst (sl_flow_charge_recv (Some (fc_receiver l)) n) = 0)
    \<and> (\<forall>n ns. fc_grants l = n # ns \<longrightarrow> fst (sl_flow_grant_send (Some (fc_sender l)) n) = 0)"
proof (intro conjI allI impI)
  have inv: "fc_inv l" using assms fc_inv_start by (rule fc_inv_reach)
  note bounds = fc_inv_bounds [OF inv]
  have eq: "fc_send_credit (fc_sender l) + fc_sum (fc_grants l) + fc_sum (fc_data l) = fc_recv_window (fc_receiver l)"
    and max: "fc_grants l \<noteq> [] \<longrightarrow> fc_recv_window (fc_receiver l) \<le> SL_FC_MAX_WINDOW"
    and s0: "0 \<le> fc_send_credit (fc_sender l)"
    using inv by (auto simp: fc_inv_def)
  note nonneg = fc_sum_nonneg [of "fc_grants l"] fc_sum_nonneg [of "fc_data l"]
  show "0 \<le> fc_send_credit (fc_sender l)" by (rule s0)
  show "fc_send_credit (fc_sender l) \<le> fc_recv_window (fc_receiver l)" using eq nonneg by linarith
  show "fst (sl_flow_charge_recv (Some (fc_receiver l)) n) = 0" if "fc_data l = n # ns" for n ns
  proof -
    have "uint n \<le> fc_recv_window (fc_receiver l)"
      using eq s0 nonneg(1) fc_sum_nonneg [of ns] unfolding that fc_sum_simps by linarith
    then show ?thesis by (simp add: sl_flow_charge_recv_def)
  qed
  show "fst (sl_flow_grant_send (Some (fc_sender l)) n) = 0" if "fc_grants l = n # ns" for n ns
  proof -
    have "fc_send_credit (fc_sender l) + uint n \<le> SL_FC_MAX_WINDOW"
      using eq mp [OF max] nonneg(2) fc_sum_nonneg [of ns] unfolding that fc_sum_simps by simp
    then show ?thesis using s0 bounds by (simp add: sl_flow_grant_send_def mod_small_sum)
  qed
qed

theorem flow_control_consistent_witness:
  "let s = \<lparr>fc_send_credit = 65436, fc_recv_window = 65536\<rparr>; r = \<lparr>fc_send_credit = 65536, fc_recv_window = 65536\<rparr>;
       l = \<lparr>fc_sender = s, fc_receiver = r, fc_data = [100], fc_grants = []\<rparr>
   in fc_step\<^sup>*\<^sup>* (fc_start SL_FC_INITIAL_WINDOW) l \<and> fst (sl_flow_charge_recv (Some r) 100) = 0"
proof -
  let ?s = "\<lparr>fc_send_credit = 65436, fc_recv_window = 65536\<rparr>" and ?r = "\<lparr>fc_send_credit = 65536, fc_recv_window = 65536\<rparr>"
  let ?l = "\<lparr>fc_sender = ?s, fc_receiver = ?r, fc_data = [100], fc_grants = []\<rparr>"
  have "fc_step (fc_start 65536) ?l"
    using fc_step.send [of "fc_start 65536" 100 ?s]
    by (simp add: fc_start_def sl_flow_init_with_def sl_flow_charge_send_def Let_def)
  then have "fc_step\<^sup>*\<^sup>* (fc_start 65536) ?l" ..
  with flow_control_consistent [OF this] show ?thesis by (simp add: Let_def)
qed

lemma priority_byte_roundtrip:
  "0 \<le> p \<Longrightarrow> p < SL_PRIORITY_COUNT \<Longrightarrow> sl_priority_from_byte (sl_priority_to_byte p) = p"
  by (simp add: sl_priority_from_byte_def sl_priority_to_byte_def uint_word_of_int)

end
