(* ===== verification/SL_Negotiate.thy ===== *)
theory SL_Negotiate
  imports SL_Interfaces
begin

text \<open>
  What the hello messages negotiate: protocol versions (\<open>src/sl_version.c\<close>), cipher suites
  (\<open>src/sl_cipher.c\<close>) and extensions (\<open>src/sl_extensions.c\<close>). The C arrays keep their
  length; the entries beyond \<open>count\<close> are present and ignored, as in the code.
\<close>

subsection \<open>The loops over a list of 16-bit codes\<close>

text \<open>Search of the \<open>k\<close> entries from index \<open>i\<close>, the encoding loop and the decoding loop.\<close>

fun u16_find :: "u16 list \<Rightarrow> nat \<Rightarrow> nat \<Rightarrow> u16 \<Rightarrow> bool" where
  "u16_find a 0 i v = False"
| "u16_find a (Suc k) i v = (if a ! i = v then True else u16_find a k (Suc i) v)"

fun u16_encode :: "u16 list \<Rightarrow> nat \<Rightarrow> nat \<Rightarrow> bytes" where
  "u16_encode a 0 i = []"
| "u16_encode a (Suc k) i = [ucast (drop_bit 8 (a ! i)), ucast (a ! i AND 0xFF)] @ u16_encode a k (Suc i)"

definition u16_at :: "bytes \<Rightarrow> nat \<Rightarrow> u16" where
  "u16_at p i = push_bit 8 (ucast (p ! (1 + 2 * i))) OR ucast (p ! (1 + 2 * i + 1))"

subsection \<open>Versions\<close>

record sl_version_list_t =
  vl_versions :: "u16 list"
  vl_count :: u8

abbreviation (input) VERSION_LIST_LEN :: nat where "VERSION_LIST_LEN \<equiv> 8"

definition version_list_zero :: sl_version_list_t where
  "version_list_zero = \<lparr>vl_versions = replicate VERSION_LIST_LEN 0, vl_count = 0\<rparr>"

definition sl_version_list_init :: "sl_version_list_t ptr \<Rightarrow> sl_version_list_t ptr" where
  "sl_version_list_init l = (case l of None \<Rightarrow> NULL | Some _ \<Rightarrow> Some version_list_zero)"

definition sl_version_list_add :: "sl_version_list_t ptr \<Rightarrow> u16 \<Rightarrow> int \<times> sl_version_list_t ptr" where
  "sl_version_list_add l version =
     (case l of
        None \<Rightarrow> (- 1, NULL)
      | Some s \<Rightarrow>
          if unat (vl_count s) \<ge> VERSION_LIST_LEN then (- 1, l)
          else if u16_find (vl_versions s) (unat (vl_count s)) 0 version then (0, l)
          else (0, Some (s\<lparr>vl_versions := (vl_versions s)[unat (vl_count s) := version], vl_count := vl_count s + 1\<rparr>)))"

definition sl_version_list_has :: "sl_version_list_t ptr \<Rightarrow> u16 \<Rightarrow> bool" where
  "sl_version_list_has l version =
     (case l of None \<Rightarrow> False | Some s \<Rightarrow> u16_find (vl_versions s) (unat (vl_count s)) 0 version)"

definition sl_version_list_encode :: "sl_version_list_t ptr \<Rightarrow> out_buf \<Rightarrow> bytes option" where
  "sl_version_list_encode l out =
     (case (l, out) of
        (Some s, Some out_cap) \<Rightarrow>
          if out_cap < 1 + unat (vl_count s) * 2 then None
          else Some (vl_count s # u16_encode (vl_versions s) (unat (vl_count s)) 0)
      | _ \<Rightarrow> None)"

fun version_decode_loop :: "bytes \<Rightarrow> nat \<Rightarrow> nat \<Rightarrow> sl_version_list_t ptr \<Rightarrow> sl_version_list_t ptr" where
  "version_decode_loop p 0 i l = l"
| "version_decode_loop p (Suc k) i l =
     version_decode_loop p k (Suc i) (snd (sl_version_list_add l (u16_at p i)))"

definition sl_version_list_decode ::
  "bytes ptr \<Rightarrow> sl_version_list_t ptr \<Rightarrow> int \<times> sl_version_list_t ptr" where
  "sl_version_list_decode inp out =
     (case (inp, out) of
        (Some p, Some _) \<Rightarrow>
          if length p < 1 then (- 1, out)
          else
            let out1 = sl_version_list_init out; count = unat (p ! 0) in
            if count > VERSION_LIST_LEN then (- 1, out1)
            else if length p < 1 + count * 2 then (- 1, out1)
            else (0, version_decode_loop p count 0 out1)
      | _ \<Rightarrow> (- 1, out))"

fun version_choose_loop :: "sl_version_list_t \<Rightarrow> sl_version_list_t ptr \<Rightarrow> nat \<Rightarrow> nat \<Rightarrow> u16 \<Rightarrow> u16" where
  "version_choose_loop a b 0 i best = best"
| "version_choose_loop a b (Suc k) i best =
     (let v = vl_versions a ! i
      in version_choose_loop a b k (Suc i) (if sl_version_list_has b v \<and> v > best then v else best))"

definition sl_version_choose :: "sl_version_list_t ptr \<Rightarrow> sl_version_list_t ptr \<Rightarrow> u16" where
  "sl_version_choose a b =
     (case (a, b) of
        (Some s, Some _) \<Rightarrow> version_choose_loop s b (unat (vl_count s)) 0 0
      | _ \<Rightarrow> 0)"

subsection \<open>Cipher suites\<close>

abbreviation (input) SL_CIPHER_LIST_MAX :: nat where "SL_CIPHER_LIST_MAX \<equiv> 8"
abbreviation (input) SL_CIPHER_AES256_GCM_SHA256 :: u16 where "SL_CIPHER_AES256_GCM_SHA256 \<equiv> 1"
abbreviation (input) SL_CIPHER_CHACHA20_POLY1305 :: u16 where "SL_CIPHER_CHACHA20_POLY1305 \<equiv> 2"

record sl_cipher_list_t =
  cl_suites :: "u16 list"
  cl_count :: u8

definition sl_cipher_list_init :: "sl_cipher_list_t ptr \<Rightarrow> sl_cipher_list_t ptr" where
  "sl_cipher_list_init l =
     (case l of None \<Rightarrow> NULL | Some _ \<Rightarrow> Some \<lparr>cl_suites = replicate SL_CIPHER_LIST_MAX 0, cl_count = 0\<rparr>)"

definition sl_cipher_list_add :: "sl_cipher_list_t ptr \<Rightarrow> u16 \<Rightarrow> int \<times> sl_cipher_list_t ptr" where
  "sl_cipher_list_add l suite =
     (case l of
        None \<Rightarrow> (- 1, NULL)
      | Some s \<Rightarrow>
          if unat (cl_count s) \<ge> SL_CIPHER_LIST_MAX then (- 1, l)
          else if u16_find (cl_suites s) (unat (cl_count s)) 0 suite then (0, l)
          else (0, Some (s\<lparr>cl_suites := (cl_suites s)[unat (cl_count s) := suite], cl_count := cl_count s + 1\<rparr>)))"

definition sl_cipher_list_has :: "sl_cipher_list_t ptr \<Rightarrow> u16 \<Rightarrow> bool" where
  "sl_cipher_list_has l suite =
     (case l of None \<Rightarrow> False | Some s \<Rightarrow> u16_find (cl_suites s) (unat (cl_count s)) 0 suite)"

definition sl_cipher_list_encode :: "sl_cipher_list_t ptr \<Rightarrow> out_buf \<Rightarrow> bytes option" where
  "sl_cipher_list_encode l out =
     (case (l, out) of
        (Some s, Some out_cap) \<Rightarrow>
          if out_cap < 1 + unat (cl_count s) * 2 then None
          else Some (cl_count s # u16_encode (cl_suites s) (unat (cl_count s)) 0)
      | _ \<Rightarrow> None)"

fun cipher_decode_loop :: "bytes \<Rightarrow> nat \<Rightarrow> nat \<Rightarrow> sl_cipher_list_t ptr \<Rightarrow> sl_cipher_list_t ptr" where
  "cipher_decode_loop p 0 i l = l"
| "cipher_decode_loop p (Suc k) i l =
     cipher_decode_loop p k (Suc i) (snd (sl_cipher_list_add l (u16_at p i)))"

definition sl_cipher_list_decode ::
  "bytes ptr \<Rightarrow> sl_cipher_list_t ptr \<Rightarrow> int \<times> sl_cipher_list_t ptr" where
  "sl_cipher_list_decode inp out =
     (case (inp, out) of
        (Some p, Some _) \<Rightarrow>
          if length p < 1 then (- 1, out)
          else
            let out1 = sl_cipher_list_init out; count = unat (p ! 0) in
            if count > SL_CIPHER_LIST_MAX then (- 1, out1)
            else if length p < 1 + count * 2 then (- 1, out1)
            else (0, cipher_decode_loop p count 0 out1)
      | _ \<Rightarrow> (- 1, out))"

definition sl_cipher_is_supported :: "u16 \<Rightarrow> bool" where
  "sl_cipher_is_supported suite = (suite = SL_CIPHER_AES256_GCM_SHA256)"

fun cipher_choose_loop :: "sl_cipher_list_t \<Rightarrow> sl_cipher_list_t ptr \<Rightarrow> nat \<Rightarrow> nat \<Rightarrow> u16" where
  "cipher_choose_loop a b 0 i = 0"
| "cipher_choose_loop a b (Suc k) i =
     (let s = cl_suites a ! i
      in if sl_cipher_list_has b s \<and> sl_cipher_is_supported s then s else cipher_choose_loop a b k (Suc i))"

definition sl_cipher_choose :: "sl_cipher_list_t ptr \<Rightarrow> sl_cipher_list_t ptr \<Rightarrow> u16" where
  "sl_cipher_choose server_pref client_offered =
     (case (server_pref, client_offered) of
        (Some s, Some _) \<Rightarrow> cipher_choose_loop s client_offered (unat (cl_count s)) 0
      | _ \<Rightarrow> 0)"

definition sl_cipher_name :: "u16 \<Rightarrow> string" where
  "sl_cipher_name suite =
     (if suite = SL_CIPHER_AES256_GCM_SHA256 then ''AES256-GCM-SHA256''
      else if suite = SL_CIPHER_CHACHA20_POLY1305 then ''CHACHA20-POLY1305''
      else ''unknown'')"

subsection \<open>Extensions\<close>

type_synonym sl_ext_type_t = int

abbreviation (input) SL_EXT_MAX_COUNT :: nat where "SL_EXT_MAX_COUNT \<equiv> 16"
abbreviation (input) SL_EXT_MAX_BODY :: nat where "SL_EXT_MAX_BODY \<equiv> 512"

record sl_extension_t =
  ext_type :: u16
  ext_len :: u16
  ext_body :: bytes

record sl_extensions_t =
  exts_items :: "sl_extension_t list"
  exts_count :: u8

definition extension_zero :: sl_extension_t where
  "extension_zero = \<lparr>ext_type = 0, ext_len = 0, ext_body = replicate SL_EXT_MAX_BODY 0\<rparr>"

definition sl_extensions_init :: "sl_extensions_t ptr \<Rightarrow> sl_extensions_t ptr" where
  "sl_extensions_init e =
     (case e of None \<Rightarrow> NULL | Some _ \<Rightarrow> Some \<lparr>exts_items = replicate SL_EXT_MAX_COUNT extension_zero, exts_count = 0\<rparr>)"

text \<open>Filling the next slot; the body is copied over what the slot held.\<close>

definition extensions_put :: "sl_extensions_t \<Rightarrow> u16 \<Rightarrow> u16 \<Rightarrow> bytes \<Rightarrow> sl_extensions_t" where
  "extensions_put e ty len body =
     (let i = unat (exts_count e); slot = exts_items e ! i
      in e\<lparr>exts_items := (exts_items e)[i := \<lparr>ext_type = ty, ext_len = len, ext_body = write_at 0 body (ext_body slot)\<rparr>],
           exts_count := exts_count e + 1\<rparr>)"

definition sl_extensions_add ::
  "sl_extensions_t ptr \<Rightarrow> sl_ext_type_t \<Rightarrow> bytes ptr \<Rightarrow> nat \<Rightarrow> int \<times> sl_extensions_t ptr" where
  "sl_extensions_add e ty body body_len =
     (case e of
        None \<Rightarrow> (- 1, NULL)
      | Some s \<Rightarrow>
          if unat (exts_count s) \<ge> SL_EXT_MAX_COUNT then (- 1, e)
          else if body_len > SL_EXT_MAX_BODY then (- 1, e)
          else if body_len > 0 \<and> body = NULL then (- 1, e)
          else (0, Some (extensions_put s (word_of_int ty) (of_nat body_len)
                 (case body of None \<Rightarrow> [] | Some b \<Rightarrow> take body_len b))))"

fun ext_find_loop :: "sl_extension_t list \<Rightarrow> nat \<Rightarrow> nat \<Rightarrow> u16 \<Rightarrow> sl_extension_t ptr" where
  "ext_find_loop items 0 i ty = NULL"
| "ext_find_loop items (Suc k) i ty =
     (if ext_type (items ! i) = ty then Some (items ! i) else ext_find_loop items k (Suc i) ty)"

definition sl_extensions_find :: "sl_extensions_t ptr \<Rightarrow> sl_ext_type_t \<Rightarrow> sl_extension_t ptr" where
  "sl_extensions_find e ty =
     (case e of
        None \<Rightarrow> NULL
      | Some s \<Rightarrow> ext_find_loop (exts_items s) (unat (exts_count s)) 0 (word_of_int ty))"

text \<open>The two loops of the encoder: the inner length, \<open>None\<close> above \<open>0xFFFF\<close>, and the bytes.\<close>

fun ext_inner_loop :: "sl_extension_t list \<Rightarrow> nat \<Rightarrow> nat \<Rightarrow> nat \<Rightarrow> nat option" where
  "ext_inner_loop items 0 i inner = Some inner"
| "ext_inner_loop items (Suc k) i inner =
     (let inner' = inner + (4 + unat (ext_len (items ! i)))
      in if inner' > 0xFFFF then None else ext_inner_loop items k (Suc i) inner')"

fun ext_encode_loop :: "sl_extension_t list \<Rightarrow> nat \<Rightarrow> nat \<Rightarrow> bytes" where
  "ext_encode_loop items 0 i = []"
| "ext_encode_loop items (Suc k) i =
     (let x = items ! i
      in pack_u16 (ext_type x) @ pack_u16 (ext_len x) @ take (unat (ext_len x)) (ext_body x)
           @ ext_encode_loop items k (Suc i))"

definition sl_extensions_encode :: "sl_extensions_t ptr \<Rightarrow> out_buf \<Rightarrow> bytes option" where
  "sl_extensions_encode e out =
     (case (e, out) of
        (Some s, Some out_cap) \<Rightarrow>
          if out_cap < 2 then None
          else (case ext_inner_loop (exts_items s) (unat (exts_count s)) 0 0 of
                  None \<Rightarrow> None
                | Some inner \<Rightarrow>
                    if out_cap < 2 + inner then None
                    else Some (pack_u16 (of_nat inner) @ ext_encode_loop (exts_items s) (unat (exts_count s)) 0))
      | _ \<Rightarrow> None)"

text \<open>The decoding loop; an item that is too big or finds the list full is skipped.\<close>

function ext_decode_loop :: "bytes \<Rightarrow> nat \<Rightarrow> nat \<Rightarrow> sl_extensions_t \<Rightarrow> int \<times> sl_extensions_t" where
  "ext_decode_loop p off end_off out =
     (if off + 4 \<le> end_off then
        let ty = unpack_u16 (drop off p); len = unpack_u16 (drop (off + 2) p); L = unat len in
        if off + 4 + L > end_off then (- 1, out)
        else
          let out' = (if L \<le> SL_EXT_MAX_BODY \<and> unat (exts_count out) < SL_EXT_MAX_COUNT
                      then extensions_put out ty len (take L (drop (off + 4) p)) else out)
          in ext_decode_loop p (off + (4 + L)) end_off out'
      else (0, out))"
  by pat_completeness auto

termination
  by (relation "measure (\<lambda>(p, off, end_off, out). end_off - off)") auto

declare ext_decode_loop.simps [simp del]

definition sl_extensions_decode :: "bytes ptr \<Rightarrow> sl_extensions_t ptr \<Rightarrow> int \<times> sl_extensions_t ptr" where
  "sl_extensions_decode inp out =
     (case (inp, out) of
        (Some p, Some _) \<Rightarrow>
          let out1 = sl_extensions_init out in
          if length p < 2 then (- 1, out1)
          else
            let inner = unat (unpack_u16 p) in
            if inner + 2 > length p then (- 1, out1)
            else (let (rc, out2) = ext_decode_loop p 2 (2 + inner) (the out1) in (rc, Some out2))
      | _ \<Rightarrow> (- 1, out))"

subsection \<open>Lists of codes\<close>

lemma u16_find_iff:
  "i + k \<le> length a \<Longrightarrow> u16_find a k i v \<longleftrightarrow> v \<in> set (take k (drop i a))"
proof (induction k arbitrary: i)
  case (Suc k)
  then have "drop i a = a ! i # drop (Suc i) a" by (simp add: Cons_nth_drop_Suc)
  with Suc show ?case by auto
qed simp

lemma u16_encode_eq:
  "i + k \<le> length a \<Longrightarrow> u16_encode a k i = concat (map pack_u16 (take k (drop i a)))"
proof (induction k arbitrary: i)
  case (Suc k)
  then have d: "drop i a = a ! i # drop (Suc i) a" by (simp add: Cons_nth_drop_Suc)
  have "[ucast (drop_bit 8 (a ! i)), ucast (a ! i AND 0xFF)] = pack_u16 (a ! i)"
  proof -
    have "(0xFF :: u16) = mask 8" by (simp add: mask_eq_exp_minus_1)
    then show ?thesis by (auto simp: pack_u16_def bit_eq_iff bit_simps)
  qed
  with Suc d show ?case by simp
qed simp

lemma u16_at_unpack: "1 + 2 * i + 1 < length p \<Longrightarrow> u16_at p i = unpack_u16 (drop (1 + 2 * i) p)"
  by (simp add: u16_at_def unpack_u16_def)

lemma drop_packed_u16:
  "drop (2 * i) (concat (map pack_u16 vs) @ rest) = concat (map pack_u16 (drop i vs)) @ rest"
  if "i \<le> length vs"
  using that
proof (induction vs arbitrary: i)
  case (Cons v vs)
  then show ?case by (cases i) auto
qed simp

lemma length_packed_u16: "length (concat (map pack_u16 vs)) = 2 * length vs"
  by (induction vs) auto

lemma u16_at_packed:
  assumes "i < length vs"
  shows "u16_at (c # concat (map pack_u16 vs) @ rest) i = vs ! i"
proof -
  have "u16_at (c # concat (map pack_u16 vs) @ rest) i = unpack_u16 (drop (2 * i) (concat (map pack_u16 vs) @ rest))"
    using assms by (simp add: u16_at_unpack length_packed_u16)
  also have "\<dots> = unpack_u16 (concat (map pack_u16 (drop i vs)) @ rest)"
    using assms by (simp only: drop_packed_u16)
  also have "\<dots> = vs ! i"
    using assms by (simp add: Cons_nth_drop_Suc [symmetric])
  finally show ?thesis .
qed

text \<open>
  The contract of a negotiation list: the codes it holds, at most eight and distinct, and an
  operation that appends a code unless it is present or the list is full.
\<close>

locale code_list =
  fixes codes :: "'l \<Rightarrow> u16 list"
    and invar :: "'l \<Rightarrow> bool"
    and add :: "'l ptr \<Rightarrow> u16 \<Rightarrow> int \<times> 'l ptr"
  assumes codes_bounded: "invar l \<Longrightarrow> length (codes l) \<le> 8 \<and> distinct (codes l)"
    and add_spec: "invar l \<Longrightarrow> \<exists>l'. add (Some l) v = (if length (codes l) < 8 then 0 else - 1, Some l') \<and> invar l' \<and>
      codes l' = (if length (codes l) < 8 \<and> v \<notin> set (codes l) then codes l @ [v] else codes l)"
begin

lemma fold_add_distinct:
  assumes "invar l" "distinct (codes l @ vs)" "length (codes l @ vs) \<le> 8"
  shows "\<exists>l'. fold (\<lambda>v lp. snd (add lp v)) vs (Some l) = Some l' \<and> invar l' \<and> codes l' = codes l @ vs"
  using assms
proof (induction vs arbitrary: l)
  case (Cons v vs)
  obtain l1 where l1: "snd (add (Some l) v) = Some l1" "invar l1" "codes l1 = codes l @ [v]"
    using add_spec [OF Cons.prems(1), of v] Cons.prems(2,3) by auto
  have "\<exists>l'. fold (\<lambda>v lp. snd (add lp v)) vs (Some l1) = Some l' \<and> invar l' \<and> codes l' = codes l1 @ vs"
    using Cons.prems(2,3) l1 by (intro Cons.IH) auto
  with l1 show ?case by simp
qed simp

lemma fold_add_invar:
  assumes "invar l"
  shows "\<exists>l'. fold (\<lambda>v lp. snd (add lp v)) vs (Some l) = Some l' \<and> invar l' \<and> set (codes l') \<subseteq> set (codes l) \<union> set vs"
  using assms
proof (induction vs arbitrary: l)
  case (Cons v vs)
  obtain l1 where l1: "add (Some l) v = (if length (codes l) < 8 then 0 else - 1, Some l1)" "invar l1"
    "codes l1 = (if length (codes l) < 8 \<and> v \<notin> set (codes l) then codes l @ [v] else codes l)"
    using add_spec [OF Cons.prems, of v] by blast
  then have "set (codes l1) \<subseteq> insert v (set (codes l))" by auto
  moreover obtain l2 where l2: "fold (\<lambda>v lp. snd (add lp v)) vs (Some l1) = Some l2" "invar l2"
    "set (codes l2) \<subseteq> set (codes l1) \<union> set vs"
    using Cons.IH [OF l1(2)] by blast
  ultimately have "set (codes l2) \<subseteq> set (codes l) \<union> set (v # vs)" by auto
  with l1(1) l2 show ?case by simp
qed auto

end

definition vl_codes :: "sl_version_list_t \<Rightarrow> u16 list" where
  "vl_codes l = take (unat (vl_count l)) (vl_versions l)"

definition vl_ok :: "sl_version_list_t \<Rightarrow> bool" where
  "vl_ok l \<longleftrightarrow> length (vl_versions l) = 8 \<and> unat (vl_count l) \<le> 8 \<and> distinct (vl_codes l)"

definition cl_codes :: "sl_cipher_list_t \<Rightarrow> u16 list" where
  "cl_codes l = take (unat (cl_count l)) (cl_suites l)"

definition cl_ok :: "sl_cipher_list_t \<Rightarrow> bool" where
  "cl_ok l \<longleftrightarrow> length (cl_suites l) = 8 \<and> unat (cl_count l) \<le> 8 \<and> distinct (cl_codes l)"

lemma unat_u8_succ: "unat (c :: u8) < 255 \<Longrightarrow> unat (c + 1) = unat c + 1"
  by (simp add: unat_word_ariths)

lemma vl_add:
  assumes "vl_ok l"
  shows "\<exists>l'. sl_version_list_add (Some l) v = (if length (vl_codes l) < 8 then 0 else - 1, Some l') \<and> vl_ok l' \<and>
    vl_codes l' = (if length (vl_codes l) < 8 \<and> v \<notin> set (vl_codes l) then vl_codes l @ [v] else vl_codes l)"
proof -
  have "length (vl_codes l) = unat (vl_count l)" using assms by (simp add: vl_ok_def vl_codes_def)
  moreover have "u16_find (vl_versions l) (unat (vl_count l)) 0 v \<longleftrightarrow> v \<in> set (vl_codes l)"
    using assms by (simp add: vl_ok_def vl_codes_def u16_find_iff)
  ultimately show ?thesis
    using assms
    by (auto simp: sl_version_list_add_def vl_ok_def vl_codes_def unat_u8_succ take_Suc_conv_app_nth
        distinct_append)
qed

lemma cl_add:
  assumes "cl_ok l"
  shows "\<exists>l'. sl_cipher_list_add (Some l) v = (if length (cl_codes l) < 8 then 0 else - 1, Some l') \<and> cl_ok l' \<and>
    cl_codes l' = (if length (cl_codes l) < 8 \<and> v \<notin> set (cl_codes l) then cl_codes l @ [v] else cl_codes l)"
proof -
  have "length (cl_codes l) = unat (cl_count l)" using assms by (simp add: cl_ok_def cl_codes_def)
  moreover have "u16_find (cl_suites l) (unat (cl_count l)) 0 v \<longleftrightarrow> v \<in> set (cl_codes l)"
    using assms by (simp add: cl_ok_def cl_codes_def u16_find_iff)
  ultimately show ?thesis
    using assms
    by (auto simp: sl_cipher_list_add_def cl_ok_def cl_codes_def unat_u8_succ take_Suc_conv_app_nth
        distinct_append)
qed

interpretation vl: code_list vl_codes vl_ok sl_version_list_add
proof (unfold_locales, goal_cases)
  case (1 l)
  then show ?case by (simp add: vl_ok_def vl_codes_def)
next
  case (2 l v)
  then show ?case by (rule vl_add)
qed

interpretation cl: code_list cl_codes cl_ok sl_cipher_list_add
proof (unfold_locales, goal_cases)
  case (1 l)
  then show ?case by (simp add: cl_ok_def cl_codes_def)
next
  case (2 l v)
  then show ?case by (rule cl_add)
qed

subsection \<open>Encoding, decoding and choosing\<close>

lemma version_decode_loop_fold:
  "version_decode_loop p k i l = fold (\<lambda>v lp. snd (sl_version_list_add lp v)) (map (u16_at p) [i ..< i + k]) l"
  by (induction k arbitrary: i l) (simp_all add: upt_conv_Cons del: upt_Suc)

lemma cipher_decode_loop_fold:
  "cipher_decode_loop p k i l = fold (\<lambda>v lp. snd (sl_cipher_list_add lp v)) (map (u16_at p) [i ..< i + k]) l"
  by (induction k arbitrary: i l) (simp_all add: upt_conv_Cons del: upt_Suc)

lemma u16_at_all:
  "map (u16_at (c # concat (map pack_u16 vs) @ rest)) [0 ..< length vs] = vs"
  by (rule nth_equalityI) (simp_all add: u16_at_packed)

lemma version_list_zero_ok [simp]: "vl_ok version_list_zero" "vl_codes version_list_zero = []"
  by (simp_all add: version_list_zero_def vl_ok_def vl_codes_def)

lemma cipher_list_zero_ok:
  "sl_cipher_list_init (Some l) = Some z \<Longrightarrow> cl_ok z \<and> cl_codes z = []"
  by (auto simp: sl_cipher_list_init_def cl_ok_def cl_codes_def)

lemma version_list_wire:
  assumes ok: "vl_ok l" and enc: "sl_version_list_encode (Some l) out = Some w"
  shows "\<exists>l'. sl_version_list_decode (Some (w @ rest)) (Some l0) = (0, Some l') \<and> vl_ok l' \<and> vl_codes l' = vl_codes l"
proof -
  have len: "length (vl_codes l) = unat (vl_count l)" "unat (vl_count l) \<le> 8"
    using ok by (auto simp: vl_ok_def vl_codes_def)
  have w: "w = vl_count l # concat (map pack_u16 (vl_codes l))"
    using enc ok by (auto simp: sl_version_list_encode_def vl_ok_def vl_codes_def u16_encode_eq split: option.splits if_splits)
  let ?p = "vl_count l # concat (map pack_u16 (vl_codes l)) @ rest"
  have "version_decode_loop ?p (unat (vl_count l)) 0 (Some version_list_zero)
      = fold (\<lambda>v lp. snd (sl_version_list_add lp v)) (vl_codes l) (Some version_list_zero)"
    using u16_at_all [of "vl_count l" "vl_codes l" rest] len by (simp add: version_decode_loop_fold)
  moreover have "\<exists>l'. fold (\<lambda>v lp. snd (sl_version_list_add lp v)) (vl_codes l) (Some version_list_zero) = Some l'
      \<and> vl_ok l' \<and> vl_codes l' = vl_codes version_list_zero @ vl_codes l"
    using ok len by (intro vl.fold_add_distinct) (simp_all add: vl_ok_def [of l])
  ultimately show ?thesis
    using len by (auto simp: w sl_version_list_decode_def sl_version_list_init_def length_packed_u16 Let_def)
qed

lemma cipher_list_wire:
  assumes ok: "cl_ok l" and enc: "sl_cipher_list_encode (Some l) out = Some w"
  shows "\<exists>l'. sl_cipher_list_decode (Some (w @ rest)) (Some l0) = (0, Some l') \<and> cl_ok l' \<and> cl_codes l' = cl_codes l"
proof -
  have len: "length (cl_codes l) = unat (cl_count l)" "unat (cl_count l) \<le> 8"
    using ok by (auto simp: cl_ok_def cl_codes_def)
  have w: "w = cl_count l # concat (map pack_u16 (cl_codes l))"
    using enc ok by (auto simp: sl_cipher_list_encode_def cl_ok_def cl_codes_def u16_encode_eq split: option.splits if_splits)
  let ?p = "cl_count l # concat (map pack_u16 (cl_codes l)) @ rest"
  obtain z where z: "sl_cipher_list_init (Some l0) = Some z" "cl_ok z" "cl_codes z = []"
    using cipher_list_zero_ok [of l0] by (fastforce simp: sl_cipher_list_init_def)
  have "cipher_decode_loop ?p (unat (cl_count l)) 0 (Some z)
      = fold (\<lambda>v lp. snd (sl_cipher_list_add lp v)) (cl_codes l) (Some z)"
    using u16_at_all [of "cl_count l" "cl_codes l" rest] len by (simp add: cipher_decode_loop_fold)
  moreover have "\<exists>l'. fold (\<lambda>v lp. snd (sl_cipher_list_add lp v)) (cl_codes l) (Some z) = Some l'
      \<and> cl_ok l' \<and> cl_codes l' = cl_codes z @ cl_codes l"
    using ok len z by (intro cl.fold_add_distinct) (simp_all add: cl_ok_def [of l])
  ultimately show ?thesis
    using len z by (auto simp: w sl_cipher_list_decode_def length_packed_u16 Let_def)
qed

lemma has_version_iff: "vl_ok l \<Longrightarrow> sl_version_list_has (Some l) v \<longleftrightarrow> v \<in> set (vl_codes l)"
  by (simp add: sl_version_list_has_def vl_ok_def vl_codes_def u16_find_iff)

lemma has_cipher_iff: "cl_ok l \<Longrightarrow> sl_cipher_list_has (Some l) v \<longleftrightarrow> v \<in> set (cl_codes l)"
  by (simp add: sl_cipher_list_has_def cl_ok_def cl_codes_def u16_find_iff)

lemma version_choose_loop_eq:
  "i + k \<le> length (vl_versions a) \<Longrightarrow>
   version_choose_loop a b k i best =
     Max (insert best {v \<in> set (take k (drop i (vl_versions a))). sl_version_list_has b v})"
proof (induction k arbitrary: i best)
  case (Suc k)
  define v where "v = vl_versions a ! i"
  define S where "S = {v \<in> set (take k (drop (Suc i) (vl_versions a))). sl_version_list_has b v}"
  have "drop i (vl_versions a) = v # drop (Suc i) (vl_versions a)"
    using Suc.prems by (simp add: v_def Cons_nth_drop_Suc)
  then have set: "{v \<in> set (take (Suc k) (drop i (vl_versions a))). sl_version_list_has b v} =
      (if sl_version_list_has b v then insert v S else S)"
    by (auto simp: S_def)
  have fin: "finite S" by (simp add: S_def)
  have "version_choose_loop a b (Suc k) i best = Max (insert (if sl_version_list_has b v \<and> v > best then v else best) S)"
    using Suc by (simp add: v_def S_def Let_def)
  also have "\<dots> = Max (insert best (if sl_version_list_has b v then insert v S else S))"
    using fin by (cases "S = {}") (auto simp: max_def)
  finally show ?case by (simp add: set)
qed simp

lemma sl_version_choose_eq:
  assumes "vl_ok a" "vl_ok b"
  shows "sl_version_choose (Some a) (Some b) = Max (insert 0 (set (vl_codes a) \<inter> set (vl_codes b)))"
proof -
  have "{v \<in> set (vl_codes a). sl_version_list_has (Some b) v} = set (vl_codes a) \<inter> set (vl_codes b)"
    by (auto simp: has_version_iff [OF assms(2)])
  then show ?thesis
    using assms(1) by (simp add: sl_version_choose_def version_choose_loop_eq vl_ok_def vl_codes_def)
qed

lemma cipher_choose_loop_eq:
  "i + k \<le> length (cl_suites a) \<Longrightarrow>
   cipher_choose_loop a b k i =
     (case find (\<lambda>s. sl_cipher_list_has b s \<and> sl_cipher_is_supported s) (take k (drop i (cl_suites a))) of
        None \<Rightarrow> 0 | Some s \<Rightarrow> s)"
proof (induction k arbitrary: i)
  case (Suc k)
  then have "drop i (cl_suites a) = cl_suites a ! i # drop (Suc i) (cl_suites a)" by (simp add: Cons_nth_drop_Suc)
  with Suc show ?case by (simp add: Let_def)
qed simp

text \<open>
  C12. Version negotiation agrees. When each side sends its list and chooses from its own list and
  the one it decoded, both choose the same version: the greatest version in both lists, or 0
  when there is none. Trailing bytes after an encoded list do not matter.
\<close>

theorem version_negotiation_agrees:
  assumes "vl_ok a" "vl_ok b"
    and "sl_version_list_encode (Some a) oa = Some wa" "sl_version_list_encode (Some b) ob = Some wb"
    and "sl_version_list_decode (Some (wa @ ra)) (Some l0) = (rca, a')"
    and "sl_version_list_decode (Some (wb @ rb)) (Some l1) = (rcb, b')"
  shows "rca = 0 \<and> rcb = 0 \<and> sl_version_choose (Some a) b' = sl_version_choose (Some b) a'
    \<and> sl_version_choose (Some a) b' = Max (insert 0 (set (vl_codes a) \<inter> set (vl_codes b)))"
proof -
  obtain a1 b1 where "a' = Some a1" "rca = 0" "vl_ok a1" "vl_codes a1 = vl_codes a"
    "b' = Some b1" "rcb = 0" "vl_ok b1" "vl_codes b1 = vl_codes b"
    using version_list_wire [OF assms(1,3), of ra l0] version_list_wire [OF assms(2,4), of rb l1] assms(5,6)
    by auto
  with assms(1,2) show ?thesis by (simp add: sl_version_choose_eq Int_commute)
qed

theorem version_negotiation_agrees_witness:
  "let a = \<lparr>vl_versions = [0x100, 0x200, 0x300, 0, 0, 0, 0, 0], vl_count = 3\<rparr>;
       b = \<lparr>vl_versions = [0x200, 0x100, 0, 0, 0, 0, 0, 0], vl_count = 2\<rparr>;
       b' = snd (sl_version_list_decode (Some [2, 2, 0, 1, 0]) (Some version_list_zero));
       a' = snd (sl_version_list_decode (Some [3, 1, 0, 2, 0, 3, 0]) (Some version_list_zero))
   in sl_version_choose (Some a) b' = sl_version_choose (Some b) a' \<and> sl_version_choose (Some a) b' = 0x200"
proof -
  let ?a = "\<lparr>vl_versions = [0x100, 0x200, 0x300, 0, 0, 0, 0, 0], vl_count = 3\<rparr>"
  let ?b = "\<lparr>vl_versions = [0x200, 0x100, 0, 0, 0, 0, 0, 0], vl_count = 2\<rparr>"
  have ok: "vl_ok ?a" "vl_ok ?b" by (simp_all add: vl_ok_def vl_codes_def)
  have enc: "sl_version_list_encode (Some ?a) (Some 64) = Some [3, 1, 0, 2, 0, 3, 0]"
    "sl_version_list_encode (Some ?b) (Some 64) = Some [2, 2, 0, 1, 0]"
    by (simp_all add: sl_version_list_encode_def u16_encode_eq pack_u16_def)
  from version_negotiation_agrees [OF ok enc, of "[]" version_list_zero _ _ "[]" version_list_zero] show ?thesis
    by (fastforce simp: Let_def vl_codes_def prod_eq_iff)
qed

text \<open>
  The server's cipher choice is its first preference that the client offered and that is
  implemented, or 0 when there is none; the offer is what the server decodes from the wire.
\<close>

theorem cipher_choice_first_preference:
  assumes "cl_ok server" "cl_ok client" "sl_cipher_list_encode (Some client) out = Some w"
    and "sl_cipher_list_decode (Some (w @ rest)) (Some l0) = (rc, offered)"
  shows "rc = 0 \<and> sl_cipher_choose (Some server) offered =
    (case find (\<lambda>s. s \<in> set (cl_codes client) \<and> sl_cipher_is_supported s) (cl_codes server) of
       None \<Rightarrow> 0 | Some s \<Rightarrow> s)"
proof -
  obtain c where "offered = Some c" "rc = 0" "cl_ok c" "cl_codes c = cl_codes client"
    using cipher_list_wire [OF assms(2,3), of rest l0] assms(4) by auto
  with assms(1) show ?thesis
    by (simp add: sl_cipher_choose_def cipher_choose_loop_eq has_cipher_iff cl_ok_def [of server] cl_codes_def [of server])
qed

theorem cipher_choice_first_preference_witness:
  "sl_cipher_choose (Some \<lparr>cl_suites = [2, 1, 0, 0, 0, 0, 0, 0], cl_count = 2\<rparr>)
     (snd (sl_cipher_list_decode (Some [2, 0, 1, 0, 2]) (Some \<lparr>cl_suites = [], cl_count = 0\<rparr>))) = 1"
proof -
  let ?s = "\<lparr>cl_suites = [2, 1, 0, 0, 0, 0, 0, 0], cl_count = 2\<rparr>" and ?c = "\<lparr>cl_suites = [1, 2, 0, 0, 0, 0, 0, 0], cl_count = 2\<rparr>"
  have ok: "cl_ok ?s" "cl_ok ?c" by (simp_all add: cl_ok_def cl_codes_def)
  have enc: "sl_cipher_list_encode (Some ?c) (Some 64) = Some [2, 0, 1, 0, 2]"
    by (simp add: sl_cipher_list_encode_def u16_encode_eq pack_u16_def)
  from cipher_choice_first_preference [OF ok enc, of "[]"] show ?thesis
    by (fastforce simp: cl_codes_def sl_cipher_is_supported_def prod_eq_iff)
qed

lemma version_decode_ok:
  assumes "sl_version_list_decode (Some p) (Some l0) = (rc, Some l)" "p \<noteq> []"
  shows "vl_ok l"
  using assms vl.fold_add_invar [OF version_list_zero_ok(1), of "map (u16_at p) [0 ..< unat (p ! 0)]"]
  by (auto simp: sl_version_list_decode_def sl_version_list_init_def version_decode_loop_fold Let_def
      simp flip: length_greater_0_conv split: if_splits)

lemma cipher_decode_ok:
  assumes "sl_cipher_list_decode (Some p) (Some l0) = (rc, Some l)" "p \<noteq> []"
  shows "cl_ok l"
proof -
  obtain z where z: "sl_cipher_list_init (Some l0) = Some z" "cl_ok z"
    using cipher_list_zero_ok [of l0] by (fastforce simp: sl_cipher_list_init_def)
  show ?thesis
    using assms z cl.fold_add_invar [OF z(2), of "map (u16_at p) [0 ..< unat (p ! 0)]"]
    by (auto simp: sl_cipher_list_decode_def cipher_decode_loop_fold Let_def
        simp flip: length_greater_0_conv split: if_splits)
qed

subsection \<open>Extension blocks\<close>

definition ext_view :: "sl_extension_t \<Rightarrow> u16 \<times> bytes" where
  "ext_view x = (ext_type x, take (unat (ext_len x)) (ext_body x))"

definition exts_view :: "sl_extensions_t \<Rightarrow> (u16 \<times> bytes) list" where
  "exts_view e = map ext_view (take (unat (exts_count e)) (exts_items e))"

definition ext_ok :: "sl_extension_t \<Rightarrow> bool" where
  "ext_ok x \<longleftrightarrow> length (ext_body x) = 512 \<and> unat (ext_len x) \<le> 512"

definition exts_ok :: "sl_extensions_t \<Rightarrow> bool" where
  "exts_ok e \<longleftrightarrow> length (exts_items e) = 16 \<and> unat (exts_count e) \<le> 16 \<and> list_all ext_ok (exts_items e)"

text \<open>The wire form of one extension.\<close>

definition tlv :: "u16 \<times> bytes \<Rightarrow> bytes" where
  "tlv x = pack_u16 (fst x) @ pack_u16 (of_nat (length (snd x))) @ snd x"

lemma length_tlv: "length (tlv x) = 4 + length (snd x)"
  by (simp add: tlv_def)

lemma ext_encode_loop_eq:
  "i + k \<le> length items \<Longrightarrow> list_all ext_ok items \<Longrightarrow>
   ext_encode_loop items k i = concat (map (tlv \<circ> ext_view) (take k (drop i items)))"
proof (induction k arbitrary: i)
  case (Suc k)
  have d: "drop i items = items ! i # drop (Suc i) items" using Suc.prems by (simp add: Cons_nth_drop_Suc)
  have "ext_ok (items ! i)" using Suc.prems by (simp add: list_all_length)
  then have "of_nat (length (take (unat (ext_len (items ! i))) (ext_body (items ! i)))) = ext_len (items ! i)"
    by (simp add: ext_ok_def)
  with Suc d show ?case by (simp add: Let_def tlv_def ext_view_def)
qed simp

lemma ext_inner_loop_eq:
  "i + k \<le> length items \<Longrightarrow> list_all ext_ok items \<Longrightarrow> inner + 516 * k \<le> 65535 \<Longrightarrow>
   ext_inner_loop items k i inner = Some (inner + length (ext_encode_loop items k i))"
proof (induction k arbitrary: i inner)
  case (Suc k)
  have "ext_ok (items ! i)" using Suc.prems by (simp add: list_all_length)
  with Suc show ?case by (simp add: Let_def ext_ok_def min_absorb2)
qed simp

lemma extensions_put_view:
  assumes "exts_ok e" "unat (exts_count e) < 16" "unat len = length body" "length body \<le> 512"
  shows "exts_ok (extensions_put e ty len body) \<and> exts_view (extensions_put e ty len body) = exts_view e @ [(ty, body)]
    \<and> unat (exts_count (extensions_put e ty len body)) = unat (exts_count e) + 1"
proof -
  let ?i = "unat (exts_count e)"
  have "ext_ok (exts_items e ! ?i)" using assms by (simp add: exts_ok_def list_all_length)
  then have b: "length (ext_body (exts_items e ! ?i)) = 512" by (simp add: ext_ok_def)
  have c: "unat (exts_count e + 1) = ?i + 1" using assms(2) by (simp add: unat_u8_succ)
  show ?thesis
    using assms b
    by (auto simp: extensions_put_def Let_def exts_ok_def exts_view_def c take_Suc_conv_app_nth ext_view_def ext_ok_def
        write_at_def list_all_length nth_list_update)
qed

lemma ext_decode_loop_tlvs:
  assumes "list_all (\<lambda>x. length (snd x) < 65536) xs" "exts_ok e"
    "drop off p = concat (map tlv xs) @ rest" "end_off = off + length (concat (map tlv xs))" "off \<le> length p"
  shows "\<exists>e'. ext_decode_loop p off end_off e = (0, e') \<and> exts_ok e' \<and>
    exts_view e' = exts_view e @ take (16 - unat (exts_count e)) (filter (\<lambda>x. length (snd x) \<le> 512) xs)"
  using assms
proof (induction xs arbitrary: off e)
  case Nil
  then show ?case by (simp add: ext_decode_loop.simps)
next
  case (Cons x xs)
  define L where "L = length (snd x)"
  define e1 where "e1 = (if L \<le> 512 \<and> unat (exts_count e) < 16
    then extensions_put e (fst x) (of_nat L) (snd x) else e)"
  have L: "L < 65536" using Cons.prems(1) by (simp add: L_def)
  have p: "drop off p = pack_u16 (fst x) @ pack_u16 (of_nat L) @ snd x @ concat (map tlv xs) @ rest"
    using Cons.prems(3) by (simp add: tlv_def [of x] L_def)
  have d: "drop (off + n) p = drop n (drop off p)" for n by (simp add: add.commute)
  have f: "unpack_u16 (drop off p) = fst x" "unpack_u16 (drop (off + 2) p) = of_nat L"
    "take L (drop (off + 4) p) = snd x" "drop (off + (4 + L)) p = concat (map tlv xs) @ rest"
    unfolding d p by (simp_all add: L_def)
  have "4 + L \<le> length (drop off p)" unfolding p by (simp add: L_def)
  then have len: "off + (4 + L) \<le> length p" using Cons.prems(5) by simp
  have e1: "exts_ok e1" "exts_view e1 = exts_view e @ (if L \<le> 512 \<and> unat (exts_count e) < 16 then [x] else [])"
    "unat (exts_count e1) = unat (exts_count e) + (if L \<le> 512 \<and> unat (exts_count e) < 16 then 1 else 0)"
    using extensions_put_view [OF Cons.prems(2), of "of_nat L" "snd x" "fst x"] Cons.prems(2) L
    by (auto simp: e1_def L_def)
  have "ext_decode_loop p off end_off e = ext_decode_loop p (off + (4 + L)) end_off e1"
    using Cons.prems(4) f L by (subst ext_decode_loop.simps) (simp add: Let_def e1_def length_tlv L_def)
  moreover have "\<exists>e'. ext_decode_loop p (off + (4 + L)) end_off e1 = (0, e') \<and> exts_ok e' \<and>
      exts_view e' = exts_view e1 @ take (16 - unat (exts_count e1)) (filter (\<lambda>x. length (snd x) \<le> 512) xs)"
    using Cons.prems(1,4) e1(1) f(4) len by (intro Cons.IH) (auto simp: length_tlv L_def)
  ultimately show ?case
    using e1(2,3) by (auto simp: L_def Suc_diff_Suc take_Cons')
qed

lemma length_tlv_le: "x \<in> set xs \<Longrightarrow> length (snd x) \<le> length (concat (map tlv xs))"
  by (induction xs) (auto simp: length_tlv)

lemma sl_extensions_decode_tlvs:
  assumes "length (concat (map tlv xs)) < 65536"
  shows "\<exists>e'. sl_extensions_decode (Some (pack_u16 (of_nat (length (concat (map tlv xs)))) @ concat (map tlv xs) @ rest)) (Some e0)
    = (0, Some e') \<and> exts_ok e' \<and> exts_view e' = take 16 (filter (\<lambda>x. length (snd x) \<le> 512) xs)"
proof -
  let ?n = "length (concat (map tlv xs))"
  let ?p = "pack_u16 (of_nat ?n) @ concat (map tlv xs) @ rest"
  let ?z = "\<lparr>exts_items = replicate 16 extension_zero, exts_count = 0\<rparr>"
  have small: "list_all (\<lambda>x. length (snd x) < 65536) xs"
    using assms length_tlv_le by (fastforce simp: list_all_iff)
  have z: "exts_ok ?z" "exts_view ?z = []"
    by (simp_all add: exts_ok_def exts_view_def ext_ok_def extension_zero_def list_all_iff)
  have "\<exists>e'. ext_decode_loop ?p 2 (2 + ?n) ?z = (0, e') \<and> exts_ok e' \<and>
      exts_view e' = exts_view ?z @ take (16 - unat (exts_count ?z)) (filter (\<lambda>x. length (snd x) \<le> 512) xs)"
    using small z(1) by (intro ext_decode_loop_tlvs) simp_all
  then obtain e' where e': "ext_decode_loop ?p 2 (2 + ?n) ?z = (0, e')" "exts_ok e'"
      "exts_view e' = take 16 (filter (\<lambda>x. length (snd x) \<le> 512) xs)"
    by (auto simp: z(2))
  show ?thesis
    unfolding sl_extensions_decode_def using e' assms by (simp add: sl_extensions_init_def Let_def)
qed

lemma exts_view_bounds:
  assumes "exts_ok e"
  shows "length (exts_view e) \<le> 16" "list_all (\<lambda>x. length (snd x) \<le> 512) (exts_view e)"
  using assms
  by (auto simp: exts_ok_def exts_view_def list_all_iff ext_view_def ext_ok_def dest!: in_set_takeD)

lemma length_tlvs_le:
  "list_all (\<lambda>x. length (snd x) \<le> 512) xs \<Longrightarrow> length (concat (map tlv xs)) \<le> 516 * length xs"
  by (induction xs) (auto simp: length_tlv)

lemma sl_extensions_encode_eq:
  assumes "exts_ok e"
  shows "sl_extensions_encode (Some e) (Some cap) =
    (let body = concat (map tlv (exts_view e)) in
     if cap < 2 + length body then None else Some (pack_u16 (of_nat (length body)) @ body))"
proof -
  have "ext_encode_loop (exts_items e) (unat (exts_count e)) 0 = concat (map tlv (exts_view e))"
    using assms by (simp add: exts_ok_def exts_view_def ext_encode_loop_eq)
  moreover have "ext_inner_loop (exts_items e) (unat (exts_count e)) 0 0 =
      Some (0 + length (ext_encode_loop (exts_items e) (unat (exts_count e)) 0))"
    using assms by (intro ext_inner_loop_eq) (auto simp: exts_ok_def)
  ultimately show ?thesis by (simp add: sl_extensions_encode_def Let_def)
qed

text \<open>
  Extension blocks survive the wire: decoding the encoding of a well-formed list, whatever
  bytes follow it, gives a well-formed list with the same types and bodies in the same order, so
  a lookup by type finds the same extension on both sides.
\<close>

theorem extensions_roundtrip:
  assumes "exts_ok e" "sl_extensions_encode (Some e) out = Some w"
  shows "\<exists>e'. sl_extensions_decode (Some (w @ rest)) (Some e0) = (0, Some e') \<and> exts_ok e' \<and> exts_view e' = exts_view e"
proof -
  let ?b = "concat (map tlv (exts_view e))"
  have w: "w = pack_u16 (of_nat (length ?b)) @ ?b"
    using assms by (cases out) (auto simp: sl_extensions_encode_eq Let_def sl_extensions_encode_def [of _ None] split: if_splits)
  have "length ?b < 65536"
    using length_tlvs_le [OF exts_view_bounds(2) [OF assms(1)]] exts_view_bounds(1) [OF assms(1)] by linarith
  moreover have "filter (\<lambda>x. length (snd x) \<le> 512) (exts_view e) = exts_view e"
    using exts_view_bounds(2) [OF assms(1)] by (simp add: list_all_iff)
  ultimately show ?thesis
    using sl_extensions_decode_tlvs [of "exts_view e" rest e0] exts_view_bounds(1) [OF assms(1)] by (simp add: w)
qed

theorem extensions_roundtrip_witness:
  "let e = \<lparr>exts_items = \<lparr>ext_type = 3, ext_len = 2, ext_body = [7, 8] @ replicate 510 0\<rparr> # replicate 15 extension_zero, exts_count = 1\<rparr>
   in \<exists>e'. sl_extensions_decode (Some ([0, 6, 0, 3, 0, 2, 7, 8] @ [9])) (Some e) = (0, Some e') \<and> exts_view e' = [(3, [7, 8])]"
proof -
  let ?e = "\<lparr>exts_items = \<lparr>ext_type = 3, ext_len = 2, ext_body = [7, 8] @ replicate 510 0\<rparr> # replicate 15 extension_zero, exts_count = 1\<rparr>"
  have ok: "exts_ok ?e" by (simp add: exts_ok_def ext_ok_def extension_zero_def list_all_iff)
  have view: "exts_view ?e = [(3, [7, 8])]" by (simp add: exts_view_def ext_view_def)
  have "sl_extensions_encode (Some ?e) (Some 64) = Some [0, 6, 0, 3, 0, 2, 7, 8]"
    unfolding sl_extensions_encode_eq [OF ok] view by (simp add: tlv_def pack_u16_def Let_def)
  from extensions_roundtrip [OF ok this, of "[9]" ?e] show ?thesis
    unfolding Let_def view by blast
qed

text \<open>
  A block with more than 16 extensions, or one with a body above 512 bytes, does not fail to
  decode: what does not fit is dropped and the decoder reports success.
\<close>

lemma extensions_over_limit_dropped:
  "\<exists>e'. sl_extensions_decode (Some (pack_u16 68 @ concat (replicate 17 (tlv (9, []))))) (Some e0) = (0, Some e')
     \<and> length (exts_view e') = 16"
proof -
  have m: "map tlv (replicate 17 (9, [])) = replicate 17 (tlv (9, []))" by simp
  have len: "length (concat (replicate 17 (tlv (9, [])))) = 68" by (simp add: length_concat length_tlv sum_list_replicate)
  obtain e' where "sl_extensions_decode (Some (pack_u16 68 @ concat (replicate 17 (tlv (9, []))))) (Some e0) = (0, Some e')"
      and "exts_view e' = take 16 (filter (\<lambda>x. length (snd x) \<le> 512) (replicate 17 (9, [])))"
    using sl_extensions_decode_tlvs [of "replicate 17 (9, [])" "[]" e0] unfolding m len by auto
  then show ?thesis by simp
qed

end
