(* ===== verification/SL_Handshake.thy ===== *)
theory SL_Handshake
  imports SL_Interfaces
begin

text \<open>
  Handshake messages and alerts: \<open>src/sl_handshake_msg.c\<close>, \<open>src/sl_alert.c\<close>,
  \<open>src/sl_alert_ext.c\<close>, \<open>src/sl_close_notify.c\<close>, \<open>src/sl_diag_code.c\<close> and
  \<open>src/sl_server_name.c\<close>. A \<open>switch\<close> that names the value of an enumeration is a table.
\<close>

subsection \<open>Handshake headers and hello bodies\<close>

type_synonym sl_hs_type_t = int

abbreviation (input) SL_HS_HEADER_LEN :: nat where "SL_HS_HEADER_LEN \<equiv> 4"
abbreviation (input) SL_HS_MAX_PAYLOAD :: nat where "SL_HS_MAX_PAYLOAD \<equiv> 2048"
abbreviation (input) SL_HS_RANDOM_LEN :: nat where "SL_HS_RANDOM_LEN \<equiv> 32"
abbreviation (input) SL_ECDH_PUBKEY_LEN :: nat where "SL_ECDH_PUBKEY_LEN \<equiv> 65"
abbreviation (input) SL_HS_HELLO_BODY_LEN :: nat where "SL_HS_HELLO_BODY_LEN \<equiv> 99"

record sl_hs_hello_t =
  hello_random :: bytes
  hello_ecdh_pub :: bytes
  hello_cipher :: u16

definition sl_hs_pack_header :: "out_ref \<Rightarrow> sl_hs_type_t \<Rightarrow> u32 \<Rightarrow> bytes option" where
  "sl_hs_pack_header out ty payload_len =
     (if out = NULL then None
      else if payload_len > 0xFFFFFF then None
      else Some [word_of_int ty, ucast (drop_bit 16 payload_len AND 0xFF),
                 ucast (drop_bit 8 payload_len AND 0xFF), ucast (payload_len AND 0xFF)])"

text \<open>The type and length are written even when the length is refused.\<close>

definition sl_hs_unpack_header ::
  "bytes ptr \<Rightarrow> out_ref \<Rightarrow> out_ref \<Rightarrow> int \<times> (sl_hs_type_t \<times> u32) option" where
  "sl_hs_unpack_header inp type_out payload_len_out =
     (case (inp, type_out, payload_len_out) of
        (Some p, Some _, Some _) \<Rightarrow>
          let n = push_bit 16 (ucast (p ! 1)) OR push_bit 8 (ucast (p ! 2)) OR ucast (p ! 3)
          in (if unat n > SL_HS_MAX_PAYLOAD then - 1 else 0, Some (uint (p ! 0), n))
      | _ \<Rightarrow> (- 1, None))"

definition sl_hs_pack_hello :: "sl_hs_hello_t ptr \<Rightarrow> out_buf \<Rightarrow> bytes option" where
  "sl_hs_pack_hello h out =
     (case (h, out) of
        (Some m, Some cap) \<Rightarrow>
          if cap < SL_HS_HELLO_BODY_LEN then None
          else Some (take SL_HS_RANDOM_LEN (hello_random m) @ take SL_ECDH_PUBKEY_LEN (hello_ecdh_pub m)
                     @ [ucast (drop_bit 8 (hello_cipher m)), ucast (hello_cipher m AND 0xFF)])
      | _ \<Rightarrow> None)"

definition sl_hs_unpack_hello :: "bytes ptr \<Rightarrow> out_ref \<Rightarrow> sl_hs_hello_t option" where
  "sl_hs_unpack_hello inp out =
     (case (inp, out) of
        (Some p, Some _) \<Rightarrow>
          if length p \<noteq> SL_HS_HELLO_BODY_LEN then None
          else Some \<lparr>hello_random = take 32 p, hello_ecdh_pub = take 65 (drop 32 p),
                     hello_cipher = push_bit 8 (ucast (p ! 97)) OR ucast (p ! 98)\<rparr>
      | _ \<Rightarrow> None)"

definition switch_name :: "(int \<times> string) list \<Rightarrow> string \<Rightarrow> int \<Rightarrow> string" where
  "switch_name table dflt c = (case map_of table c of None \<Rightarrow> dflt | Some s \<Rightarrow> s)"

definition sl_hs_type_name :: "sl_hs_type_t \<Rightarrow> string" where
  "sl_hs_type_name = switch_name
     [(0, ''invalid''), (1, ''client_hello''), (2, ''server_hello''), (3, ''certificate''),
      (4, ''certificate_verify''), (5, ''finished'')] ''?''"

subsection \<open>Alerts\<close>

type_synonym sl_alert_code_t = int
type_synonym sl_diag_code_t = int

abbreviation (input) SL_ALERT_LEVEL_WARNING :: u8 where "SL_ALERT_LEVEL_WARNING \<equiv> 1"
abbreviation (input) SL_ALERT_LEVEL_FATAL :: u8 where "SL_ALERT_LEVEL_FATAL \<equiv> 2"

definition sl_alert_pack :: "u8 \<Rightarrow> sl_alert_code_t \<Rightarrow> out_ref \<Rightarrow> bytes option" where
  "sl_alert_pack level code out =
     (if out = NULL then None
      else if level \<noteq> SL_ALERT_LEVEL_WARNING \<and> level \<noteq> SL_ALERT_LEVEL_FATAL then None
      else Some [level, word_of_int code])"

definition sl_alert_unpack :: "bytes ptr \<Rightarrow> out_ref \<Rightarrow> out_ref \<Rightarrow> (u8 \<times> sl_alert_code_t) option" where
  "sl_alert_unpack inp level_out code_out =
     (case (inp, level_out, code_out) of
        (Some p, Some _, Some _) \<Rightarrow>
          if p ! 0 \<noteq> SL_ALERT_LEVEL_WARNING \<and> p ! 0 \<noteq> SL_ALERT_LEVEL_FATAL then None
          else Some (p ! 0, uint (p ! 1))
      | _ \<Rightarrow> None)"

definition sl_alert_code_name :: "sl_alert_code_t \<Rightarrow> string" where
  "sl_alert_code_name = switch_name
     [(0, ''close_notify''), (10, ''unexpected_record''), (20, ''bad_record_mac''),
      (22, ''record_overflow''), (40, ''handshake_failure''), (42, ''bad_certificate''),
      (51, ''decrypt_error''), (70, ''protocol_version''), (80, ''internal_error''),
      (90, ''user_canceled''), (100, ''rate_limited''), (101, ''replay''), (102, ''quarantined'')]
     ''unknown''"

definition sl_alert_ext_pack ::
  "u8 \<Rightarrow> sl_alert_code_t \<Rightarrow> sl_diag_code_t \<Rightarrow> out_ref \<Rightarrow> bytes option" where
  "sl_alert_ext_pack level legacy diag out =
     (if out = NULL then None
      else if level \<noteq> SL_ALERT_LEVEL_WARNING \<and> level \<noteq> SL_ALERT_LEVEL_FATAL then None
      else let d = (word_of_int diag :: u16)
           in Some [level, word_of_int legacy, ucast (drop_bit 8 d), ucast (d AND 0xFF)])"

definition sl_alert_ext_unpack ::
  "bytes ptr \<Rightarrow> out_ref \<Rightarrow> out_ref \<Rightarrow> out_ref \<Rightarrow> (u8 \<times> sl_alert_code_t \<times> sl_diag_code_t) option" where
  "sl_alert_ext_unpack inp level_out legacy_out diag_out =
     (case (inp, level_out, legacy_out, diag_out) of
        (Some p, Some _, Some _, Some _) \<Rightarrow>
          if p ! 0 \<noteq> SL_ALERT_LEVEL_WARNING \<and> p ! 0 \<noteq> SL_ALERT_LEVEL_FATAL then None
          else Some (p ! 0, uint (p ! 1), uint (push_bit 8 (ucast (p ! 2)) OR ucast (p ! 3) :: u16))
      | _ \<Rightarrow> None)"

text \<open>The closest legacy alert of a diagnostic code, \<open>SL_ALERT_INTERNAL_ERROR\<close> by default.\<close>

definition sl_alert_from_diag :: "sl_diag_code_t \<Rightarrow> sl_alert_code_t" where
  "sl_alert_from_diag diag =
     (case map_of
        [(0x1001, 70), (0x1002, 40), (0x1003, 20), (0x1004, 10), (0x1005, 40), (0x1006, 22),
         (0x2001, 20), (0x2002, 51), (0x2003, 42), (0x2004, 40), (0x3001, 100), (0x3004, 101),
         (0x3003, 102), (0x4002, 42)] diag of
        None \<Rightarrow> 80
      | Some a \<Rightarrow> a)"

definition sl_close_notify_pack :: "out_ref \<Rightarrow> bytes option" where
  "sl_close_notify_pack out = (if out = NULL then None else Some [SL_ALERT_LEVEL_FATAL, 0])"

definition sl_close_notify_is :: "bytes ptr \<Rightarrow> int" where
  "sl_close_notify_is buf =
     (case buf of
        None \<Rightarrow> 0
      | Some b \<Rightarrow> if length b \<noteq> 2 then 0
                 else if b ! 0 = SL_ALERT_LEVEL_FATAL \<and> b ! 1 = 0 then 1 else 0)"

definition sl_diag_code_name :: "sl_diag_code_t \<Rightarrow> string" where
  "sl_diag_code_name = switch_name
     [(0, ''ok''), (0x1001, ''version_mismatch''), (0x1002, ''cipher_mismatch''), (0x1003, ''bad_record''),
      (0x1004, ''unexpected_message''), (0x1005, ''bad_extension''), (0x1006, ''oversize''),
      (0x2001, ''bad_mac''), (0x2002, ''decrypt_fail''), (0x2003, ''bad_signature''), (0x2004, ''bad_ecdh''),
      (0x2005, ''kdf_fail''), (0x2006, ''rng_fail''), (0x3001, ''rate_limited''), (0x3002, ''locked_out''),
      (0x3003, ''quarantined''), (0x3004, ''replay''), (0x3005, ''clock_skew''), (0x4001, ''peer_unknown''),
      (0x4002, ''pin_mismatch''), (0x4003, ''ticket_expired''), (0x4004, ''ticket_invalid''),
      (0x5001, ''out_of_memory''), (0x5002, ''too_many_connections''), (0x5003, ''io_error''),
      (0x5004, ''timeout''), (0x9001, ''internal''), (0x9002, ''not_implemented'')] ''unknown''"

definition sl_diag_category :: "sl_diag_code_t \<Rightarrow> string" where
  "sl_diag_category c =
     switch_name
       [(0, ''ok''), (0x1000, ''protocol''), (0x2000, ''crypto''), (0x3000, ''policy''), (0x4000, ''identity''),
        (0x5000, ''resource''), (0x9000, ''internal'')] ''unknown''
       (uint ((word_of_int c :: u16) AND 0xF000))"

subsection \<open>Server names\<close>

abbreviation (input) SL_SERVER_NAME_MAX_LEN :: nat where "SL_SERVER_NAME_MAX_LEN \<equiv> 253"
abbreviation (input) DOT :: u8 where "DOT \<equiv> 46"
abbreviation (input) HYPHEN :: u8 where "HYPHEN \<equiv> 45"

record sl_server_name_t =
  sn_name_type :: u8
  sn_host :: bytes
  sn_host_len :: u8

fun host_loop :: "bytes \<Rightarrow> nat \<Rightarrow> bool" where
  "host_loop [] label_len = (label_len > 0 \<and> label_len \<le> 63)"
| "host_loop (c # cs) label_len =
     (if c = DOT then
        if label_len = 0 \<or> label_len > 63 then False else host_loop cs 0
      else if \<not> (c_isalnum c \<or> c = HYPHEN) then False
      else if c = HYPHEN \<and> label_len = 0 then False
      else host_loop cs (label_len + 1))"

definition sl_server_name_is_valid_host :: "bytes ptr \<Rightarrow> nat \<Rightarrow> bool" where
  "sl_server_name_is_valid_host host len =
     (case host of
        None \<Rightarrow> False
      | Some h \<Rightarrow>
          if len = 0 \<or> len > SL_SERVER_NAME_MAX_LEN then False
          else if h ! 0 = DOT \<or> h ! (len - 1) = DOT then False
          else host_loop (take len h) 0)"

definition sl_server_name_pack :: "sl_server_name_t ptr \<Rightarrow> out_buf \<Rightarrow> bytes option" where
  "sl_server_name_pack sn out =
     (case (sn, out) of
        (Some s, Some out_cap) \<Rightarrow>
          let n = unat (sn_host_len s) in
          if \<not> sl_server_name_is_valid_host (Some (sn_host s)) n then None
          else if out_cap < 1 + 2 + n then None
          else Some ([sn_name_type s, of_nat (n div 256), of_nat (n mod 256)] @ take n (sn_host s))
      | _ \<Rightarrow> None)"

text \<open>The output is cleared as soon as the header is there, whatever the outcome.\<close>

definition sl_server_name_unpack :: "bytes ptr \<Rightarrow> sl_server_name_t ptr \<Rightarrow> int \<times> sl_server_name_t ptr" where
  "sl_server_name_unpack inp out =
     (case (inp, out) of
        (Some p, Some _) \<Rightarrow>
          if length p < 3 then (- 1, out)
          else
            let out1 = \<lparr>sn_name_type = p ! 0, sn_host = replicate (SL_SERVER_NAME_MAX_LEN + 1) 0, sn_host_len = 0\<rparr>;
                hl = unat (push_bit 8 (ucast (p ! 1)) OR ucast (p ! 2) :: u16) in
            if hl > SL_SERVER_NAME_MAX_LEN then (- 1, Some out1)
            else if length p < 3 + hl then (- 1, Some out1)
            else
              let host = (write_at 0 (take hl (drop 3 p)) (sn_host out1))[hl := 0];
                  out2 = out1\<lparr>sn_host := host, sn_host_len := of_nat hl\<rparr>
              in if sl_server_name_is_valid_host (Some (sn_host out2)) (unat (sn_host_len out2))
                 then (0, Some out2) else (- 1, Some out2)
      | _ \<Rightarrow> (- 1, out))"

subsection \<open>Wire round trips\<close>

lemma low_byte: "ucast (v AND 0xFF :: u16) = (ucast v :: u8)" "ucast (w AND 0xFF :: u32) = (ucast w :: u8)"
proof -
  have "(0xFF :: u16) = mask 8" "(0xFF :: u32) = mask 8" by (simp_all add: mask_eq_exp_minus_1)
  then show "ucast (v AND 0xFF :: u16) = (ucast v :: u8)" "ucast (w AND 0xFF :: u32) = (ucast w :: u8)"
    by (auto simp: bit_eq_iff bit_simps)
qed

lemma pack_u16_alt: "[ucast (drop_bit 8 v), ucast (v AND 0xFF)] = pack_u16 v"
  by (simp add: pack_u16_def low_byte)

lemma unpack_u16_alt: "push_bit 8 (ucast a) OR ucast b = unpack_u16 [a, b]"
  by (simp add: unpack_u16_def)

lemma sl_hs_header_roundtrip:
  assumes "unat n \<le> SL_HS_MAX_PAYLOAD" "0 \<le> ty" "ty < 256" "sl_hs_pack_header OUT ty n = Some w"
  shows "sl_hs_unpack_header (Some (w @ rest)) OUT OUT = (0, Some (ty, n)) \<and> length w = SL_HS_HEADER_LEN"
proof -
  have "drop_bit 24 n = 0"
    using assms(1) by (simp add: drop_bit_eq_div unat_div flip: unat_eq_0)
  then have "pack_u32 n = [0, ucast (drop_bit 16 n), ucast (drop_bit 8 n), ucast n]"
    by (simp add: pack_u32_def)
  then have "unpack_u32 [0, ucast (drop_bit 16 n), ucast (drop_bit 8 n), ucast n] = n"
    using unpack_pack_u32 [of n "[]"] by simp
  then have "push_bit 16 (ucast (ucast (drop_bit 16 n) :: u8)) OR push_bit 8 (ucast (ucast (drop_bit 8 n) :: u8))
      OR ucast (ucast n :: u8) = n"
    by (simp add: unpack_u32_def or.assoc)
  with assms show ?thesis
    by (auto simp: sl_hs_pack_header_def sl_hs_unpack_header_def low_byte Let_def uint_word_of_int split: if_splits)
qed

text \<open>A length the packer accepts and every receiver refuses.\<close>

lemma sl_hs_header_oversize:
  "\<exists>w. sl_hs_pack_header OUT 1 2049 = Some w \<and> fst (sl_hs_unpack_header (Some w) OUT OUT) = - 1"
  by (simp add: sl_hs_pack_header_def sl_hs_unpack_header_def Let_def)

definition hello_ok :: "sl_hs_hello_t \<Rightarrow> bool" where
  "hello_ok h \<longleftrightarrow> length (hello_random h) = 32 \<and> length (hello_ecdh_pub h) = 65"

lemma sl_hs_hello_roundtrip:
  assumes "hello_ok h" "sl_hs_pack_hello (Some h) out = Some w"
  shows "sl_hs_unpack_hello (Some w) OUT = Some h \<and> length w = SL_HS_HELLO_BODY_LEN"
proof -
  have w: "w = hello_random h @ hello_ecdh_pub h @ pack_u16 (hello_cipher h)"
    using assms by (auto simp: sl_hs_pack_hello_def hello_ok_def pack_u16_alt split: option.splits if_splits)
  have "[w ! 97, w ! 98] = pack_u16 (hello_cipher h)"
    using assms(1) by (simp add: w hello_ok_def nth_append pack_u16_def)
  then have "push_bit 8 (ucast (w ! 97)) OR ucast (w ! 98) = hello_cipher h"
    unfolding unpack_u16_alt using unpack_pack_u16 [of "hello_cipher h" "[]"] by simp
  then show ?thesis using assms(1) by (simp add: sl_hs_unpack_hello_def w hello_ok_def)
qed

lemma sl_alert_roundtrip:
  assumes "0 \<le> code" "code < 256" "sl_alert_pack level code OUT = Some w"
  shows "sl_alert_unpack (Some w) OUT OUT = Some (level, code)"
  using assms by (auto simp: sl_alert_pack_def sl_alert_unpack_def uint_word_of_int split: if_splits)

lemma sl_alert_ext_roundtrip:
  assumes "0 \<le> legacy" "legacy < 256" "0 \<le> diag" "diag < 65536" "sl_alert_ext_pack level legacy diag OUT = Some w"
  shows "sl_alert_ext_unpack (Some w) OUT OUT OUT = Some (level, legacy, diag)"
proof -
  have "unpack_u16 (pack_u16 (word_of_int diag)) = (word_of_int diag :: u16)"
    using unpack_pack_u16 [of "word_of_int diag" "[]"] by simp
  then have "push_bit 8 (ucast (ucast (drop_bit 8 (word_of_int diag :: u16)) :: u8)) OR ucast (ucast (word_of_int diag :: u16) :: u8)
      = (word_of_int diag :: u16)"
    by (simp add: unpack_u16_def pack_u16_def)
  with assms show ?thesis
    by (auto simp: sl_alert_ext_pack_def sl_alert_ext_unpack_def Let_def low_byte uint_word_of_int split: if_splits)
qed

text \<open>
  Alerts survive the wire, in the short and in the extended form, for every level and code
  the packers accept; the close notification is the only two-byte payload taken for one, and it is
  the fatal alert with the code close notify.
\<close>

theorem alerts_roundtrip:
  assumes "0 \<le> code" "code < 256" "0 \<le> diag" "diag < 65536"
  shows "(sl_alert_pack level code OUT = Some w \<longrightarrow> sl_alert_unpack (Some w) OUT OUT = Some (level, code))
    \<and> (sl_alert_ext_pack level code diag OUT = Some w \<longrightarrow> sl_alert_ext_unpack (Some w) OUT OUT OUT = Some (level, code, diag))
    \<and> (sl_close_notify_is (Some w) = 1 \<longleftrightarrow> sl_close_notify_pack OUT = Some w)
    \<and> (sl_close_notify_is (Some w) = 1 \<longleftrightarrow> sl_alert_pack SL_ALERT_LEVEL_FATAL 0 OUT = Some w)"
proof -
  have "sl_close_notify_is (Some w) = 1 \<longleftrightarrow> w = [2, 0]"
    by (auto simp: sl_close_notify_is_def length_Suc_conv numeral_2_eq_2)
  then show ?thesis
    using sl_alert_roundtrip [OF assms(1,2)] sl_alert_ext_roundtrip [OF assms]
    by (auto simp: sl_close_notify_pack_def sl_alert_pack_def)
qed

theorem alerts_roundtrip_witness:
  "sl_alert_pack 2 40 OUT = Some [2, 40] \<and> sl_alert_unpack (Some [2, 40]) OUT OUT = Some (2, 40)
   \<and> sl_alert_ext_pack 2 40 0x1002 OUT = Some [2, 40, 0x10, 2]
   \<and> sl_alert_ext_unpack (Some [2, 40, 0x10, 2]) OUT OUT OUT = Some (2, 40, 0x1002)"
proof -
  have a: "sl_alert_pack 2 40 OUT = Some [2, 40]" and b: "sl_alert_ext_pack 2 40 0x1002 OUT = Some [2, 40, 0x10, 2]"
    by (simp_all add: sl_alert_pack_def sl_alert_ext_pack_def)
  from alerts_roundtrip [of 40 "0x1002", where level = 2 and w = "[2, 40]"]
    alerts_roundtrip [of 40 "0x1002", where level = 2 and w = "[2, 40, 0x10, 2]"] a b
  show ?thesis by simp
qed

subsection \<open>Host names\<close>

definition host_char :: "u8 \<Rightarrow> bool" where
  "host_char c \<longleftrightarrow> c_isalnum c \<or> c = HYPHEN"

definition host_label :: "bytes \<Rightarrow> bool" where
  "host_label l \<longleftrightarrow> 0 < length l \<and> length l \<le> 63 \<and> list_all host_char l \<and> hd l \<noteq> HYPHEN"

lemma dot_not_host_char: "\<not> host_char DOT"
  by (simp add: host_char_def c_isalnum_def)

lemma host_loop_eq:
  "host_loop cs n \<longleftrightarrow>
     (let l = hd (split_on DOT cs) in
      0 < n + length l \<and> n + length l \<le> 63 \<and> list_all host_char l \<and> (n = 0 \<and> l \<noteq> [] \<longrightarrow> hd l \<noteq> HYPHEN)
      \<and> list_all host_label (tl (split_on DOT cs)))"
proof (induction cs arbitrary: n)
  case (Cons c cs)
  obtain l ls where "split_on DOT cs = l # ls" by (cases "split_on DOT cs") auto
  then show ?case
    using Cons.IH [of 0] Cons.IH [of "n + 1"]
    by (auto simp: Let_def host_char_def [of c] host_label_def)
qed (auto simp: Let_def)

lemma valid_host_iff:
  assumes "n \<le> length h"
  shows "sl_server_name_is_valid_host (Some h) n \<longleftrightarrow>
    0 < n \<and> n \<le> SL_SERVER_NAME_MAX_LEN \<and> list_all host_label (split_on DOT (take n h))"
proof (cases "0 < n")
  case True
  let ?s = "take n h"
  have ne: "?s \<noteq> []" using True assms by auto
  have first: "h ! 0 = hd ?s" and last: "h ! (n - Suc 0) = last ?s"
    using True assms ne by (simp_all add: hd_conv_nth last_conv_nth)
  obtain l ls where sp: "split_on DOT ?s = l # ls" by (cases "split_on DOT ?s") auto
  have "hd ?s = DOT \<Longrightarrow> l = []" using ne sp by (cases ?s) auto
  moreover have "last ?s = DOT \<Longrightarrow> [] \<in> set (l # ls)"
    using ne split_on_snoc_sep [of DOT "butlast ?s"] append_butlast_last_id [OF ne] sp by (metis in_set_conv_decomp)
  ultimately show ?thesis
    using True by (auto simp: sl_server_name_is_valid_host_def first last host_loop_eq sp Let_def host_label_def list_all_iff)
qed (simp add: sl_server_name_is_valid_host_def)

definition sn_name :: "sl_server_name_t \<Rightarrow> bytes" where
  "sn_name s = take (unat (sn_host_len s)) (sn_host s)"

lemma server_name_field:
  "n \<le> 253 \<Longrightarrow> push_bit 8 (ucast (of_nat (n div 256) :: u8)) OR ucast (of_nat (n mod 256) :: u8) = (of_nat n :: u16)"
proof -
  assume "n \<le> 253"
  then have "n div 256 = 0" "n mod 256 = n" by auto
  moreover have "unat (of_nat n :: u8) = n" using \<open>n \<le> 253\<close> by (simp add: unat_of_nat take_bit_eq_mod)
  ultimately show ?thesis using \<open>n \<le> 253\<close> by (simp add: word_unat_eq_iff)
qed

lemma sl_server_name_unpack_accepts:
  assumes "sl_server_name_unpack (Some p) (Some s0) = (0, Some s)"
  shows "sn_name s = take (unat (sn_host_len s)) (drop 3 p) \<and> sn_name_type s = p ! 0 \<and> length (sn_name s) = unat (sn_host_len s)
    \<and> sl_server_name_is_valid_host (Some (sn_name s)) (unat (sn_host_len s))"
proof -
  define hl where "hl = unat (push_bit 8 (ucast (p ! 1)) OR ucast (p ! 2) :: u16)"
  let ?host = "(write_at 0 (take hl (drop 3 p)) (replicate 254 0))[hl := 0]"
  have hl: "hl \<le> 253" "3 + hl \<le> length p" and s: "sn_name_type s = p ! 0" "sn_host s = ?host" "sn_host_len s = of_nat hl"
    and v: "sl_server_name_is_valid_host (Some ?host) (unat (of_nat hl :: u8))"
    using assms by (auto simp: sl_server_name_unpack_def Let_def hl_def split: if_splits)
  have u: "unat (of_nat hl :: u8) = hl" using hl by (simp add: unat_of_nat take_bit_eq_mod)
  have t: "take hl ?host = take hl (drop 3 p)" using hl by (simp add: write_at_def)
  have len: "length ?host = 254" using hl by simp
  have "sn_name s = take hl (drop 3 p)" using s t u by (simp add: sn_name_def)
  moreover have "sl_server_name_is_valid_host (Some (take hl (drop 3 p))) hl"
    using v hl len t u by (simp add: valid_host_iff)
  ultimately show ?thesis using s u hl by simp
qed

text \<open>
  Server names. \<open>sl_server_name_unpack\<close> succeeds only on names that are a sequence of
  labels separated by dots, each of 1 to 63 letters, digits and hyphens not starting with a hyphen,
  at most 253 bytes in all, and it returns the bytes of the message. What
  \<open>sl_server_name_pack\<close> writes is unpacked to the same type and name, whatever follows it.
\<close>

theorem server_name_wire:
  shows "(sl_server_name_unpack (Some p) (Some s0) = (0, Some s) \<longrightarrow>
      0 < length (sn_name s) \<and> length (sn_name s) \<le> SL_SERVER_NAME_MAX_LEN
      \<and> list_all host_label (split_on DOT (sn_name s)) \<and> sn_name s = take (length (sn_name s)) (drop 3 p))
    \<and> (length (sn_host t) = 254 \<longrightarrow> sl_server_name_pack (Some t) out = Some w \<longrightarrow>
      (\<exists>t'. sl_server_name_unpack (Some (w @ rest)) (Some s0) = (0, Some t')
        \<and> sn_name_type t' = sn_name_type t \<and> sn_name t' = sn_name t))"
proof (intro conjI impI)
  assume "sl_server_name_unpack (Some p) (Some s0) = (0, Some s)"
  note a = sl_server_name_unpack_accepts [OF this]
  then have "sl_server_name_is_valid_host (Some (sn_name s)) (length (sn_name s))" by metis
  then have "0 < length (sn_name s) \<and> length (sn_name s) \<le> 253 \<and> list_all host_label (split_on DOT (sn_name s))"
    by (simp add: valid_host_iff)
  moreover have "sn_name s = take (length (sn_name s)) (drop 3 p)" using a by metis
  ultimately show "0 < length (sn_name s)" "length (sn_name s) \<le> SL_SERVER_NAME_MAX_LEN"
    "list_all host_label (split_on DOT (sn_name s))" "sn_name s = take (length (sn_name s)) (drop 3 p)"
    by blast+
next
  assume len: "length (sn_host t) = 254" and pack: "sl_server_name_pack (Some t) out = Some w"
  define n where "n = unat (sn_host_len t)"
  have v: "sl_server_name_is_valid_host (Some (sn_host t)) n"
    and w: "w = [sn_name_type t, of_nat (n div 256), of_nat (n mod 256)] @ take n (sn_host t)"
    using pack by (auto simp: sl_server_name_pack_def n_def Let_def split: option.splits if_splits)
  have n: "n \<le> 253" using v by (auto simp: sl_server_name_is_valid_host_def split: if_splits)
  let ?host = "(write_at 0 (take n (sn_host t)) (replicate 254 0))[n := 0]"
  have u: "unat (of_nat n :: u8) = n" using n by (simp add: unat_of_nat take_bit_eq_mod)
  have th: "take n ?host = take n (sn_host t)" using n len by (simp add: write_at_def)
  have lh: "length ?host = 254" using n len by simp
  have "sl_server_name_is_valid_host (Some ?host) n"
    using v n len th lh by (simp add: valid_host_iff)
  then have "sl_server_name_unpack (Some (w @ rest)) (Some s0) =
      (0, Some \<lparr>sn_name_type = sn_name_type t, sn_host = ?host, sn_host_len = of_nat n\<rparr>)"
    using n len u by (simp add: sl_server_name_unpack_def w server_name_field Let_def)
  then show "\<exists>t'. sl_server_name_unpack (Some (w @ rest)) (Some s0) = (0, Some t')
      \<and> sn_name_type t' = sn_name_type t \<and> sn_name t' = sn_name t"
    using u th by (simp add: sn_name_def n_def)
qed

theorem server_name_wire_witness:
  "\<exists>s. sl_server_name_unpack (Some [0, 0, 3, 97, 46, 98]) (Some \<lparr>sn_name_type = 9, sn_host = [], sn_host_len = 0\<rparr>) = (0, Some s)
     \<and> sn_name s = [97, 46, 98]"
proof -
  let ?t = "\<lparr>sn_name_type = 0, sn_host = [97, 46, 98] @ replicate 251 0, sn_host_len = 3\<rparr>"
  have "sl_server_name_pack (Some ?t) (Some 16) = Some [0, 0, 3, 97, 46, 98]"
    by (simp add: sl_server_name_pack_def sl_server_name_is_valid_host_def c_isalnum_def)
  moreover have "sn_name ?t = [97, 46, 98]" by (simp add: sn_name_def)
  ultimately show ?thesis
    using server_name_wire [THEN conjunct2, of ?t "Some 16" "[0, 0, 3, 97, 46, 98]" "[]"
        "\<lparr>sn_name_type = 9, sn_host = [], sn_host_len = 0\<rparr>"]
    by auto
qed

end
