(* ===== verification/SL_Keys.thy ===== *)
theory SL_Keys
  imports SL_Aead
begin

text \<open>
  The key schedule: \<open>src/sl_hkdf.c\<close>, \<open>src/sl_session_keys.c\<close>, \<open>src/sl_finished.c\<close>,
  \<open>src/sl_handshake_secret.c\<close>, \<open>src/sl_transcript.c\<close>, \<open>src/sl_exporter.c\<close>,
  \<open>src/sl_rekey.c\<close>, \<open>src/sl_session_ticket.c\<close> and \<open>src/sl_sha256_stream.c\<close>.
  OpenSSL's HMAC and SHA-256 are the parameter \<open>hash_api\<close>: which calls succeed (a call inside the
  HKDF loop may fail at any block) and the two functions, of which only the digest length is
  assumed. A running hash is the bytes it has absorbed.
\<close>

datatype hash_call = HMAC_oneshot | HMAC_CTX_new | HMAC_Init_ex | HMAC_Update | HMAC_Final
  | SHA256_Init | SHA256_Update | SHA256_Final | EVP_MD_CTX_new | EVP_DigestInit_ex
  | EVP_DigestUpdate | EVP_DigestFinal_ex

record hash_api =
  hash_ok :: "hash_call \<Rightarrow> u8 \<Rightarrow> bool"
  hmac_sha256 :: "bytes \<Rightarrow> bytes \<Rightarrow> bytes"
  sha256 :: "bytes \<Rightarrow> bytes"

definition hash_law :: "hash_api \<Rightarrow> bool" where
  "hash_law H \<longleftrightarrow> (\<forall>k m. length (hmac_sha256 H k m) = 32) \<and> (\<forall>m. length (sha256 H m) = 32)"

definition hash_healthy :: "hash_api \<Rightarrow> bool" where
  "hash_healthy H \<longleftrightarrow> (\<forall>c i. hash_ok H c i)"

definition c_str :: "string \<Rightarrow> bytes" where
  "c_str s = map of_char s"

subsection \<open>HKDF\<close>

definition sl_hkdf_extract_sha256 ::
  "hash_api \<Rightarrow> bytes ptr \<Rightarrow> nat \<Rightarrow> bytes ptr \<Rightarrow> nat \<Rightarrow> out_ref \<Rightarrow> bytes option" where
  "sl_hkdf_extract_sha256 H ikm ikm_len salt salt_len prk_out =
     (if ikm = NULL \<or> prk_out = NULL then None
      else
        let key = (if salt = NULL \<or> salt_len = 0 then replicate 32 0 else mem_take salt salt_len);
            prk = hmac_sha256 H key (mem_take ikm ikm_len)
        in if \<not> hash_ok H HMAC_oneshot 0 then None
           else if length prk \<noteq> 32 then None
           else Some prk)"

text \<open>
  The loop of the expansion: \<open>t\<close> is the previous block (empty at first), the digest of SHA-256
  has 32 bytes, and the counter is an 8-bit value.
\<close>

function hkdf_expand_loop ::
  "hash_api \<Rightarrow> bytes \<Rightarrow> bytes \<Rightarrow> nat \<Rightarrow> nat \<Rightarrow> u8 \<Rightarrow> bytes \<Rightarrow> bytes \<Rightarrow> bytes option" where
  "hkdf_expand_loop H prk info out_len don ctr t out =
     (if don < out_len then
        if \<not> hash_ok H HMAC_Init_ex ctr then None
        else if \<not> hash_ok H HMAC_Update ctr then None
        else if \<not> hash_ok H HMAC_Final ctr then None
        else
          let t' = hmac_sha256 H prk (t @ info @ [ctr]); t_len = 32;
              tk = (if out_len - don < t_len then out_len - don else t_len)
          in hkdf_expand_loop H prk info out_len (don + tk) (ctr + 1) t' (out @ take tk t')
      else Some out)"
  by pat_completeness auto

termination
  by (relation "measure (\<lambda>(H, prk, info, out_len, don, ctr, t, out). out_len - don)") auto

declare hkdf_expand_loop.simps [simp del]

definition sl_hkdf_expand_sha256 ::
  "hash_api \<Rightarrow> bytes ptr \<Rightarrow> bytes ptr \<Rightarrow> nat \<Rightarrow> out_buf \<Rightarrow> bytes option" where
  "sl_hkdf_expand_sha256 H prk info info_len out =
     (case (prk, out) of
        (Some k, Some out_len) \<Rightarrow>
          if out_len > 255 * 32 then None
          else if \<not> hash_ok H HMAC_CTX_new 0 then None
          else hkdf_expand_loop H (take 32 k) (mem_take info info_len) out_len 0 1 [] []
      | _ \<Rightarrow> None)"

definition sl_hkdf_sha256 ::
  "hash_api \<Rightarrow> bytes ptr \<Rightarrow> nat \<Rightarrow> bytes ptr \<Rightarrow> nat \<Rightarrow> bytes ptr \<Rightarrow> nat \<Rightarrow> out_buf \<Rightarrow> bytes option" where
  "sl_hkdf_sha256 H ikm ikm_len salt salt_len info info_len out =
     (case sl_hkdf_extract_sha256 H ikm ikm_len salt salt_len OUT of
        None \<Rightarrow> None
      | Some prk \<Rightarrow> sl_hkdf_expand_sha256 H (Some prk) info info_len out)"

subsection \<open>Session keys\<close>

record sl_session_keys_t =
  client_key :: bytes
  client_iv :: bytes
  server_key :: bytes
  server_iv :: bytes

definition session_keys_zero :: sl_session_keys_t where
  "session_keys_zero = \<lparr>client_key = replicate 32 0, client_iv = replicate 12 0,
     server_key = replicate 32 0, server_iv = replicate 12 0\<rparr>"

definition sl_session_keys_clear :: "sl_session_keys_t ptr \<Rightarrow> sl_session_keys_t ptr" where
  "sl_session_keys_clear keys = (case keys of None \<Rightarrow> NULL | Some _ \<Rightarrow> Some session_keys_zero)"

abbreviation (input) SL_KDF_LABEL_CLIENT_KEY :: string where "SL_KDF_LABEL_CLIENT_KEY \<equiv> ''securelink v1 c2s key''"
abbreviation (input) SL_KDF_LABEL_SERVER_KEY :: string where "SL_KDF_LABEL_SERVER_KEY \<equiv> ''securelink v1 s2c key''"
abbreviation (input) SL_KDF_LABEL_CLIENT_IV :: string where "SL_KDF_LABEL_CLIENT_IV \<equiv> ''securelink v1 c2s iv''"
abbreviation (input) SL_KDF_LABEL_SERVER_IV :: string where "SL_KDF_LABEL_SERVER_IV \<equiv> ''securelink v1 s2c iv''"
abbreviation (input) SL_KDF_LABEL_REKEY :: string where "SL_KDF_LABEL_REKEY \<equiv> ''securelink v1 rekey''"
abbreviation (input) SL_KDF_LABEL_EXPORTER :: string where "SL_KDF_LABEL_EXPORTER \<equiv> ''securelink v1 exporter''"

definition hkdf_label ::
  "hash_api \<Rightarrow> bytes \<Rightarrow> nat \<Rightarrow> bytes ptr \<Rightarrow> nat \<Rightarrow> string \<Rightarrow> nat \<Rightarrow> bytes option" where
  "hkdf_label H ikm ikm_len salt salt_len label out_len =
     sl_hkdf_sha256 H (Some ikm) ikm_len salt salt_len (Some (c_str label)) (length label) (Some out_len)"

definition sl_session_keys_derive ::
  "hash_api \<Rightarrow> bytes ptr \<Rightarrow> nat \<Rightarrow> bytes ptr \<Rightarrow> sl_session_keys_t ptr \<Rightarrow> int \<times> sl_session_keys_t ptr" where
  "sl_session_keys_derive H master master_len salt out =
     (case (master, salt, out) of
        (Some m, Some s, Some _) \<Rightarrow>
          let out0 = Some session_keys_zero; fail = (- 1, sl_session_keys_clear out0) in
          (case hkdf_label H m master_len salt 32 SL_KDF_LABEL_CLIENT_KEY 32 of
             None \<Rightarrow> fail
           | Some ck \<Rightarrow>
          (case hkdf_label H m master_len salt 32 SL_KDF_LABEL_CLIENT_IV 12 of
             None \<Rightarrow> fail
           | Some ci \<Rightarrow>
          (case hkdf_label H m master_len salt 32 SL_KDF_LABEL_SERVER_KEY 32 of
             None \<Rightarrow> fail
           | Some sk \<Rightarrow>
          (case hkdf_label H m master_len salt 32 SL_KDF_LABEL_SERVER_IV 12 of
             None \<Rightarrow> fail
           | Some si \<Rightarrow>
               (0, Some \<lparr>client_key = ck, client_iv = ci, server_key = sk, server_iv = si\<rparr>)))))
      | _ \<Rightarrow> (- 1, out))"

subsection \<open>Finished messages\<close>

abbreviation (input) LABEL_CLIENT_FINISHED :: string where "LABEL_CLIENT_FINISHED \<equiv> ''securelink v1 c2s finished''"
abbreviation (input) LABEL_SERVER_FINISHED :: string where "LABEL_SERVER_FINISHED \<equiv> ''securelink v1 s2c finished''"
abbreviation (input) LABEL_MASTER :: string where "LABEL_MASTER \<equiv> ''securelink v1 master''"

definition sl_finished_derive_key ::
  "hash_api \<Rightarrow> bytes ptr \<Rightarrow> nat \<Rightarrow> int \<Rightarrow> out_ref \<Rightarrow> bytes option" where
  "sl_finished_derive_key H handshake_secret hs_len is_server out_key =
     (case handshake_secret of
        None \<Rightarrow> None
      | Some hs \<Rightarrow>
          if out_key = NULL \<or> hs_len = 0 then None
          else hkdf_label H hs hs_len NULL 0
                 (if is_server \<noteq> 0 then LABEL_SERVER_FINISHED else LABEL_CLIENT_FINISHED) 32)"

definition sl_finished_compute :: "hash_api \<Rightarrow> bytes ptr \<Rightarrow> bytes ptr \<Rightarrow> out_ref \<Rightarrow> bytes option" where
  "sl_finished_compute H finished_key transcript_hash out_mac =
     (case (finished_key, transcript_hash, out_mac) of
        (Some k, Some th, Some _) \<Rightarrow>
          if \<not> hash_ok H HMAC_oneshot 0 then None
          else let mac = hmac_sha256 H (take 32 k) (take 32 th)
               in if length mac = 32 then Some mac else None
      | _ \<Rightarrow> None)"

definition sl_finished_verify :: "hash_api \<Rightarrow> bytes ptr \<Rightarrow> bytes ptr \<Rightarrow> bytes \<Rightarrow> int" where
  "sl_finished_verify H finished_key transcript_hash received_mac =
     (case sl_finished_compute H finished_key transcript_hash OUT of
        None \<Rightarrow> - 1
      | Some expected \<Rightarrow> if sl_ct_equal expected received_mac 32 \<noteq> 0 then 0 else - 1)"

subsection \<open>The handshake secret\<close>

record sl_handshake_secret_t =
  hs_master :: bytes
  hs_client_finished_key :: bytes
  hs_server_finished_key :: bytes
  hs_app_keys :: sl_session_keys_t

definition handshake_secret_zero :: sl_handshake_secret_t where
  "handshake_secret_zero = \<lparr>hs_master = replicate 32 0, hs_client_finished_key = replicate 32 0,
     hs_server_finished_key = replicate 32 0, hs_app_keys = session_keys_zero\<rparr>"

definition sl_handshake_secret_clear :: "sl_handshake_secret_t ptr \<Rightarrow> sl_handshake_secret_t ptr" where
  "sl_handshake_secret_clear s = (case s of None \<Rightarrow> NULL | Some _ \<Rightarrow> Some handshake_secret_zero)"

definition sl_handshake_secret_derive ::
  "hash_api \<Rightarrow> bytes ptr \<Rightarrow> nat \<Rightarrow> bytes ptr \<Rightarrow> sl_handshake_secret_t ptr \<Rightarrow> int \<times> sl_handshake_secret_t ptr" where
  "sl_handshake_secret_derive H ecdh_shared shared_len transcript out =
     (case (ecdh_shared, transcript, out) of
        (Some z, Some th, Some _) \<Rightarrow>
          let fail = (- 1, sl_handshake_secret_clear (Some handshake_secret_zero)) in
          (case hkdf_label H z shared_len transcript 32 LABEL_MASTER 32 of
             None \<Rightarrow> fail
           | Some m \<Rightarrow>
          (case hkdf_label H m 32 NULL 0 LABEL_CLIENT_FINISHED 32 of
             None \<Rightarrow> fail
           | Some cf \<Rightarrow>
          (case hkdf_label H m 32 NULL 0 LABEL_SERVER_FINISHED 32 of
             None \<Rightarrow> fail
           | Some sf \<Rightarrow>
          (case sl_session_keys_derive H (Some m) 32 transcript (Some session_keys_zero) of
             (rc, ak) \<Rightarrow>
               if rc \<noteq> 0 then fail
               else (0, Some \<lparr>hs_master = m, hs_client_finished_key = cf, hs_server_finished_key = sf,
                              hs_app_keys = the ak\<rparr>)))))
      | _ \<Rightarrow> (- 1, out))"

subsection \<open>Transcript\<close>

record sl_transcript_t =
  tr_ctx :: bytes
  tr_bytes_absorbed :: u64

definition sl_transcript_init :: "hash_api \<Rightarrow> sl_transcript_t ptr \<Rightarrow> int \<times> sl_transcript_t ptr" where
  "sl_transcript_init H t =
     (case t of
        None \<Rightarrow> (- 1, NULL)
      | Some _ \<Rightarrow> if \<not> hash_ok H SHA256_Init 0 then (- 1, t)
                 else (0, Some \<lparr>tr_ctx = [], tr_bytes_absorbed = 0\<rparr>))"

definition sl_transcript_update ::
  "hash_api \<Rightarrow> sl_transcript_t ptr \<Rightarrow> bytes ptr \<Rightarrow> nat \<Rightarrow> int \<times> sl_transcript_t ptr" where
  "sl_transcript_update H t data len =
     (case t of
        None \<Rightarrow> (- 1, NULL)
      | Some s \<Rightarrow>
          if data = NULL \<and> len > 0 then (- 1, t)
          else if \<not> hash_ok H SHA256_Update 0 then (- 1, t)
          else (0, Some \<lparr>tr_ctx = tr_ctx s @ mem_take data len,
                         tr_bytes_absorbed = tr_bytes_absorbed s + of_nat len\<rparr>))"

definition sl_transcript_get :: "hash_api \<Rightarrow> sl_transcript_t ptr \<Rightarrow> out_ref \<Rightarrow> bytes option" where
  "sl_transcript_get H t out =
     (case (t, out) of
        (Some s, Some _) \<Rightarrow> if \<not> hash_ok H SHA256_Final 0 then None else Some (sha256 H (tr_ctx s))
      | _ \<Rightarrow> None)"

definition sl_transcript_labelled ::
  "hash_api \<Rightarrow> sl_transcript_t ptr \<Rightarrow> bytes ptr \<Rightarrow> out_ref \<Rightarrow> bytes option" where
  "sl_transcript_labelled H t label out =
     (case (t, label, out) of
        (Some _, Some l, Some _) \<Rightarrow>
          (case sl_transcript_get H t OUT of
             None \<Rightarrow> None
           | Some base \<Rightarrow>
               if \<not> hash_ok H SHA256_Init 0 then None
               else if \<not> hash_ok H SHA256_Final 0 then None
               else Some (sha256 H (if hash_ok H SHA256_Update 0 then l @ base else [])))
      | _ \<Rightarrow> None)"

definition sl_transcript_bytes :: "sl_transcript_t ptr \<Rightarrow> u64" where
  "sl_transcript_bytes t = (case t of None \<Rightarrow> 0 | Some s \<Rightarrow> tr_bytes_absorbed s)"

subsection \<open>Exported keys\<close>

definition sl_exporter_init :: "hash_api \<Rightarrow> bytes ptr \<Rightarrow> out_ref \<Rightarrow> bytes option" where
  "sl_exporter_init H master_secret out =
     (case (master_secret, out) of
        (Some m, Some _) \<Rightarrow> hkdf_label H m 32 NULL 0 SL_KDF_LABEL_EXPORTER 32
      | _ \<Rightarrow> None)"

definition sl_exporter_derive ::
  "hash_api \<Rightarrow> bytes ptr \<Rightarrow> bytes ptr \<Rightarrow> bytes ptr \<Rightarrow> nat \<Rightarrow> out_buf \<Rightarrow> bytes option" where
  "sl_exporter_derive H exporter_secret label context context_len out =
     (case (exporter_secret, label, out) of
        (Some es, Some l, Some out_len) \<Rightarrow>
          if out_len = 0 \<or> out_len > 255 * 32 then None
          else if \<not> hash_ok H SHA256_Init 0 then None
          else if \<not> hash_ok H SHA256_Final 0 then None
          else
            let info = sha256 H (if hash_ok H SHA256_Update 0 then l @ mem_take context context_len else [])
            in sl_hkdf_sha256 H exporter_secret 32 NULL 0 (Some info) 32 out
      | _ \<Rightarrow> None)"

subsection \<open>Rekeying\<close>

record sl_rekey_epochs_t =
  rk_local_epoch :: u32
  rk_peer_epoch :: u32

text \<open>The result is the status, the keys, the current secret and the next secret, if written.\<close>

definition sl_rekey_advance ::
  "hash_api \<Rightarrow> sl_session_keys_t ptr \<Rightarrow> bytes ptr \<Rightarrow> out_ref \<Rightarrow>
   int \<times> sl_session_keys_t ptr \<times> bytes ptr \<times> bytes option" where
  "sl_rekey_advance H keys current_secret next_secret_out =
     (case (keys, current_secret, next_secret_out) of
        (Some _, Some cs, Some _) \<Rightarrow>
          (case hkdf_label H cs 32 NULL 0 SL_KDF_LABEL_REKEY 32 of
             None \<Rightarrow> (- 1, keys, current_secret, None)
           | Some ns \<Rightarrow>
               (case sl_session_keys_derive H (Some ns) 32 (Some ns) (Some session_keys_zero) of
                  (rc, fresh) \<Rightarrow>
                    if rc \<noteq> 0 then (- 1, keys, current_secret, Some ns)
                    else (0, fresh, Some (zero_loop (take 32 cs) @ drop 32 cs), Some ns)))
      | _ \<Rightarrow> (- 1, keys, current_secret, None))"

definition sl_rekey_check_peer_epoch :: "sl_rekey_epochs_t ptr \<Rightarrow> u32 \<Rightarrow> int \<times> sl_rekey_epochs_t ptr" where
  "sl_rekey_check_peer_epoch e incoming =
     (case e of
        None \<Rightarrow> (- 1, NULL)
      | Some s \<Rightarrow>
          if incoming \<noteq> rk_peer_epoch s + 1 then (- 1, e)
          else (0, Some (s\<lparr>rk_peer_epoch := incoming\<rparr>)))"

subsection \<open>Session tickets\<close>

abbreviation (input) SL_TICKET_IV_LEN :: nat where "SL_TICKET_IV_LEN \<equiv> 12"
abbreviation (input) SL_TICKET_PT_LEN :: nat where "SL_TICKET_PT_LEN \<equiv> 72"

record sl_ticket_body_t =
  tk_issued_at_s :: u32
  tk_lifetime_s :: u32
  tk_resumption_secret :: bytes
  tk_peer_identity_pub :: bytes

definition ticket_zero :: sl_ticket_body_t where
  "ticket_zero = \<lparr>tk_issued_at_s = 0, tk_lifetime_s = 0, tk_resumption_secret = replicate 32 0,
     tk_peer_identity_pub = replicate 32 0\<rparr>"

definition pack_body :: "sl_ticket_body_t \<Rightarrow> bytes" where
  "pack_body b = pack_u32 (tk_issued_at_s b) @ pack_u32 (tk_lifetime_s b)
     @ take 32 (tk_resumption_secret b) @ take 32 (tk_peer_identity_pub b)"

definition unpack_body :: "bytes \<Rightarrow> sl_ticket_body_t" where
  "unpack_body pt = \<lparr>tk_issued_at_s = unpack_u32 pt, tk_lifetime_s = unpack_u32 (drop 4 pt),
     tk_resumption_secret = take 32 (drop 8 pt), tk_peer_identity_pub = take 32 (drop 40 pt)\<rparr>"

definition sl_ticket_seal ::
  "evp_gcm \<Rightarrow> 'g rand_bytes \<Rightarrow> 'g \<Rightarrow> bytes ptr \<Rightarrow> sl_ticket_body_t ptr \<Rightarrow> out_ref \<Rightarrow> bytes option \<times> 'g" where
  "sl_ticket_seal E R g stk body out =
     (case (stk, body, out) of
        (Some k, Some b, Some _) \<Rightarrow>
          let pt = pack_body b in
          (case sl_rng_bytes R g (Some SL_TICKET_IV_LEN) of
             (None, g') \<Rightarrow> (None, g')
           | (Some iv, g') \<Rightarrow>
               (case sl_aead_seal E stk (Some iv) (Some iv) SL_TICKET_IV_LEN (Some pt) SL_TICKET_PT_LEN OUT OUT of
                  None \<Rightarrow> (None, g')
                | Some (ct, tag) \<Rightarrow> (Some (iv @ ct @ tag), g')))
      | _ \<Rightarrow> (None, g))"

definition sl_ticket_open ::
  "evp_gcm \<Rightarrow> bytes ptr \<Rightarrow> bytes ptr \<Rightarrow> sl_ticket_body_t ptr \<Rightarrow> int \<times> sl_ticket_body_t ptr" where
  "sl_ticket_open E stk wire out =
     (case (stk, wire, out) of
        (Some k, Some w, Some _) \<Rightarrow>
          (case sl_aead_open E stk (Some (take SL_TICKET_IV_LEN w)) (Some w) SL_TICKET_IV_LEN
                  (Some (drop SL_TICKET_IV_LEN w)) SL_TICKET_PT_LEN (Some (drop 84 w))
                  (Some (replicate SL_TICKET_PT_LEN 0)) of
             (rc, pt) \<Rightarrow>
               if rc \<noteq> 0 then (- 1, Some ticket_zero)
               else (0, Some (unpack_body (the pt))))
      | _ \<Rightarrow> (- 1, out))"

definition sl_ticket_is_fresh :: "sl_ticket_body_t ptr \<Rightarrow> u32 \<Rightarrow> int" where
  "sl_ticket_is_fresh body now_s =
     (case body of
        None \<Rightarrow> 0
      | Some b \<Rightarrow>
          if tk_lifetime_s b = 0 then 0
          else if now_s < tk_issued_at_s b then 0
          else if now_s - tk_issued_at_s b < tk_lifetime_s b then 1 else 0)"

subsection \<open>Streaming SHA-256\<close>

record sl_sha256_stream =
  ss_ctx :: bytes
  ss_bytes :: u64
  ss_finalized :: bool

definition sl_sha256_stream_new :: "hash_api \<Rightarrow> bool \<Rightarrow> sl_sha256_stream ptr" where
  "sl_sha256_stream_new H calloc_ok =
     (if \<not> calloc_ok then NULL
      else if \<not> hash_ok H EVP_MD_CTX_new 0 then NULL
      else if \<not> hash_ok H EVP_DigestInit_ex 0 then NULL
      else Some \<lparr>ss_ctx = [], ss_bytes = 0, ss_finalized = False\<rparr>)"

definition sl_sha256_stream_free :: "sl_sha256_stream ptr \<Rightarrow> sl_sha256_stream ptr" where
  "sl_sha256_stream_free h = NULL"

definition sl_sha256_stream_update ::
  "hash_api \<Rightarrow> sl_sha256_stream ptr \<Rightarrow> bytes ptr \<Rightarrow> nat \<Rightarrow> int \<times> sl_sha256_stream ptr" where
  "sl_sha256_stream_update H h data len =
     (case h of
        None \<Rightarrow> (- 1, NULL)
      | Some s \<Rightarrow>
          if ss_finalized s then (- 1, h)
          else if len = 0 then (0, h)
          else if data = NULL then (- 1, h)
          else if \<not> hash_ok H EVP_DigestUpdate 0 then (- 1, h)
          else (0, Some (s\<lparr>ss_ctx := ss_ctx s @ mem_take data len, ss_bytes := ss_bytes s + of_nat len\<rparr>)))"

definition sl_sha256_stream_finalize ::
  "hash_api \<Rightarrow> sl_sha256_stream ptr \<Rightarrow> out_ref \<Rightarrow> bytes option \<times> sl_sha256_stream ptr" where
  "sl_sha256_stream_finalize H h out =
     (case (h, out) of
        (Some s, Some _) \<Rightarrow>
          if ss_finalized s then (None, h)
          else if \<not> hash_ok H EVP_DigestFinal_ex 0 then (None, h)
          else let d = sha256 H (ss_ctx s) in
            if length d \<noteq> 32 then (None, h)
            else (Some d, Some (s\<lparr>ss_finalized := True\<rparr>))
      | _ \<Rightarrow> (None, h))"

definition sl_sha256_stream_bytes :: "sl_sha256_stream ptr \<Rightarrow> u64" where
  "sl_sha256_stream_bytes h = (case h of None \<Rightarrow> 0 | Some s \<Rightarrow> ss_bytes s)"

subsection \<open>HKDF is RFC 5869\<close>

fun hkdf_T :: "hash_api \<Rightarrow> bytes \<Rightarrow> bytes \<Rightarrow> nat \<Rightarrow> bytes" where
  "hkdf_T H prk info 0 = []"
| "hkdf_T H prk info (Suc i) = hmac_sha256 H prk (hkdf_T H prk info i @ info @ [of_nat (Suc i)])"

text \<open>The 255 blocks an expansion may draw from.\<close>

definition hkdf_stream :: "hash_api \<Rightarrow> bytes \<Rightarrow> bytes \<Rightarrow> bytes" where
  "hkdf_stream H prk info = concat (map (hkdf_T H prk info) [1 ..< 256])"

lemma hash_lawD: "hash_law H \<Longrightarrow> length (hmac_sha256 H k m) = 32" "hash_law H \<Longrightarrow> length (sha256 H m) = 32"
  by (simp_all add: hash_law_def)

lemma hkdf_expand_loop_eq:
  assumes "hash_healthy H" "hash_law H" "L - d \<le> 32 * k"
  shows "hkdf_expand_loop H prk info L d (of_nat (Suc i)) (hkdf_T H prk info i) out =
    Some (out @ take (L - d) (concat (map (hkdf_T H prk info) [Suc i ..< Suc i + k])))"
  using assms(3)
proof (induction k arbitrary: i d out)
  case 0
  then show ?case by (simp add: hkdf_expand_loop.simps)
next
  case (Suc k)
  show ?case
  proof (cases "d < L")
    case True
    define tk where "tk = (if L - d < 32 then L - d else 32)"
    let ?T = "hkdf_T H prk info"
    have "hkdf_expand_loop H prk info L d (of_nat (Suc i)) (?T i) out =
        hkdf_expand_loop H prk info L (d + tk) (of_nat (Suc (Suc i))) (?T (Suc i)) (out @ take tk (?T (Suc i)))"
      using True assms(1)
      by (subst hkdf_expand_loop.simps) (simp add: hash_healthy_def Let_def add.commute flip: tk_def)
    also have "\<dots> = Some ((out @ take tk (?T (Suc i))) @
        take (L - (d + tk)) (concat (map ?T [Suc (Suc i) ..< Suc (Suc i) + k])))"
      using Suc.prems by (intro Suc.IH) (auto simp: tk_def)
    also have "\<dots> = Some (out @ take (L - d) (?T (Suc i) @ concat (map ?T [Suc (Suc i) ..< Suc (Suc i) + k])))"
      by (auto simp: tk_def hash_lawD [OF assms(2)])
    finally show ?thesis by (simp add: upt_conv_Cons del: upt_Suc)
  qed (simp add: hkdf_expand_loop.simps)
qed

lemma sl_hkdf_expand_eq:
  assumes "hash_healthy H" "hash_law H"
  shows "sl_hkdf_expand_sha256 H (Some prk) info il (Some L) =
    (if L \<le> 8160 then Some (take L (hkdf_stream H (take 32 prk) (mem_take info il))) else None)"
proof (cases "L \<le> 8160")
  case True
  have "hkdf_expand_loop H (take 32 prk) (mem_take info il) L 0 (of_nat (Suc 0)) (hkdf_T H (take 32 prk) (mem_take info il) 0) []
      = Some ([] @ take (L - 0) (concat (map (hkdf_T H (take 32 prk) (mem_take info il)) [Suc 0 ..< Suc 0 + 255])))"
    using True by (intro hkdf_expand_loop_eq assms) simp
  with True assms show ?thesis
    by (simp add: sl_hkdf_expand_sha256_def hash_healthy_def hkdf_stream_def del: upt_Suc)
qed (simp add: sl_hkdf_expand_sha256_def)

definition hkdf_prk :: "hash_api \<Rightarrow> bytes ptr \<Rightarrow> nat \<Rightarrow> bytes \<Rightarrow> bytes" where
  "hkdf_prk H salt sl ikm =
     hmac_sha256 H (if salt = NULL \<or> sl = 0 then replicate 32 0 else mem_take salt sl) ikm"

lemma sl_hkdf_eq:
  assumes "hash_healthy H" "hash_law H"
  shows "sl_hkdf_sha256 H (Some ikm) n salt sl info il (Some L) =
    (if L \<le> 8160 then Some (take L (hkdf_stream H (hkdf_prk H salt sl (take n ikm)) (mem_take info il))) else None)"
  using assms
  by (simp add: sl_hkdf_sha256_def sl_hkdf_extract_sha256_def hkdf_prk_def sl_hkdf_expand_eq Let_def
      mem_take_def [of "Some ikm"] hash_lawD hash_healthy_def)

lemma length_hkdf_stream: "hash_law H \<Longrightarrow> length (hkdf_stream H prk info) = 8160"
proof -
  assume law: "hash_law H"
  have "length (concat (map (hkdf_T H prk info) [Suc i ..< Suc i + k])) = 32 * k" for i k
  proof (induction k arbitrary: i)
    case (Suc k)
    then show ?case using hash_lawD(1) [OF law] by (simp add: upt_conv_Cons del: upt_Suc) (metis add_Suc add_Suc_right mult_Suc_right)
  qed simp
  from this [of 0 255] show ?thesis by (simp add: hkdf_stream_def del: upt_Suc)
qed

text \<open>
  C7. \<open>sl_hkdf_sha256\<close> is HKDF-SHA256 of RFC 5869: the extracted key is the HMAC of the input
  under the salt (32 zero bytes when there is none), the output is the first \<open>out_len\<close> bytes of the
  blocks \<open>T(1) T(2) ... T(255)\<close>, each the HMAC of the previous block, the info and the block number,
  and a request above 8160 bytes is refused.
\<close>

theorem sl_hkdf_rfc5869:
  assumes "hash_healthy H" "hash_law H"
  shows "sl_hkdf_sha256 H (Some ikm) n salt sl info il (Some L) =
    (if L > 255 * 32 then None
     else Some (take L (concat (map
       (hkdf_T H (hmac_sha256 H (if salt = NULL \<or> sl = 0 then replicate 32 0 else mem_take salt sl) (take n ikm))
         (mem_take info il)) [1 ..< 256]))))"
  using sl_hkdf_eq [OF assms] by (simp add: hkdf_stream_def hkdf_prk_def del: upt_Suc)

definition toy_hash :: hash_api where
  "toy_hash = \<lparr>hash_ok = (\<lambda>_ _. True), hmac_sha256 = (\<lambda>k m. replicate 32 (hd k + hd (m @ [0]))),
     sha256 = (\<lambda>m. replicate 32 (hd (m @ [0])))\<rparr>"

lemma toy_hash_law: "hash_healthy toy_hash \<and> hash_law toy_hash"
  by (simp add: toy_hash_def hash_healthy_def hash_law_def)

theorem sl_hkdf_rfc5869_witness:
  "sl_hkdf_sha256 toy_hash (Some [1, 2]) 2 NULL 0 (Some [5]) 1 (Some 9000) = None
   \<and> sl_hkdf_sha256 toy_hash (Some [1, 2]) 2 NULL 0 (Some [5]) 1 (Some 3) = Some (replicate 3 6)"
proof -
  have "[1 ..< 256] = 1 # [2 ..< 256]" by (simp add: upt_conv_Cons del: upt_Suc)
  then show ?thesis
    using sl_hkdf_rfc5869 [of toy_hash "[1, 2]" 2 NULL 0 "Some [5]" 1 3]
      sl_hkdf_rfc5869 [of toy_hash "[1, 2]" 2 NULL 0 "Some [5]" 1 9000] toy_hash_law
    by (simp add: toy_hash_def mem_take_def del: upt_Suc)
qed

subsection \<open>The handshake secret and the Finished check\<close>

lemma hkdf_label_Some:
  assumes "hash_healthy H" "hash_law H" "L \<le> 8160"
  shows "\<exists>k. hkdf_label H ikm n salt sl label L = Some k \<and> length k = L"
  using assms by (simp add: hkdf_label_def sl_hkdf_eq length_hkdf_stream)

lemma sl_session_keys_derive_healthy:
  assumes "hash_healthy H" "hash_law H"
  shows "\<exists>k. sl_session_keys_derive H (Some m) n (Some s) (Some k0) = (0, Some k)
    \<and> length (client_key k) = 32 \<and> length (client_iv k) = 12 \<and> length (server_key k) = 32 \<and> length (server_iv k) = 12"
proof -
  note label = hkdf_label_Some [OF assms, of _ m n "Some s" 32]
  obtain a b c d where "hkdf_label H m n (Some s) 32 SL_KDF_LABEL_CLIENT_KEY 32 = Some a" "length a = 32"
    "hkdf_label H m n (Some s) 32 SL_KDF_LABEL_CLIENT_IV 12 = Some b" "length b = 12"
    "hkdf_label H m n (Some s) 32 SL_KDF_LABEL_SERVER_KEY 32 = Some c" "length c = 32"
    "hkdf_label H m n (Some s) 32 SL_KDF_LABEL_SERVER_IV 12 = Some d" "length d = 12"
    using label [of 32 SL_KDF_LABEL_CLIENT_KEY] label [of 12 SL_KDF_LABEL_CLIENT_IV]
      label [of 32 SL_KDF_LABEL_SERVER_KEY] label [of 12 SL_KDF_LABEL_SERVER_IV] by auto
  then show ?thesis by (simp add: sl_session_keys_derive_def)
qed

lemma sl_session_keys_derive_fail:
  assumes "sl_session_keys_derive H (Some m) n (Some s) (Some k0) = (rc, k)" "rc \<noteq> 0"
  shows "k = Some session_keys_zero"
  using assms
  by (auto simp: sl_session_keys_derive_def sl_session_keys_clear_def Let_def split: option.splits)

lemma sl_session_keys_derive_out:
  "sl_session_keys_derive H (Some m) n (Some s) (Some k0) = sl_session_keys_derive H (Some m) n (Some s) (Some k1)"
  by (simp add: sl_session_keys_derive_def)

lemma sl_handshake_secret_cases:
  assumes "sl_handshake_secret_derive H (Some z) n (Some th) (Some s0) = (rc, Some s)"
  shows "(rc = 0 \<longrightarrow> hkdf_label H z n (Some th) 32 LABEL_MASTER 32 = Some (hs_master s)
      \<and> hkdf_label H (hs_master s) 32 NULL 0 LABEL_CLIENT_FINISHED 32 = Some (hs_client_finished_key s)
      \<and> hkdf_label H (hs_master s) 32 NULL 0 LABEL_SERVER_FINISHED 32 = Some (hs_server_finished_key s)
      \<and> fst (sl_session_keys_derive H (Some (hs_master s)) 32 (Some th) (Some session_keys_zero)) = 0
      \<and> the (snd (sl_session_keys_derive H (Some (hs_master s)) 32 (Some th) (Some session_keys_zero))) = hs_app_keys s)
    \<and> (rc \<noteq> 0 \<longrightarrow> s = handshake_secret_zero)"
  using assms
  by (auto simp: sl_handshake_secret_derive_def sl_handshake_secret_clear_def Let_def
      split: option.splits prod.splits if_splits)

lemma sl_handshake_secret_healthy:
  assumes "hash_healthy H" "hash_law H"
  shows "fst (sl_handshake_secret_derive H (Some z) n (Some th) (Some s0)) = 0"
proof -
  obtain m where m: "hkdf_label H z n (Some th) 32 LABEL_MASTER 32 = Some m"
    using hkdf_label_Some [OF assms, of 32 z n "Some th" 32 LABEL_MASTER] by auto
  obtain c where c: "hkdf_label H m 32 NULL 0 LABEL_CLIENT_FINISHED 32 = Some c"
    using hkdf_label_Some [OF assms, of 32 m 32 NULL 0 LABEL_CLIENT_FINISHED] by auto
  obtain d where d: "hkdf_label H m 32 NULL 0 LABEL_SERVER_FINISHED 32 = Some d"
    using hkdf_label_Some [OF assms, of 32 m 32 NULL 0 LABEL_SERVER_FINISHED] by auto
  obtain k where "sl_session_keys_derive H (Some m) 32 (Some th) (Some session_keys_zero) = (0, Some k)"
    using sl_session_keys_derive_healthy [OF assms, of m 32 th session_keys_zero] by blast
  then show ?thesis by (simp add: sl_handshake_secret_derive_def m c d)
qed

lemma sl_finished_verify_iff:
  assumes "hash_law H" "length mac = 32"
  shows "sl_finished_verify H k th mac = 0 \<longleftrightarrow> sl_finished_compute H k th OUT = Some mac"
proof (cases "sl_finished_compute H k th OUT")
  case (Some e)
  then have "length e = 32"
    by (auto simp: sl_finished_compute_def Let_def split: option.splits if_splits)
  then show ?thesis using assms(2) Some by (simp add: sl_finished_verify_def sl_ct_equal_full)
qed (simp add: sl_finished_verify_def)



subsection \<open>Streaming a message in pieces does not change its hash\<close>

lemma sl_sha256_stream_pieces:
  assumes "hash_healthy H" "\<not> ss_finalized s"
  shows "foldl (\<lambda>h d. snd (sl_sha256_stream_update H h (Some d) (length d))) (Some s) ds
    = Some (s\<lparr>ss_ctx := ss_ctx s @ concat ds, ss_bytes := ss_bytes s + of_nat (length (concat ds))\<rparr>)"
  using assms
proof (induction ds arbitrary: s)
  case (Cons d ds)
  have "snd (sl_sha256_stream_update H (Some s) (Some d) (length d))
      = Some (s\<lparr>ss_ctx := ss_ctx s @ d, ss_bytes := ss_bytes s + of_nat (length d)\<rparr>)"
    using Cons.prems by (simp add: sl_sha256_stream_update_def hash_healthy_def mem_take_def)
  with Cons.IH [of "s\<lparr>ss_ctx := ss_ctx s @ d, ss_bytes := ss_bytes s + of_nat (length d)\<rparr>"] Cons.prems
  show ?case by (simp add: add.assoc)
qed simp

lemma sl_transcript_pieces:
  assumes "hash_healthy H"
  shows "foldl (\<lambda>t d. snd (sl_transcript_update H t (Some d) (length d))) (Some t) ds
    = Some \<lparr>tr_ctx = tr_ctx t @ concat ds, tr_bytes_absorbed = tr_bytes_absorbed t + of_nat (length (concat ds))\<rparr>"
  using assms
proof (induction ds arbitrary: t)
  case (Cons d ds)
  then show ?case by (simp add: sl_transcript_update_def hash_healthy_def mem_take_def add.assoc)
qed simp

text \<open>Two different (label, context) pairs that concatenate to one string export one key.\<close>

lemma sl_exporter_ambiguous:
  "sl_exporter_derive H (Some s) (Some (l @ x)) (Some c) (length c) out
   = sl_exporter_derive H (Some s) (Some l) (Some (x @ c)) (length (x @ c)) out"
  by (cases out) (simp_all add: sl_exporter_derive_def mem_take_def Let_def)

text \<open>A key update is accepted exactly when its epoch is the successor of the last one.\<close>

lemma sl_rekey_epoch_iff:
  "sl_rekey_check_peer_epoch (Some e) n = (0, Some e') \<longleftrightarrow> n = rk_peer_epoch e + 1 \<and> e' = e\<lparr>rk_peer_epoch := n\<rparr>"
  by (auto simp: sl_rekey_check_peer_epoch_def)

subsection \<open>Tickets\<close>

definition ticket_ok :: "sl_ticket_body_t \<Rightarrow> bool" where
  "ticket_ok b \<longleftrightarrow> length (tk_resumption_secret b) = 32 \<and> length (tk_peer_identity_pub b) = 32"

lemma unpack_pack_body: "ticket_ok b \<Longrightarrow> unpack_body (pack_body b @ x) = b"
  by (simp add: ticket_ok_def unpack_body_def pack_body_def)

lemma length_pack_body: "ticket_ok b \<Longrightarrow> length (pack_body b) = SL_TICKET_PT_LEN"
  by (simp add: ticket_ok_def pack_body_def)

definition ticket_genuine :: "evp_gcm \<Rightarrow> bytes \<Rightarrow> bytes \<Rightarrow> bool" where
  "ticket_genuine E k w \<longleftrightarrow>
     take 16 (drop 84 w) = gcm_tag E k (take 12 w) (take 12 w) (take 72 (drop 12 w))"

lemma sl_ticket_open_eq:
  assumes "gcm_law E" "evp_healthy E" "length w = 100"
  shows "sl_ticket_open E (Some k) (Some w) (Some b0) =
    (if ticket_genuine E k w
     then (0, Some (unpack_body (gcm_dec E k (take 12 w) (take 72 (drop 12 w)))))
     else (- 1, Some ticket_zero))"
  using assms
  by (simp add: sl_ticket_open_def ticket_genuine_def sl_aead_open_def evp_healthy_def evp_setup_def
      mem_take_def Let_def write_at_def gcm_law_def)

lemma sl_ticket_seal_SomeD:
  assumes "gcm_law E" "rand_law R" "ticket_ok b" "sl_ticket_seal E R g (Some k) (Some b) OUT = (Some w, g')"
  obtains iv where "length iv = 12"
    "w = iv @ gcm_enc E k iv (pack_body b) @ gcm_tag E k iv iv (gcm_enc E k iv (pack_body b))"
proof -
  obtain iv g1 ct tag where rng: "sl_rng_bytes R g (Some 12) = (Some iv, g1)"
    and seal: "sl_aead_seal E (Some k) (Some iv) (Some iv) 12 (Some (pack_body b)) 72 OUT OUT = Some (ct, tag)"
    and w: "w = iv @ ct @ tag"
    using assms(4) by (auto simp: sl_ticket_seal_def Let_def split: option.splits prod.splits)
  have "length iv = 12" using sl_rng_bytes_length [OF assms(2) rng] .
  moreover have "ct = gcm_enc E k iv (pack_body b)" "tag = gcm_tag E k iv iv ct"
    using sl_aead_seal_SomeD [OF seal] length_pack_body [OF assms(3)] calculation by (auto simp: mem_take_def)
  ultimately show ?thesis using that w by simp
qed

lemma sealed_ticket_opens:
  assumes "gcm_law E" "evp_healthy E" "rand_law R" "ticket_ok b" "sl_ticket_seal E R g (Some k) (Some b) OUT = (Some w, g')"
  shows "length w = 100" "sl_ticket_open E (Some k) (Some w) (Some b0) = (0, Some b)"
proof -
  from assms(1,3,4,5) obtain iv where iv: "length iv = 12"
    and w: "w = iv @ gcm_enc E k iv (pack_body b) @ gcm_tag E k iv iv (gcm_enc E k iv (pack_body b))"
    by (rule sl_ticket_seal_SomeD)
  have len: "length (gcm_enc E k iv (pack_body b)) = 72" "length (gcm_tag E k iv iv (gcm_enc E k iv (pack_body b))) = 16"
    "gcm_dec E k iv (gcm_enc E k iv (pack_body b)) = pack_body b"
    using assms(1) length_pack_body [OF assms(4)] by (simp_all add: gcm_law_def)
  show l: "length w = 100" using iv len by (simp add: w)
  have "ticket_genuine E k w" using iv len by (simp add: ticket_genuine_def w)
  with l show "sl_ticket_open E (Some k) (Some w) (Some b0) = (0, Some b)"
    using iv len unpack_pack_body [OF assms(4), of "[]"] by (simp add: sl_ticket_open_eq [OF assms(1,2)] w)
qed

lemma ticket_fresh_iff:
  "sl_ticket_is_fresh (Some b) now = (if unat (tk_issued_at_s b) \<le> unat now \<and> unat now < unat (tk_issued_at_s b) + unat (tk_lifetime_s b) then 1 else 0)"
  by (auto simp: sl_ticket_is_fresh_def word_less_nat_alt unat_sub_if_size)

text \<open>
  C8. Session tickets. A ticket the server sealed opens, under the same ticket key, to the body it
  was issued with. Any other 100 bytes whose tag is not genuine yield failure and a zeroed body. An
  opened ticket is fresh exactly from its issue time, for its lifetime, without wrap-around.
\<close>

theorem session_ticket_resumes:
  assumes "gcm_law E" "evp_healthy E" "rand_law R" "ticket_ok b"
    and "sl_ticket_seal E R g (Some k) (Some b) OUT = (Some w, g')" "length v = 100"
  shows "sl_ticket_open E (Some k) (Some w) (Some b0) = (0, Some b)
    \<and> (\<not> ticket_genuine E k v \<longrightarrow> sl_ticket_open E (Some k) (Some v) (Some b0) = (- 1, Some ticket_zero))
    \<and> (sl_ticket_is_fresh (Some b) now = 1 \<longleftrightarrow>
        unat (tk_issued_at_s b) \<le> unat now \<and> unat now < unat (tk_issued_at_s b) + unat (tk_lifetime_s b))"
  using sealed_ticket_opens [OF assms(1-5)] sl_ticket_open_eq [OF assms(1,2,6)] by (simp add: ticket_fresh_iff)

definition ticket_example :: sl_ticket_body_t where
  "ticket_example = \<lparr>tk_issued_at_s = 1000, tk_lifetime_s = 60, tk_resumption_secret = replicate 32 7,
     tk_peer_identity_pub = replicate 32 9\<rparr>"

definition toy_cipher :: evp_gcm where
  "toy_cipher = \<lparr>evp_ok = (\<lambda>_. True), gcm_enc = (\<lambda>k n x. map (\<lambda>b. b XOR hd n) x),
     gcm_dec = (\<lambda>k n x. map (\<lambda>b. b XOR hd n) x), gcm_tag = (\<lambda>k n a x. replicate 16 (hd k + hd a))\<rparr>"

theorem session_ticket_resumes_witness:
  "let R = (\<lambda>g n. (Some (replicate n g), g)); w = fst (sl_ticket_seal toy_cipher R 5 (Some (replicate 32 1)) (Some ticket_example) OUT)
   in w \<noteq> None \<and> sl_ticket_open toy_cipher (Some (replicate 32 1)) w (Some ticket_zero) = (0, Some ticket_example)
      \<and> sl_ticket_is_fresh (Some ticket_example) 1059 = 1"
proof -
  let ?R = "\<lambda>g n. (Some (replicate n g), g) :: bytes option \<times> u8"
  have law: "gcm_law toy_cipher" "evp_healthy toy_cipher" "rand_law ?R" "ticket_ok ticket_example"
    by (simp_all add: gcm_law_def evp_healthy_def toy_cipher_def comp_def xor.assoc rand_law_def ticket_ok_def ticket_example_def)
  obtain w where w: "sl_ticket_seal toy_cipher ?R 5 (Some (replicate 32 1)) (Some ticket_example) OUT = (Some w, 5)"
    by (auto simp: sl_ticket_seal_def sl_rng_bytes_small sl_aead_seal_def evp_setup_def toy_cipher_def Let_def)
  have "length (replicate 100 (0 :: u8)) = 100" by simp
  from session_ticket_resumes [OF law w this, of ticket_zero 1059] w show ?thesis
    by (simp add: Let_def ticket_example_def)
qed

end
