(* ===== verification/SL_File.thy ===== *)
theory SL_File
  imports SL_Interfaces
begin

text \<open>
  File transfer: \<open>src/sl_crc32.c\<close>, \<open>src/sl_varint.c\<close>, \<open>src/sl_file_meta.c\<close>,
  \<open>src/sl_file_chunk.c\<close> and \<open>src/sl_resume_map.c\<close>. The table of the checksum, which the
  code builds on first use, is a constant. An access outside the bitmap of a resume map is the
  outer \<open>None\<close>.
\<close>

subsection \<open>CRC-32C\<close>

definition crc_poly :: u32 where
  "crc_poly = 0x82F63B78"

definition crc_shift :: "u32 \<Rightarrow> u32" where
  "crc_shift c = (if c AND 1 \<noteq> 0 then crc_poly XOR drop_bit 1 c else drop_bit 1 c)"

fun crc_rounds :: "nat \<Rightarrow> u32 \<Rightarrow> u32" where
  "crc_rounds 0 c = c"
| "crc_rounds (Suc j) c = crc_rounds j (crc_shift c)"

definition build_table :: "u32 list" where
  "build_table = map (\<lambda>i. crc_rounds 8 (of_nat i)) [0 ..< 256]"

definition sl_crc32c_init :: u32 where
  "sl_crc32c_init = 0xFFFFFFFF"

fun sl_crc32c_update :: "u32 \<Rightarrow> bytes \<Rightarrow> u32" where
  "sl_crc32c_update crc [] = crc"
| "sl_crc32c_update crc (p # ps) =
     sl_crc32c_update (build_table ! unat ((crc XOR ucast p) AND 0xFF) XOR drop_bit 8 crc) ps"

definition sl_crc32c_finalize :: "u32 \<Rightarrow> u32" where
  "sl_crc32c_finalize crc = crc XOR 0xFFFFFFFF"

definition sl_crc32c :: "bytes \<Rightarrow> u32" where
  "sl_crc32c data = sl_crc32c_finalize (sl_crc32c_update sl_crc32c_init data)"

subsection \<open>Variable-length integers\<close>

lemma varint_shift_less: "0x80 \<le> v \<Longrightarrow> unat (drop_bit 7 v) < unat (v :: u64)"
  by (simp add: drop_bit_eq_div unat_div word_le_nat_alt div_less_dividend)

function varint_size_loop :: "u64 \<Rightarrow> int \<Rightarrow> int" where
  "varint_size_loop v n = (if v \<ge> 0x80 then varint_size_loop (drop_bit 7 v) (n + 1) else n)"
  by pat_completeness auto

termination
  by (relation "measure (\<lambda>(v, n). unat v)") (auto dest: varint_shift_less)

declare varint_size_loop.simps [simp del]

definition sl_varint_size_u64 :: "u64 \<Rightarrow> int" where
  "sl_varint_size_u64 v = varint_size_loop v 1"

function varint_encode_loop :: "u64 \<Rightarrow> nat \<Rightarrow> bytes \<Rightarrow> bytes option" where
  "varint_encode_loop v cap out =
     (if v \<ge> 0x80 then
        if length out \<ge> cap then None
        else varint_encode_loop (drop_bit 7 v) cap (out @ [ucast (v OR 0x80)])
      else if length out \<ge> cap then None
      else Some (out @ [ucast v]))"
  by pat_completeness auto

termination
  by (relation "measure (\<lambda>(v, cap, out). unat v)") (auto dest: varint_shift_less)

declare varint_encode_loop.simps [simp del]

definition sl_varint_encode_u64 :: "u64 \<Rightarrow> out_buf \<Rightarrow> bytes option" where
  "sl_varint_encode_u64 v out = (case out of None \<Rightarrow> None | Some cap \<Rightarrow> varint_encode_loop v cap [])"

text \<open>The decoding loop: the bytes left, the index, the value so far and the shift.\<close>

fun varint_decode_loop :: "bytes \<Rightarrow> nat \<Rightarrow> u64 \<Rightarrow> nat \<Rightarrow> (u64 \<times> nat) option" where
  "varint_decode_loop [] i acc sh = None"
| "varint_decode_loop (b # bs) i acc sh =
     (if \<not> i < 10 then None
      else
        let acc' = acc OR push_bit sh (ucast (b AND 0x7F)) in
        if b AND 0x80 = 0 then Some (acc', i + 1)
        else if sh + 7 > 63 then None
        else varint_decode_loop bs (i + 1) acc' (sh + 7))"

definition sl_varint_decode_u64 :: "bytes ptr \<Rightarrow> out_ref \<Rightarrow> (u64 \<times> nat) option" where
  "sl_varint_decode_u64 inp out =
     (case (inp, out) of (Some p, Some _) \<Rightarrow> varint_decode_loop p 0 0 0 | _ \<Rightarrow> None)"

subsection \<open>File metadata\<close>

abbreviation (input) SL_FILE_META_FIXED_LEN :: nat where "SL_FILE_META_FIXED_LEN \<equiv> 82"
abbreviation (input) SL_FILE_NAME_MAX :: nat where "SL_FILE_NAME_MAX \<equiv> 256"
abbreviation (input) SL_FILE_CHUNK_MIN :: u32 where "SL_FILE_CHUNK_MIN \<equiv> 1024"
abbreviation (input) SL_FILE_CHUNK_MAX :: u32 where "SL_FILE_CHUNK_MAX \<equiv> 65536"

record sl_file_meta_t =
  fm_total_size :: u64
  fm_chunk_size :: u32
  fm_total_chunks :: u32
  fm_mode :: u32
  fm_mtime_s :: u32
  fm_sha256 :: bytes
  fm_name :: bytes
  fm_name_len :: u16

fun meta_name_loop :: "bytes \<Rightarrow> nat \<Rightarrow> nat \<Rightarrow> nat \<Rightarrow> bool" where
  "meta_name_loop name n 0 i = True"
| "meta_name_loop name n (Suc k) i =
     (let c = name ! i in
      if c = 47 \<or> c = 92 \<or> c = 0 then False
      else if i = 0 \<and> c = 46 \<and> n \<ge> 2 \<and> name ! 1 = 46 then False
      else if c < 0x20 then False
      else meta_name_loop name n k (Suc i))"

definition sl_file_meta_validate :: "sl_file_meta_t ptr \<Rightarrow> int" where
  "sl_file_meta_validate mp =
     (case mp of
        None \<Rightarrow> - 1
      | Some m \<Rightarrow>
          let n = unat (fm_name_len m) in
          if fm_chunk_size m < SL_FILE_CHUNK_MIN \<or> fm_chunk_size m > SL_FILE_CHUNK_MAX then - 1
          else if n = 0 \<or> n > SL_FILE_NAME_MAX then - 1
          else if \<not> meta_name_loop (fm_name m) n n 0 then - 1
          else
            let expected = (fm_total_size m + ucast (fm_chunk_size m) - 1) div ucast (fm_chunk_size m) in
            if fm_total_size m = 0 then (if fm_total_chunks m \<noteq> 0 then - 1 else 0)
            else if (ucast (fm_total_chunks m) :: u64) \<noteq> expected then - 1
            else 0)"

definition sl_file_meta_pack :: "sl_file_meta_t ptr \<Rightarrow> out_buf \<Rightarrow> bytes option" where
  "sl_file_meta_pack mp out =
     (case (mp, out) of
        (Some m, Some out_cap) \<Rightarrow>
          if sl_file_meta_validate mp \<noteq> 0 then None
          else if out_cap < SL_FILE_META_FIXED_LEN + unat (fm_name_len m) then None
          else Some (pack_u64 (fm_total_size m) @ pack_u32 (fm_chunk_size m) @ pack_u32 (fm_total_chunks m)
                     @ pack_u32 (fm_mode m) @ pack_u32 (fm_mtime_s m) @ take 32 (fm_sha256 m)
                     @ pack_u16 (fm_name_len m) @ replicate 24 0 @ take (unat (fm_name_len m)) (fm_name m))
      | _ \<Rightarrow> None)"

definition meta_fields :: "bytes \<Rightarrow> sl_file_meta_t" where
  "meta_fields p = \<lparr>fm_total_size = unpack_u64 p, fm_chunk_size = unpack_u32 (drop 8 p),
     fm_total_chunks = unpack_u32 (drop 12 p), fm_mode = unpack_u32 (drop 16 p),
     fm_mtime_s = unpack_u32 (drop 20 p), fm_sha256 = take 32 (drop 24 p),
     fm_name = replicate (SL_FILE_NAME_MAX + 1) 0, fm_name_len = unpack_u16 (drop 56 p)\<rparr>"

definition sl_file_meta_unpack :: "bytes ptr \<Rightarrow> sl_file_meta_t ptr \<Rightarrow> int \<times> sl_file_meta_t ptr" where
  "sl_file_meta_unpack inp out =
     (case (inp, out) of
        (Some p, Some _) \<Rightarrow>
          if length p < SL_FILE_META_FIXED_LEN then (- 1, out)
          else
            let m = meta_fields p; n = unat (fm_name_len m) in
            if n > SL_FILE_NAME_MAX then (- 1, Some m)
            else if length p < SL_FILE_META_FIXED_LEN + n then (- 1, Some m)
            else
              let m' = m\<lparr>fm_name := (write_at 0 (take n (drop SL_FILE_META_FIXED_LEN p)) (fm_name m))[n := 0]\<rparr>
              in (sl_file_meta_validate (Some m'), Some m')
      | _ \<Rightarrow> (- 1, out))"

subsection \<open>File chunks\<close>

abbreviation (input) SL_FILE_CHUNK_HEADER_LEN :: nat where "SL_FILE_CHUNK_HEADER_LEN \<equiv> 16"

record sl_file_chunk_t =
  fc_chunk_index :: u32
  fc_data_len :: u32
  fc_crc32c :: u32
  fc_flags :: u8
  fc_chunk_data :: "bytes ptr"

definition sl_file_chunk_pack :: "sl_file_chunk_t ptr \<Rightarrow> out_buf \<Rightarrow> bytes option" where
  "sl_file_chunk_pack cp out =
     (case (cp, out) of
        (Some c, Some out_cap) \<Rightarrow>
          let n = unat (fc_data_len c) in
          if n > 0 \<and> fc_chunk_data c = NULL then None
          else if out_cap < SL_FILE_CHUNK_HEADER_LEN + n then None
          else
            let data = (case fc_chunk_data c of None \<Rightarrow> [] | Some d \<Rightarrow> take n d);
                crc = (if n > 0 then sl_crc32c data else 0)
            in Some (pack_u32 (fc_chunk_index c) @ pack_u32 (fc_data_len c) @ pack_u32 crc
                     @ [fc_flags c, 0, 0, 0] @ data)
      | _ \<Rightarrow> None)"

definition sl_file_chunk_unpack :: "bytes ptr \<Rightarrow> out_ref \<Rightarrow> sl_file_chunk_t option" where
  "sl_file_chunk_unpack inp out =
     (case (inp, out) of
        (Some p, Some _) \<Rightarrow>
          if length p < SL_FILE_CHUNK_HEADER_LEN then None
          else
            let len = unpack_u32 (drop 4 p) in
            if p ! 13 \<noteq> 0 \<or> p ! 14 \<noteq> 0 \<or> p ! 15 \<noteq> 0 then None
            else if len > SL_FILE_CHUNK_MAX then None
            else if length p < SL_FILE_CHUNK_HEADER_LEN + unat len then None
            else Some \<lparr>fc_chunk_index = unpack_u32 p, fc_data_len = len, fc_crc32c = unpack_u32 (drop 8 p),
                       fc_flags = p ! 12,
                       fc_chunk_data = (if unat len > 0
                         then Some (take (unat len) (drop SL_FILE_CHUNK_HEADER_LEN p)) else NULL)\<rparr>
      | _ \<Rightarrow> None)"

definition sl_file_chunk_crc_ok :: "sl_file_chunk_t ptr \<Rightarrow> bool" where
  "sl_file_chunk_crc_ok cp =
     (case cp of
        None \<Rightarrow> False
      | Some c \<Rightarrow>
          if fc_data_len c = 0 then fc_crc32c c = 0
          else sl_crc32c (case fc_chunk_data c of None \<Rightarrow> [] | Some d \<Rightarrow> take (unat (fc_data_len c)) d) = fc_crc32c c)"

subsection \<open>Resume maps\<close>

record sl_resume_map_t =
  rm_bits :: bytes
  rm_total_chunks :: u32
  rm_received_chunks :: u32

definition resume_bytes :: "u32 \<Rightarrow> nat" where
  "resume_bytes total_chunks = unat ((total_chunks + 7) div 8)"

definition sl_resume_map_init :: "bool \<Rightarrow> sl_resume_map_t ptr \<Rightarrow> u32 \<Rightarrow> int \<times> sl_resume_map_t ptr" where
  "sl_resume_map_init calloc_ok r total_chunks =
     (case r of
        None \<Rightarrow> (- 1, NULL)
      | Some s \<Rightarrow>
          let n = resume_bytes total_chunks in
          if \<not> calloc_ok then (- 1, Some (s\<lparr>rm_bits := []\<rparr>))
          else (0, Some \<lparr>rm_bits = replicate (if n \<noteq> 0 then n else 1) 0, rm_total_chunks = total_chunks,
                         rm_received_chunks = 0\<rparr>))"

definition sl_resume_map_free :: "sl_resume_map_t ptr \<Rightarrow> sl_resume_map_t ptr" where
  "sl_resume_map_free r =
     (case r of None \<Rightarrow> NULL | Some _ \<Rightarrow> Some \<lparr>rm_bits = [], rm_total_chunks = 0, rm_received_chunks = 0\<rparr>)"

definition sl_resume_map_set :: "sl_resume_map_t ptr \<Rightarrow> u32 \<Rightarrow> (int \<times> sl_resume_map_t ptr) option" where
  "sl_resume_map_set r chunk_index =
     (case r of
        None \<Rightarrow> Some (- 1, NULL)
      | Some s \<Rightarrow>
          if chunk_index \<ge> rm_total_chunks s then Some (- 1, r)
          else
            let j = unat chunk_index div 8; msk = push_bit (unat chunk_index mod 8) 1 in
            if j \<ge> length (rm_bits s) then None
            else if rm_bits s ! j AND msk = 0
            then Some (0, Some (s\<lparr>rm_bits := (rm_bits s)[j := rm_bits s ! j OR msk],
                                 rm_received_chunks := rm_received_chunks s + 1\<rparr>))
            else Some (0, r))"

definition sl_resume_map_has :: "sl_resume_map_t ptr \<Rightarrow> u32 \<Rightarrow> bool option" where
  "sl_resume_map_has r chunk_index =
     (case r of
        None \<Rightarrow> Some False
      | Some s \<Rightarrow>
          if chunk_index \<ge> rm_total_chunks s then Some False
          else
            let j = unat chunk_index div 8 in
            if j \<ge> length (rm_bits s) then None
            else Some (drop_bit (unat chunk_index mod 8) (rm_bits s ! j) AND 1 \<noteq> 0))"

definition sl_resume_map_complete :: "sl_resume_map_t ptr \<Rightarrow> bool" where
  "sl_resume_map_complete r =
     (case r of None \<Rightarrow> False | Some s \<Rightarrow> rm_received_chunks s = rm_total_chunks s)"

text \<open>The indices still to visit, the missing ones found so far, and whether more were left out.\<close>

fun missing_loop :: "sl_resume_map_t \<Rightarrow> nat \<Rightarrow> nat \<Rightarrow> nat \<Rightarrow> u32 list \<Rightarrow> (u32 list \<times> bool) option" where
  "missing_loop r cap 0 i found = Some (found, False)"
| "missing_loop r cap (Suc k) i found =
     (case sl_resume_map_has (Some r) (of_nat i) of
        None \<Rightarrow> None
      | Some True \<Rightarrow> missing_loop r cap k (Suc i) found
      | Some False \<Rightarrow>
          if length found < cap then missing_loop r cap k (Suc i) (found @ [of_nat i])
          else Some (found, True))"

definition sl_resume_map_missing :: "sl_resume_map_t ptr \<Rightarrow> out_buf \<Rightarrow> (u32 list \<times> bool) option" where
  "sl_resume_map_missing r out =
     (case (r, out) of
        (Some s, Some out_cap) \<Rightarrow> missing_loop s out_cap (unat (rm_total_chunks s)) 0 []
      | _ \<Rightarrow> Some ([], False))"

definition sl_resume_map_serialize :: "sl_resume_map_t ptr \<Rightarrow> out_buf \<Rightarrow> bytes option" where
  "sl_resume_map_serialize r out =
     (case (r, out) of
        (Some s, Some out_cap) \<Rightarrow>
          if out_cap < resume_bytes (rm_total_chunks s) then None
          else Some (take (resume_bytes (rm_total_chunks s)) (rm_bits s))
      | _ \<Rightarrow> None)"

fun count_loop :: "sl_resume_map_t \<Rightarrow> nat \<Rightarrow> nat \<Rightarrow> sl_resume_map_t option" where
  "count_loop r 0 i = Some r"
| "count_loop r (Suc k) i =
     (case sl_resume_map_has (Some r) (of_nat i) of
        None \<Rightarrow> None
      | Some b \<Rightarrow> count_loop (if b then r\<lparr>rm_received_chunks := rm_received_chunks r + 1\<rparr> else r) k (Suc i))"

definition sl_resume_map_deserialize ::
  "bool \<Rightarrow> sl_resume_map_t ptr \<Rightarrow> bytes ptr \<Rightarrow> u32 \<Rightarrow> (int \<times> sl_resume_map_t ptr) option" where
  "sl_resume_map_deserialize calloc_ok r inp total_chunks =
     (case (r, inp) of
        (Some _, Some p) \<Rightarrow>
          let n = resume_bytes total_chunks in
          if length p < n then Some (- 1, r)
          else
            (case sl_resume_map_init calloc_ok r total_chunks of
               (rc, r1) \<Rightarrow>
                 if rc \<noteq> 0 then Some (- 1, r1)
                 else
                   let s = (the r1)\<lparr>rm_bits := write_at 0 (take n p) (rm_bits (the r1)), rm_received_chunks := 0\<rparr>
                   in map_option (\<lambda>s'. (0, Some s')) (count_loop s (unat total_chunks) 0))
      | _ \<Rightarrow> Some (- 1, r))"

subsection \<open>The checksum table and error detection\<close>

lemma and_1_bit: "(c :: u32) AND 1 \<noteq> 0 \<longleftrightarrow> bit c 0"
  by (simp add: and_one_eq mod_2_eq_odd bit_0)

lemma crc_shift_alt: "crc_shift c = (if bit c 0 then crc_poly else 0) XOR drop_bit 1 c"
  by (simp add: crc_shift_def and_1_bit)

lemma crc_shift_xor: "crc_shift (a XOR b) = crc_shift a XOR crc_shift b"
  by (auto simp: crc_shift_alt bit_eq_iff bit_simps)

lemma crc_rounds_xor: "crc_rounds n (a XOR b) = crc_rounds n a XOR crc_rounds n b"
  by (induction n arbitrary: a b) (simp_all add: crc_shift_xor)

lemma crc_rounds_high: "(\<And>i. i < n \<Longrightarrow> \<not> bit c i) \<Longrightarrow> crc_rounds n c = drop_bit n c"
proof (induction n arbitrary: c)
  case (Suc n)
  have s: "crc_shift c = drop_bit 1 c" using Suc.prems [of 0] by (simp add: crc_shift_alt)
  have "\<not> bit (drop_bit 1 c) i" if "i < n" for i
    using Suc.prems [of "Suc i"] that by (simp add: bit_drop_bit_eq)
  from Suc.IH [OF this] show ?case by (simp add: s)
qed simp

lemma ff_mask: "(0xFF :: u32) = mask 8"
  by (simp add: mask_eq_exp_minus_1)

lemma crc_rounds_split: "crc_rounds 8 y = crc_rounds 8 (y AND 0xFF) XOR drop_bit 8 y"
proof -
  have "y = (y AND mask 8) XOR (y AND NOT (mask 8))"
    by (auto simp: bit_eq_iff bit_simps)
  then have "crc_rounds 8 y = crc_rounds 8 ((y AND mask 8) XOR (y AND NOT (mask 8)))" by (rule arg_cong)
  then have "crc_rounds 8 y = crc_rounds 8 (y AND mask 8) XOR crc_rounds 8 (y AND NOT (mask 8))"
    unfolding crc_rounds_xor .
  moreover have "crc_rounds 8 (y AND NOT (mask 8)) = drop_bit 8 (y AND NOT (mask 8))"
    by (rule crc_rounds_high) (simp add: bit_simps)
  moreover have "drop_bit 8 (y AND NOT (mask 8)) = drop_bit 8 y"
    by (auto simp: bit_eq_iff bit_simps dest: bit_imp_le_length)
  ultimately show ?thesis unfolding ff_mask by simp
qed

lemma build_table_nth: "build_table ! unat (y AND 0xFF) = crc_rounds 8 (y AND 0xFF)"
proof -
  have "y AND 0xFF = take_bit 8 y"
    unfolding ff_mask by (rule take_bit_eq_mask [symmetric])
  then have "unat (y AND 0xFF) = unat y mod 256" by (simp add: take_bit_eq_mod unat_mod)
  then have "unat (y AND 0xFF) < 256" by simp
  then show ?thesis by (simp add: build_table_def)
qed

lemma crc_byte: "build_table ! unat ((crc XOR ucast (p :: u8)) AND 0xFF) XOR drop_bit 8 crc = crc_rounds 8 (crc XOR ucast p)"
proof -
  have "drop_bit 8 (crc XOR ucast p) = drop_bit 8 crc"
    by (auto simp: bit_eq_iff bit_simps bit_u8_ge)
  then show ?thesis by (simp add: build_table_nth crc_rounds_split [of "crc XOR ucast p"])
qed

lemma sl_crc32c_update_eq: "sl_crc32c_update crc ds = foldl (\<lambda>c p. crc_rounds 8 (c XOR ucast p)) crc ds"
  by (induction ds arbitrary: crc) (simp_all add: crc_byte)

lemma crc_poly_top: "bit crc_poly 31"
  by (simp add: crc_poly_def bit_numeral_rec)

lemma xor_cancel_left: "(p XOR a :: u32) = p XOR b \<longleftrightarrow> a = b"
  by (auto simp: bit_eq_iff bit_simps)

lemma xor_cancel_right: "(a XOR p :: u32) = b XOR p \<longleftrightarrow> a = b"
  by (auto simp: bit_eq_iff bit_simps)

lemma crc_shift_inject: "crc_shift a = crc_shift b \<longleftrightarrow> a = b"
proof
  assume eq: "crc_shift a = crc_shift b"
  have top: "bit (crc_shift c) 31 \<longleftrightarrow> bit c 0" for c
    by (simp add: crc_shift_alt bit_simps crc_poly_top impossible_bit)
  from eq top have z: "bit a 0 \<longleftrightarrow> bit b 0" by metis
  then have "drop_bit 1 a = drop_bit 1 b"
    using xor_cancel_left [of "if bit a 0 then crc_poly else 0"] eq by (simp add: crc_shift_alt)
  then have s: "bit a (Suc n) \<longleftrightarrow> bit b (Suc n)" for n
    by (cases "n < 32") (auto simp: bit_eq_iff bit_simps impossible_bit)
  show "a = b"
  proof (rule bit_word_eqI)
    fix n show "bit a n \<longleftrightarrow> bit b n" using z s by (cases n) auto
  qed
qed simp

lemma crc_rounds_inject: "crc_rounds n a = crc_rounds n b \<longleftrightarrow> a = b"
  by (induction n arbitrary: a b) (simp_all add: crc_shift_inject)

lemma sl_crc32c_update_inject: "sl_crc32c_update a ds = sl_crc32c_update b ds \<longleftrightarrow> a = b"
proof (induction ds arbitrary: a b)
  case (Cons d ds)
  then show ?case by (simp add: crc_byte crc_rounds_inject xor_cancel_right)
qed simp

lemma sl_crc32c_update_append: "sl_crc32c_update crc (xs @ ys) = sl_crc32c_update (sl_crc32c_update crc xs) ys"
  by (simp add: sl_crc32c_update_eq)

lemma ucast_u8_u32_inject: "(ucast (a :: u8) :: u32) = ucast b \<longleftrightarrow> a = b"
  by (metis unat_widen(2) word_unat_eq_iff)

lemma sl_crc32c_byte_change:
  assumes "i < length ds" "b \<noteq> ds ! i"
  shows "sl_crc32c (ds[i := b]) \<noteq> sl_crc32c ds"
proof -
  have "ds[i := b] = take i ds @ b # drop (Suc i) ds" using assms(1) by (rule upd_conv_take_nth_drop)
  moreover have "ds = take i ds @ ds ! i # drop (Suc i) ds" using assms(1) by (rule id_take_nth_drop)
  ultimately have "sl_crc32c_update c (ds[i := b]) = sl_crc32c_update c ds \<longleftrightarrow>
      sl_crc32c_update (sl_crc32c_update c (take i ds)) (b # drop (Suc i) ds)
      = sl_crc32c_update (sl_crc32c_update c (take i ds)) (ds ! i # drop (Suc i) ds)" for c
    using sl_crc32c_update_append by metis
  then have "sl_crc32c_update c (ds[i := b]) \<noteq> sl_crc32c_update c ds" for c
    using assms(2) by (simp add: crc_byte crc_rounds_inject sl_crc32c_update_inject xor_cancel_left ucast_u8_u32_inject)
  then show ?thesis by (simp add: sl_crc32c_def sl_crc32c_finalize_def xor_cancel_right)
qed

text \<open>
  The table-driven CRC-32C is the bitwise one (eight shift-and-xor rounds with the reflected
  Castagnoli polynomial for every byte), can be fed in pieces, and detects every corruption of a
  single byte: changing any one byte of the data changes the checksum.
\<close>

theorem crc32c_detects_byte_errors:
  "sl_crc32c ds = sl_crc32c_finalize (foldl (\<lambda>c p. crc_rounds 8 (c XOR ucast p)) sl_crc32c_init ds)
   \<and> sl_crc32c_update (sl_crc32c_update c xs) ys = sl_crc32c_update c (xs @ ys)
   \<and> (i < length ds \<longrightarrow> b \<noteq> ds ! i \<longrightarrow> sl_crc32c (ds[i := b]) \<noteq> sl_crc32c ds)"
proof (intro conjI impI)
  show "sl_crc32c ds = sl_crc32c_finalize (foldl (\<lambda>c p. crc_rounds 8 (c XOR ucast p)) sl_crc32c_init ds)"
    by (simp add: sl_crc32c_def sl_crc32c_update_eq)
  show "sl_crc32c_update (sl_crc32c_update c xs) ys = sl_crc32c_update c (xs @ ys)"
    by (simp add: sl_crc32c_update_append)
qed (rule sl_crc32c_byte_change)

theorem crc32c_detects_byte_errors_witness:
  "sl_crc32c ([1, 2, 3][2 := 9]) \<noteq> sl_crc32c [1, 2, 3]"
  using crc32c_detects_byte_errors [THEN conjunct2, THEN conjunct2, of 2 "[1, 2, 3]" 9] by simp

subsection \<open>Varints\<close>

text \<open>The canonical encoding the loops compute.\<close>

function varint_bytes :: "u64 \<Rightarrow> bytes" where
  "varint_bytes v = (if v \<ge> 0x80 then ucast (v OR 0x80) # varint_bytes (drop_bit 7 v) else [ucast v])"
  by pat_completeness auto

termination
  by (relation "measure unat") (auto dest: varint_shift_less)

declare varint_bytes.simps [simp del]

lemma varint_encode_loop_eq:
  "varint_encode_loop v cap out =
     (if length out + length (varint_bytes v) \<le> cap then Some (out @ varint_bytes v) else None)"
proof (induction v arbitrary: out rule: varint_bytes.induct)
  case (1 v)
  show ?case
  proof (cases "v \<ge> 0x80")
    case True
    with 1 show ?thesis
      by (subst varint_encode_loop.simps, subst (1 2) varint_bytes.simps) auto
  next
    case False
    then show ?thesis by (subst varint_encode_loop.simps, subst (1 2) varint_bytes.simps) auto
  qed
qed

lemma varint_size_loop_eq: "varint_size_loop v n = n + int (length (varint_bytes v)) - 1"
proof (induction v arbitrary: n rule: varint_bytes.induct)
  case (1 v)
  then show ?case
    by (subst varint_size_loop.simps, subst varint_bytes.simps) auto
qed

lemma varint_split: "push_bit sh (take_bit 7 v) OR push_bit (sh + 7) (drop_bit 7 v) = push_bit sh (v :: u64)"
proof (rule bit_word_eqI)
  fix n assume "n < LENGTH(64)"
  show "bit (push_bit sh (take_bit 7 v) OR push_bit (sh + 7) (drop_bit 7 v)) n \<longleftrightarrow> bit (push_bit sh v) n"
  proof (cases "sh + 7 \<le> n")
    case True
    then have "7 + (n - (sh + 7)) = n - sh" by simp
    with True show ?thesis by (auto simp: bit_simps)
  qed (auto simp: bit_simps)
qed

lemma varint_masks: "(0x7F :: u8) = mask 7" "(0x80 :: u8) = 2 ^ 7" "(0x80 :: u64) = 2 ^ 7"
  by (simp_all add: mask_eq_exp_minus_1)

lemma ucast_or_exp_mask: "m < 8 \<Longrightarrow> ucast (ucast (v OR 2 ^ m :: u64) AND mask m :: u8) = (take_bit m v :: u64)"
  by (rule bit_word_eqI) (auto simp: bit_simps)

lemma varint_more_byte:
  "ucast (ucast (v OR 0x80 :: u64) AND 0x7F :: u8) = (take_bit 7 v :: u64)" "(ucast (v OR 0x80) :: u8) AND 0x80 \<noteq> 0"
proof -
  show "ucast (ucast (v OR 0x80 :: u64) AND 0x7F :: u8) = (take_bit 7 v :: u64)"
    unfolding varint_masks by (rule ucast_or_exp_mask) simp
  show "(ucast (v OR 0x80) :: u8) AND 0x80 \<noteq> 0"
    unfolding varint_masks and_exp_eq_0_iff_not_bit by (simp add: bit_simps)
qed

lemma varint_small: "v < 0x80 \<Longrightarrow> take_bit 7 v = (v :: u64)"
  by (simp add: take_bit_eq_mod word_unat_eq_iff unat_mod word_less_nat_alt)

lemma varint_last_byte:
  assumes "v < 0x80"
  shows "ucast (ucast v AND 0x7F :: u8) = (v :: u64)" "(ucast v :: u8) AND 0x80 = 0"
proof -
  have "ucast (ucast v AND 0x7F :: u8) = take_bit 7 v"
    unfolding varint_masks by (auto simp: bit_eq_iff bit_simps)
  then show "ucast (ucast v AND 0x7F :: u8) = (v :: u64)" by (simp add: varint_small [OF assms])
  have "\<not> bit (take_bit 7 v) 7" by (simp add: bit_take_bit_iff)
  then have "\<not> bit v 7" unfolding varint_small [OF assms] .
  then show "(ucast v :: u8) AND 0x80 = 0"
    unfolding varint_masks and_exp_eq_0_iff_not_bit by (simp add: bit_simps)
qed

lemma varint_decode_bytes:
  assumes "unat v < 2 ^ (64 - sh)" "sh = 7 * i" "i < 10"
  shows "varint_decode_loop (varint_bytes v @ rest) i acc sh = Some (acc OR push_bit sh v, i + length (varint_bytes v))"
  using assms
proof (induction v arbitrary: i acc sh rule: varint_bytes.induct)
  case (1 v)
  show ?case
  proof (cases "v \<ge> 0x80")
    case True
    have "2 ^ 7 \<le> unat v" using True by (simp add: word_le_nat_alt)
    with 1(2) have "(2 :: nat) ^ 7 < 2 ^ (64 - sh)" by simp
    then have sh: "7 < 64 - sh" by (simp only: power_strict_increasing_iff)
    then have "64 - sh = 7 + (64 - (sh + 7))" by simp
    then have "(2 :: nat) ^ (64 - sh) = 2 ^ 7 * 2 ^ (64 - (sh + 7))" by (simp only: power_add)
    then have d: "unat (drop_bit 7 v) < 2 ^ (64 - (sh + 7))"
      using 1(2) by (simp add: drop_bit_eq_div unat_div less_mult_imp_div_less mult.commute)
    have "varint_decode_loop (varint_bytes (drop_bit 7 v) @ rest) (i + 1) (acc OR push_bit sh (take_bit 7 v)) (sh + 7)
        = Some ((acc OR push_bit sh (take_bit 7 v)) OR push_bit (sh + 7) (drop_bit 7 v), i + 1 + length (varint_bytes (drop_bit 7 v)))"
      using 1(3,4) sh by (intro 1(1) True d) auto
    moreover have "varint_bytes v = ucast (v OR 0x80) # varint_bytes (drop_bit 7 v)"
      using True by (subst varint_bytes.simps) simp
    ultimately show ?thesis
      using sh 1(4) by (simp add: Let_def varint_more_byte or.assoc varint_split)
  next
    case False
    then have "varint_bytes v = [ucast v]" by (subst varint_bytes.simps) simp
    with False 1(4) show ?thesis by (simp add: Let_def varint_last_byte)
  qed
qed

lemma length_varint_bytes: "0 < k \<Longrightarrow> unat v < 2 ^ (7 * k) \<Longrightarrow> length (varint_bytes v) \<le> k"
proof (induction k arbitrary: v)
  case (Suc k)
  show ?case
  proof (cases "v \<ge> 0x80")
    case True
    have "k \<noteq> 0" using True Suc.prems(2) by (cases k) (simp_all add: word_le_nat_alt)
    have "unat (drop_bit 7 v) < 2 ^ (7 * k)"
      using Suc.prems(2) by (simp add: drop_bit_eq_div unat_div less_mult_imp_div_less power_add mult.commute)
    with Suc.IH [of "drop_bit 7 v"] \<open>k \<noteq> 0\<close> True show ?thesis by (subst varint_bytes.simps) simp
  qed (subst varint_bytes.simps, simp)
qed simp

text \<open>
  Varints round-trip: with room for its length, every 64-bit value is encoded, in at most ten
  bytes and exactly as many as \<open>sl_varint_size_u64\<close> predicts, and decoding the encoding returns
  the value and that length, whatever bytes follow; without that room the encoder refuses.
\<close>

theorem varint_roundtrip:
  "\<exists>w. 0 < length w \<and> length w \<le> 10 \<and> sl_varint_size_u64 v = int (length w)
     \<and> sl_varint_encode_u64 v (Some cap) = (if length w \<le> cap then Some w else None)
     \<and> sl_varint_decode_u64 (Some (w @ rest)) OUT = Some (v, length w)"
proof -
  have "unat v < 2 ^ 64" using u64_less [of v] by simp
  moreover have "length (varint_bytes v) \<le> 10"
    using u64_less [of v] by (intro length_varint_bytes) simp_all
  moreover have "0 < length (varint_bytes v)" by (subst varint_bytes.simps) simp
  ultimately show ?thesis
    using varint_decode_bytes [of v 0 0 rest 0]
    by (intro exI [of _ "varint_bytes v"])
      (simp add: sl_varint_size_u64_def varint_size_loop_eq sl_varint_encode_u64_def varint_encode_loop_eq
        sl_varint_decode_u64_def)
qed

text \<open>
  A tenth byte with more than one payload bit overflows 64 bits; the decoder drops the excess
  instead of failing.
\<close>

lemma varint_overflow_accepted:
  "sl_varint_decode_u64 (Some [0xFF, 0xFF, 0xFF, 0xFF, 0xFF, 0xFF, 0xFF, 0xFF, 0xFF, 0x02]) OUT
     = Some (0x7FFFFFFFFFFFFFFF, 10)"
  by (simp add: sl_varint_decode_u64_def Let_def)

subsection \<open>File metadata on the wire\<close>

text \<open>Names that stay inside the receiver's directory.\<close>

definition name_char :: "u8 \<Rightarrow> bool" where
  "name_char c \<longleftrightarrow> c \<noteq> 47 \<and> c \<noteq> 92 \<and> c \<ge> 0x20"

definition safe_name :: "bytes \<Rightarrow> bool" where
  "safe_name n \<longleftrightarrow> n \<noteq> [] \<and> length n \<le> SL_FILE_NAME_MAX \<and> list_all name_char n \<and> take 2 n \<noteq> [46, 46]"

definition fm_file_name :: "sl_file_meta_t \<Rightarrow> bytes" where
  "fm_file_name m = take (unat (fm_name_len m)) (fm_name m)"

definition meta_ok :: "sl_file_meta_t \<Rightarrow> bool" where
  "meta_ok m \<longleftrightarrow> length (fm_sha256 m) = 32 \<and> length (fm_name m) = SL_FILE_NAME_MAX + 1"

lemma meta_name_loop_iff:
  "meta_name_loop name n k i \<longleftrightarrow>
     (\<forall>j<k. name_char (name ! (i + j))) \<and> \<not> (i = 0 \<and> 0 < k \<and> name ! 0 = 46 \<and> n \<ge> 2 \<and> name ! 1 = 46)"
proof (induction k arbitrary: i)
  case (Suc k)
  have "(\<forall>j<Suc k. name_char (name ! (i + j))) \<longleftrightarrow> name_char (name ! i) \<and> (\<forall>j<k. name_char (name ! (Suc i + j)))"
    by (auto simp: less_Suc_eq_0_disj)
  moreover have "meta_name_loop name n (Suc k) i \<longleftrightarrow> name_char (name ! i)
      \<and> \<not> (i = 0 \<and> name ! 0 = 46 \<and> n \<ge> 2 \<and> name ! 1 = 46) \<and> meta_name_loop name n k (Suc i)"
    by (cases "name_char (name ! i)"; cases "i = 0") (auto simp: Let_def name_char_def not_less)
  ultimately show ?case unfolding Suc.IH [of "Suc i"] by blast
qed simp

lemma meta_name_loop_safe:
  assumes "length (fm_name m) = 257" "n = unat (fm_name_len m)" "n \<noteq> 0" "n \<le> 256"
  shows "meta_name_loop (fm_name m) n n 0 \<longleftrightarrow> safe_name (fm_file_name m)"
proof -
  have "length (fm_file_name m) = n" using assms by (simp add: fm_file_name_def)
  moreover have "(\<forall>j<n. name_char (fm_name m ! (0 + j))) \<longleftrightarrow> list_all name_char (fm_file_name m)"
    using assms by (auto simp: fm_file_name_def list_all_length)
  moreover have "take 2 (fm_file_name m) = [46, 46] \<longleftrightarrow> fm_name m ! 0 = 46 \<and> n \<ge> 2 \<and> fm_name m ! 1 = 46"
  proof (cases "n \<ge> 2")
    case True
    then have "take 2 (fm_file_name m) = take 2 (fm_name m)" using assms by (simp add: fm_file_name_def min_def)
    also have "\<dots> = [fm_name m ! 0, fm_name m ! 1]"
      using assms by (simp add: numeral_2_eq_2 take_Suc_conv_app_nth)
    finally show ?thesis using True by simp
  next
    case False
    then have "length (take 2 (fm_file_name m)) \<noteq> 2" using assms by (simp add: fm_file_name_def)
    then show ?thesis using False by auto
  qed
  ultimately show ?thesis
    using assms(3,4) unfolding meta_name_loop_iff safe_name_def by auto
qed

definition chunk_count :: "sl_file_meta_t \<Rightarrow> nat" where
  "chunk_count m = (unat (fm_total_size m) + unat (fm_chunk_size m) - 1) div unat (fm_chunk_size m)"

lemma expected_chunks:
  fixes t :: u64 and c :: u32
  assumes "unat t + unat c \<le> 2 ^ 64" "c \<noteq> 0"
  shows "unat ((t + ucast c - 1) div ucast c) = (unat t + unat c - 1) div unat c"
proof -
  have c: "unat (ucast c :: u64) = unat c" by (simp add: unat_widen)
  have "0 < unat c" using assms(2) by (simp add: unat_gt_0)
  then have "unat (t + ucast c - 1) = unat t + unat c - 1"
    using assms(1) c
    by (cases "unat t + unat c = 2 ^ 64") (simp_all add: unat_word_ariths unat_sub_if_size word_size mod_if)
  then show ?thesis by (simp add: unat_div c)
qed

lemma sl_file_meta_validate_iff:
  assumes "length (fm_name m) = 257" "unat (fm_total_size m) + unat (fm_chunk_size m) \<le> 2 ^ 64"
  shows "sl_file_meta_validate (Some m) = 0 \<longleftrightarrow>
    1024 \<le> unat (fm_chunk_size m) \<and> unat (fm_chunk_size m) \<le> 65536
    \<and> safe_name (fm_file_name m) \<and> unat (fm_total_chunks m) = chunk_count m"
proof -
  have n: "safe_name (fm_file_name m) \<Longrightarrow> unat (fm_name_len m) \<noteq> 0 \<and> unat (fm_name_len m) \<le> 256"
    using assms(1) by (auto simp: safe_name_def fm_file_name_def)
  have t: "unat (fm_total_chunks m) = chunk_count m \<longleftrightarrow>
      (if fm_total_size m = 0 then fm_total_chunks m = 0
       else ucast (fm_total_chunks m) = (fm_total_size m + ucast (fm_chunk_size m) - 1) div ucast (fm_chunk_size m))"
    if "1024 \<le> unat (fm_chunk_size m)"
  proof -
    have "fm_chunk_size m \<noteq> 0" using that by auto
    note e = expected_chunks [OF assms(2) this]
    have z: "fm_total_size m = 0 \<Longrightarrow> chunk_count m = 0" using that by (simp add: chunk_count_def)
    have "unat (fm_total_chunks m) = unat (ucast (fm_total_chunks m) :: u64)" by (simp add: unat_widen)
    with z show ?thesis by (simp add: word_unat_eq_iff [where 'a = 64] e chunk_count_def) (simp add: unat_eq_zero)
  qed
  have c: "fm_chunk_size m < 1024 \<longleftrightarrow> \<not> 1024 \<le> unat (fm_chunk_size m)"
    "fm_chunk_size m > 65536 \<longleftrightarrow> \<not> unat (fm_chunk_size m) \<le> 65536"
    by (simp_all add: word_less_nat_alt not_le)
  show ?thesis
  proof (cases "1024 \<le> unat (fm_chunk_size m) \<and> unat (fm_chunk_size m) \<le> 65536 \<and> safe_name (fm_file_name m)")
    case True
    then have "meta_name_loop (fm_name m) (unat (fm_name_len m)) (unat (fm_name_len m)) 0"
      using n meta_name_loop_safe [OF assms(1) refl] by blast
    with True t n show ?thesis by (simp add: sl_file_meta_validate_def Let_def c)
  next
    case False
    then show ?thesis
      using meta_name_loop_safe [OF assms(1) refl] by (auto simp: sl_file_meta_validate_def Let_def c)
  qed
qed

lemma sl_file_meta_pack_validates: "sl_file_meta_pack (Some m) out = Some w \<Longrightarrow> sl_file_meta_validate (Some m) = 0"
  by (auto simp: sl_file_meta_pack_def split: option.splits if_splits)

lemma meta_unpack_shape:
  assumes "sl_file_meta_unpack (Some p) (Some m0) = (0, Some m)"
  defines "n \<equiv> unat (fm_name_len m)"
  shows "sl_file_meta_validate (Some m) = 0" "82 + n \<le> length p" "n \<le> 256"
    "m = (meta_fields p)\<lparr>fm_name := (write_at 0 (take n (drop 82 p)) (fm_name (meta_fields p)))[n := 0]\<rparr>"
proof -
  let ?n = "unat (fm_name_len (meta_fields p))"
  have "82 + ?n \<le> length p \<and> ?n \<le> 256
    \<and> m = (meta_fields p)\<lparr>fm_name := (write_at 0 (take ?n (drop 82 p)) (fm_name (meta_fields p)))[?n := 0]\<rparr>
    \<and> sl_file_meta_validate (Some m) = 0"
    using assms(1) by (auto simp: sl_file_meta_unpack_def Let_def split: if_splits)
  moreover from this have "?n = n" by (auto simp: n_def)
  ultimately show "sl_file_meta_validate (Some m) = 0" "82 + n \<le> length p" "n \<le> 256"
    "m = (meta_fields p)\<lparr>fm_name := (write_at 0 (take n (drop 82 p)) (fm_name (meta_fields p)))[n := 0]\<rparr>"
    by metis+
qed

lemma meta_unpack_name:
  assumes "n \<le> 256" "82 + n \<le> length p"
    "fm_name m = (write_at 0 (take n (drop 82 p)) (replicate 257 0))[n := 0]" "unat (fm_name_len m) = n"
  shows "length (fm_name m) = 257" "fm_name m ! n = 0" "fm_file_name m = take n (drop 82 p)"
proof -
  have "length (take n (drop 82 p)) = n" using assms(2) by simp
  with assms show "length (fm_name m) = 257" "fm_name m ! n = 0" "fm_file_name m = take n (drop 82 p)"
    by (simp_all add: write_at_def fm_file_name_def)
qed

lemma meta_fields_pack:
  assumes "meta_ok m" "unat (fm_name_len m) \<le> 256"
    "w = pack_u64 (fm_total_size m) @ pack_u32 (fm_chunk_size m) @ pack_u32 (fm_total_chunks m)
       @ pack_u32 (fm_mode m) @ pack_u32 (fm_mtime_s m) @ take 32 (fm_sha256 m)
       @ pack_u16 (fm_name_len m) @ replicate 24 0 @ fm_file_name m"
  shows "meta_fields (w @ rest) = m\<lparr>fm_name := replicate 257 0\<rparr>"
    "take (unat (fm_name_len m)) (drop 82 (w @ rest)) = fm_file_name m"
  using assms by (simp_all add: meta_fields_def meta_ok_def fm_file_name_def)

lemma sl_file_meta_validate_name:
  assumes "length (fm_name m) = 257" "length (fm_name r) = 257" "fm_file_name r = fm_file_name m"
    "r = m\<lparr>fm_name := b\<rparr>"
  shows "sl_file_meta_validate (Some r) = sl_file_meta_validate (Some m)"
proof -
  let ?n = "unat (fm_name_len m)"
  have "meta_name_loop (fm_name r) ?n ?n 0 \<longleftrightarrow> meta_name_loop (fm_name m) ?n ?n 0" if "?n \<noteq> 0" "?n \<le> 256"
    using meta_name_loop_safe [OF assms(1) refl that] meta_name_loop_safe [OF assms(2), of ?n] assms(3,4) that
    by simp
  then show ?thesis using assms(4) by (simp add: sl_file_meta_validate_def Let_def)
qed

lemma sl_file_meta_pack_unpack:
  assumes "meta_ok m" "sl_file_meta_pack (Some m) out = Some w"
  shows "\<exists>b. sl_file_meta_unpack (Some (w @ rest)) (Some m0) = (0, Some (m\<lparr>fm_name := b\<rparr>))
    \<and> length b = 257 \<and> take (unat (fm_name_len m)) b = fm_file_name m"
proof -
  let ?n = "unat (fm_name_len m)"
  have v: "sl_file_meta_validate (Some m) = 0" using assms(2) by (rule sl_file_meta_pack_validates)
  then have n: "?n \<le> 256" by (auto simp: sl_file_meta_validate_def Let_def split: if_splits)
  have w: "w = pack_u64 (fm_total_size m) @ pack_u32 (fm_chunk_size m) @ pack_u32 (fm_total_chunks m)
       @ pack_u32 (fm_mode m) @ pack_u32 (fm_mtime_s m) @ take 32 (fm_sha256 m)
       @ pack_u16 (fm_name_len m) @ replicate 24 0 @ fm_file_name m"
    using assms(2) by (auto simp: sl_file_meta_pack_def fm_file_name_def split: option.splits if_splits)
  note f = meta_fields_pack [OF assms(1) n w, of rest]
  define b where "b = (write_at 0 (fm_file_name m) (replicate 257 0))[?n := (0 :: u8)]"
  have l: "length (fm_file_name m) = ?n" "length (fm_name m) = 257"
    using assms(1) n by (simp_all add: fm_file_name_def meta_ok_def)
  then have b: "length b = 257" "take ?n b = fm_file_name m" using n by (simp_all add: b_def write_at_def)
  have "length w = 82 + ?n" using assms(1) l by (simp add: w meta_ok_def)
  moreover have "sl_file_meta_validate (Some (m\<lparr>fm_name := b\<rparr>)) = 0"
    using sl_file_meta_validate_name [of m "m\<lparr>fm_name := b\<rparr>" b] v b l by (simp add: fm_file_name_def)
  ultimately have "sl_file_meta_unpack (Some (w @ rest)) (Some m0) = (0, Some (m\<lparr>fm_name := b\<rparr>))"
    using n f l by (simp add: sl_file_meta_unpack_def Let_def b_def)
  with b show ?thesis by blast
qed

lemma sl_file_meta_unpack_safe:
  assumes "sl_file_meta_unpack (Some p) (Some m0) = (0, Some r)"
  shows "safe_name (fm_file_name r) \<and> fm_name r ! unat (fm_name_len r) = 0
    \<and> fm_file_name r = take (unat (fm_name_len r)) (drop 82 p)"
    "unat (fm_total_size r) + unat (fm_chunk_size r) \<le> 2 ^ 64 \<Longrightarrow> unat (fm_total_chunks r) = chunk_count r"
proof -
  let ?n = "unat (fm_name_len r)"
  note s = meta_unpack_shape [OF assms]
  have "fm_name r = (write_at 0 (take ?n (drop 82 p)) (replicate 257 0))[?n := 0]"
    by (subst s(4)) (simp add: meta_fields_def)
  note m = meta_unpack_name [OF s(3,2) this refl]
  have "?n \<noteq> 0" "meta_name_loop (fm_name r) ?n ?n 0"
    using s(1) by (auto simp: sl_file_meta_validate_def Let_def split: if_splits)
  with meta_name_loop_safe [OF m(1) refl _ s(3)] have "safe_name (fm_file_name r)" by blast
  with m show "safe_name (fm_file_name r) \<and> fm_name r ! ?n = 0 \<and> fm_file_name r = take ?n (drop 82 p)" by blast
  show "unat (fm_total_chunks r) = chunk_count r" if "unat (fm_total_size r) + unat (fm_chunk_size r) \<le> 2 ^ 64"
    using sl_file_meta_validate_iff [OF m(1) that] s(1) by blast
qed

text \<open>
  File metadata. Whatever bytes a peer sends, metadata that \<open>sl_file_meta_unpack\<close> accepts
  has a name of 1 to 256 bytes of the message with no slash, backslash, NUL or control character
  and not starting with two dots, and a chunk count that is the size divided by the chunk size,
  rounded up, when that sum does not wrap. What \<open>sl_file_meta_pack\<close> writes is unpacked to the
  same fields and the same name.
\<close>

theorem file_meta_wire:
  shows "(sl_file_meta_unpack (Some p) (Some m0) = (0, Some r) \<longrightarrow>
      safe_name (fm_file_name r) \<and> fm_name r ! unat (fm_name_len r) = 0
      \<and> fm_file_name r = take (unat (fm_name_len r)) (drop SL_FILE_META_FIXED_LEN p)
      \<and> (unat (fm_total_size r) + unat (fm_chunk_size r) \<le> 2 ^ 64 \<longrightarrow> unat (fm_total_chunks r) = chunk_count r))
    \<and> (meta_ok m \<longrightarrow> sl_file_meta_pack (Some m) out = Some w \<longrightarrow>
      (\<exists>b. sl_file_meta_unpack (Some (w @ rest)) (Some m0) = (0, Some (m\<lparr>fm_name := b\<rparr>))
         \<and> take (unat (fm_name_len m)) b = fm_file_name m))"
  using sl_file_meta_unpack_safe [of p m0 r] sl_file_meta_pack_unpack [of m out w rest m0] by blast

definition meta_example :: sl_file_meta_t where
  "meta_example = \<lparr>fm_total_size = 5000, fm_chunk_size = 2048, fm_total_chunks = 3, fm_mode = 0,
     fm_mtime_s = 7, fm_sha256 = replicate 32 1, fm_name = 97 # replicate 256 0, fm_name_len = 1\<rparr>"

theorem file_meta_wire_witness:
  "\<exists>w b. sl_file_meta_pack (Some meta_example) (Some 100) = Some w
     \<and> sl_file_meta_unpack (Some w) (Some meta_example) = (0, Some (meta_example\<lparr>fm_name := b\<rparr>))
     \<and> take 1 b = [97] \<and> safe_name [97]"
proof -
  have v: "sl_file_meta_validate (Some meta_example) = 0"
    by (simp add: sl_file_meta_validate_def Let_def meta_example_def)
  obtain w where w: "sl_file_meta_pack (Some meta_example) (Some 100) = Some w"
    using v by (simp add: sl_file_meta_pack_def) (simp add: meta_example_def)
  have n: "fm_file_name meta_example = [97]" "fm_name_len meta_example = 1" "meta_ok meta_example"
    by (simp_all add: fm_file_name_def meta_example_def meta_ok_def)
  obtain b where b: "sl_file_meta_unpack (Some w) (Some meta_example) = (0, Some (meta_example\<lparr>fm_name := b\<rparr>))"
      "take 1 b = [97]"
    using file_meta_wire [of w meta_example meta_example meta_example "Some 100" w "[]"] w n by auto
  moreover have "safe_name [97]"
    using file_meta_wire [THEN conjunct1, of w meta_example "meta_example\<lparr>fm_name := b\<rparr>"] b n(2)
    by (auto simp: fm_file_name_def)
  ultimately show ?thesis using w by blast
qed

text \<open>
  The sum wraps for sizes near the top of 64 bits: a file of 2^64 - 1 bytes in no chunks at all is
  accepted.
\<close>

lemma sl_file_meta_validate_wraps:
  "sl_file_meta_validate (Some (meta_example\<lparr>fm_total_size := - 1, fm_chunk_size := 1024, fm_total_chunks := 0\<rparr>)) = 0"
  by (simp add: sl_file_meta_validate_def Let_def meta_example_def)

subsection \<open>Chunk integrity\<close>

lemma sl_file_chunk_pack_eq:
  assumes "fc_chunk_data c = Some d" "unat (fc_data_len c) \<le> length d"
    "sl_file_chunk_pack (Some c) out = Some w" "fc_data_len c \<noteq> 0"
  defines "x \<equiv> take (unat (fc_data_len c)) d"
  shows "w = pack_u32 (fc_chunk_index c) @ pack_u32 (fc_data_len c) @ pack_u32 (sl_crc32c x) @ [fc_flags c, 0, 0, 0] @ x"
    "length x = unat (fc_data_len c)"
  using assms by (auto simp: sl_file_chunk_pack_def Let_def unat_gt_0 split: option.splits if_splits)

lemma sl_file_chunk_unpack_eq:
  assumes "length x = unat n" "n \<le> 65536" "n \<noteq> 0"
  shows "sl_file_chunk_unpack (Some (pack_u32 i @ pack_u32 n @ pack_u32 crc @ [f, 0, 0, 0] @ x @ rest)) OUT =
    Some \<lparr>fc_chunk_index = i, fc_data_len = n, fc_crc32c = crc, fc_flags = f, fc_chunk_data = Some x\<rparr>"
  using assms by (simp add: sl_file_chunk_unpack_def Let_def nth_append unat_gt_0 not_less)

lemma list_update_data:
  "length h = 12 \<Longrightarrow> (h @ [f, 0, 0, 0] @ x)[16 + k := b] = h @ [f, 0, 0, 0] @ x[k := (b :: u8)]"
  by (simp add: list_update_append)

text \<open>
  Chunk integrity. A packed chunk with data is unpacked, whatever follows it, to the same
  index, flags and data and passes the checksum test; when any one of its data bytes is changed
  on the way, the chunk is still unpacked but fails the test.
\<close>

theorem file_chunk_integrity:
  assumes "fc_chunk_data c = Some d" "unat (fc_data_len c) \<le> length d"
    and "sl_file_chunk_pack (Some c) out = Some w" "fc_data_len c \<noteq> 0" "fc_data_len c \<le> SL_FILE_CHUNK_MAX"
  shows "(\<exists>u. sl_file_chunk_unpack (Some (w @ rest)) OUT = Some u \<and> sl_file_chunk_crc_ok (Some u)
        \<and> fc_chunk_index u = fc_chunk_index c \<and> fc_flags u = fc_flags c
        \<and> fc_chunk_data u = Some (take (unat (fc_data_len c)) d))
    \<and> (16 + k < length w \<longrightarrow> b \<noteq> w ! (16 + k) \<longrightarrow>
        (\<exists>u. sl_file_chunk_unpack (Some (w[16 + k := b] @ rest)) OUT = Some u \<and> \<not> sl_file_chunk_crc_ok (Some u)))"
proof -
  define x where "x = take (unat (fc_data_len c)) d"
  note p = sl_file_chunk_pack_eq [OF assms(1-4), folded x_def]
  have "\<exists>u. sl_file_chunk_unpack (Some (w[16 + k := b] @ rest)) OUT = Some u \<and> \<not> sl_file_chunk_crc_ok (Some u)"
    if k: "16 + k < length w" "b \<noteq> w ! (16 + k)"
  proof -
    have "w[16 + k := b] @ rest = pack_u32 (fc_chunk_index c) @ pack_u32 (fc_data_len c) @ pack_u32 (sl_crc32c x)
        @ [fc_flags c, 0, 0, 0] @ x[k := b] @ rest"
      using list_update_data [of "pack_u32 (fc_chunk_index c) @ pack_u32 (fc_data_len c) @ pack_u32 (sl_crc32c x)"]
      by (simp add: p(1))
    moreover have "k < length x" "b \<noteq> x ! k" using k by (simp_all add: p(1) nth_append)
    then have "sl_crc32c (x[k := b]) \<noteq> sl_crc32c x" by (rule sl_crc32c_byte_change)
    ultimately show ?thesis
      using sl_file_chunk_unpack_eq [of "x[k := b]", OF _ assms(5,4)] p(2) assms(4)
      by (simp add: sl_file_chunk_crc_ok_def)
  qed
  then show ?thesis
    using sl_file_chunk_unpack_eq [OF p(2) assms(5,4)] p assms(4)
    by (simp add: sl_file_chunk_crc_ok_def x_def)
qed

definition chunk_example :: sl_file_chunk_t where
  "chunk_example = \<lparr>fc_chunk_index = 7, fc_data_len = 2, fc_crc32c = 0, fc_flags = 1, fc_chunk_data = Some [65, 66, 67]\<rparr>"

theorem file_chunk_integrity_witness:
  "\<exists>w u v. sl_file_chunk_pack (Some chunk_example) (Some 64) = Some w
     \<and> sl_file_chunk_unpack (Some (w @ [])) OUT = Some u \<and> sl_file_chunk_crc_ok (Some u) \<and> fc_chunk_data u = Some [65, 66]
     \<and> sl_file_chunk_unpack (Some (w[17 := 0] @ [])) OUT = Some v \<and> \<not> sl_file_chunk_crc_ok (Some v)"
proof -
  have c: "fc_chunk_data chunk_example = Some [65, 66, 67]" "fc_data_len chunk_example = 2"
    by (simp_all add: chunk_example_def)
  obtain w where w: "sl_file_chunk_pack (Some chunk_example) (Some 64) = Some w"
    by (simp add: sl_file_chunk_pack_def Let_def c)
  from sl_file_chunk_pack_eq [OF c(1) _ w] c(2)
  have "16 + 1 < length w" "0 \<noteq> w ! (16 + 1)" by (simp_all add: nth_append)
  with file_chunk_integrity [OF c(1) _ w, where rest = "[]" and k = 1 and b = 0] c(2) w show ?thesis by auto
qed

text \<open>The packer has no upper limit on the data, the unpacker has.\<close>

lemma file_chunk_oversize:
  assumes "fc_chunk_data c = Some d" "unat (fc_data_len c) \<le> length d"
    "sl_file_chunk_pack (Some c) out = Some w" "fc_data_len c > SL_FILE_CHUNK_MAX"
  shows "sl_file_chunk_unpack (Some (w @ rest)) OUT = None"
proof -
  have "fc_data_len c \<noteq> 0" using assms(4) by auto
  with sl_file_chunk_pack_eq [OF assms(1-3)] assms(4) show ?thesis
    by (simp add: sl_file_chunk_unpack_def Let_def nth_append)
qed

subsection \<open>Resume maps as sets of chunks\<close>

definition rm_bit :: "sl_resume_map_t \<Rightarrow> nat \<Rightarrow> bool" where
  "rm_bit r i = bit (rm_bits r ! (i div 8)) (i mod 8)"

definition rm_chunks :: "sl_resume_map_t \<Rightarrow> nat set" where
  "rm_chunks r = {i. i < unat (rm_total_chunks r) \<and> rm_bit r i}"

text \<open>The bitmap has room for the chunks, no bit beyond them, and the count of its bits.\<close>

definition rm_sized :: "sl_resume_map_t \<Rightarrow> bool" where
  "rm_sized r \<longleftrightarrow> unat (rm_total_chunks r) + 7 < 2 ^ 32
     \<and> length (rm_bits r) = (if rm_total_chunks r = 0 then 1 else resume_bytes (rm_total_chunks r))"

definition rm_ok :: "sl_resume_map_t \<Rightarrow> bool" where
  "rm_ok r \<longleftrightarrow> rm_sized r
     \<and> unat (rm_received_chunks r) = card (rm_chunks r)
     \<and> (\<forall>i < 8 * length (rm_bits r). unat (rm_total_chunks r) \<le> i \<longrightarrow> \<not> rm_bit r i)"

lemma resume_bytes_eq: "unat t + 7 < 2 ^ 32 \<Longrightarrow> resume_bytes t = (unat t + 7) div 8"
  by (simp add: resume_bytes_def unat_div unat_word_ariths)

lemma rm_sized_index:
  assumes "rm_sized r" "i < unat (rm_total_chunks r)"
  shows "i div 8 < length (rm_bits r)" "i < 8 * length (rm_bits r)"
proof -
  have "rm_total_chunks r \<noteq> 0" using assms(2) by auto
  then have "length (rm_bits r) = (unat (rm_total_chunks r) + 7) div 8"
    using assms(1) by (simp add: rm_sized_def resume_bytes_eq)
  with assms(2) show "i div 8 < length (rm_bits r)" "i < 8 * length (rm_bits r)" by linarith+
qed

lemma drop_bit_and_1: "drop_bit n (b :: u8) AND 1 \<noteq> 0 \<longleftrightarrow> bit b n"
  by (simp add: and_one_eq mod_2_eq_odd bit_iff_odd_drop_bit)

lemma rm_ok_sized: "rm_ok r \<Longrightarrow> rm_sized r"
  by (simp add: rm_ok_def)

lemma sl_resume_map_has_eq:
  assumes "rm_sized r"
  shows "sl_resume_map_has (Some r) c = Some (unat c \<in> rm_chunks r)"
proof (cases "unat c < unat (rm_total_chunks r)")
  case True
  with rm_sized_index [OF assms True] show ?thesis
    by (simp add: sl_resume_map_has_def Let_def rm_chunks_def rm_bit_def drop_bit_and_1 word_le_nat_alt)
qed (simp add: sl_resume_map_has_def rm_chunks_def word_le_nat_alt)

lemma rm_bit_set:
  assumes "j < length (rm_bits r)" "j = c div 8" "i < 8 * length (rm_bits r)"
  shows "rm_bit (r\<lparr>rm_bits := (rm_bits r)[j := rm_bits r ! j OR 2 ^ (c mod 8)], rm_received_chunks := n\<rparr>) i
    \<longleftrightarrow> i = c \<or> rm_bit r i"
proof -
  have "i div 8 = c div 8 \<and> i mod 8 = c mod 8 \<longleftrightarrow> i = c" by (metis div_mult_mod_eq)
  then show ?thesis
    using assms by (auto simp: rm_bit_def nth_list_update bit_simps)
qed

lemma finite_rm_chunks [simp]: "finite (rm_chunks r)"
  by (simp add: rm_chunks_def)

lemma card_rm_chunks_le: "card (rm_chunks r) \<le> unat (rm_total_chunks r)"
proof -
  have "rm_chunks r \<subseteq> {..<unat (rm_total_chunks r)}" by (auto simp: rm_chunks_def)
  then show ?thesis using card_mono [of "{..<unat (rm_total_chunks r)}"] by fastforce
qed

lemma sl_resume_map_set_ok:
  assumes "rm_ok r" "c < rm_total_chunks r"
  shows "\<exists>r'. sl_resume_map_set (Some r) c = Some (0, Some r') \<and> rm_ok r'
    \<and> rm_total_chunks r' = rm_total_chunks r \<and> rm_chunks r' = insert (unat c) (rm_chunks r)"
proof -
  let ?j = "unat c div 8"
  have c: "unat c < unat (rm_total_chunks r)" using assms(2) by (simp add: word_less_nat_alt)
  note i = rm_sized_index [OF rm_ok_sized [OF assms(1)] c]
  show ?thesis
  proof (cases "rm_bit r (unat c)")
    case True
    then have "sl_resume_map_set (Some r) c = Some (0, Some r)"
      using i assms(2) by (simp add: sl_resume_map_set_def Let_def rm_bit_def and_exp_eq_0_iff_not_bit not_le)
    moreover have "unat c \<in> rm_chunks r" using True c by (simp add: rm_chunks_def)
    ultimately show ?thesis using assms(1) by (auto simp: insert_absorb)
  next
    case False
    let ?r = "r\<lparr>rm_bits := (rm_bits r)[?j := rm_bits r ! ?j OR 2 ^ (unat c mod 8)],
               rm_received_chunks := rm_received_chunks r + 1\<rparr>"
    note b = rm_bit_set [OF i(1) refl, of _ "rm_received_chunks r + 1"]
    have s: "sl_resume_map_set (Some r) c = Some (0, Some ?r)"
      using i assms(2) False by (simp add: sl_resume_map_set_def Let_def rm_bit_def and_exp_eq_0_iff_not_bit not_le)
    have ch: "rm_chunks ?r = insert (unat c) (rm_chunks r)"
      using c rm_sized_index(2) [OF rm_ok_sized [OF assms(1)]] by (auto simp: rm_chunks_def b)
    have "unat c \<notin> rm_chunks r" using False by (simp add: rm_chunks_def)
    then have "card (rm_chunks ?r) = Suc (card (rm_chunks r))" unfolding ch by simp
    moreover have "card (rm_chunks r) + 7 < 2 ^ 32" using card_rm_chunks_le [of r] assms(1) by (simp add: rm_ok_def rm_sized_def)
    then have "unat (rm_received_chunks r + 1) = Suc (card (rm_chunks r))"
      using assms(1) by (simp add: rm_ok_def unat_word_ariths)
    ultimately have "rm_ok ?r" using assms(1) c b by (auto simp: rm_ok_def rm_sized_def)
    with s ch show ?thesis by auto
  qed
qed

lemma sl_resume_map_set_refused: "\<not> c < rm_total_chunks r \<Longrightarrow> sl_resume_map_set (Some r) c = Some (- 1, Some r)"
  by (simp add: sl_resume_map_set_def not_less)

lemma sl_resume_map_init_ok:
  assumes "unat t + 7 < 2 ^ 32" "sl_resume_map_init True (Some r0) t = (rc, r1)"
  obtains r where "rc = 0" "r1 = Some r" "rm_ok r" "rm_total_chunks r = t" "rm_chunks r = {}"
    "rm_bits r = replicate (if t = 0 then 1 else resume_bytes t) 0"
proof
  let ?r = "\<lparr>rm_bits = replicate (if t = 0 then 1 else resume_bytes t) 0, rm_total_chunks = t, rm_received_chunks = 0\<rparr>"
  have z: "resume_bytes t = 0 \<longleftrightarrow> t = 0"
    using assms(1) by (auto simp: resume_bytes_eq word_unat_eq_iff div_eq_0_iff)
  with assms(2) show "rc = 0" "r1 = Some ?r" by (auto simp: sl_resume_map_init_def Let_def)
  have b: "\<not> rm_bit ?r i" if "i < 8 * length (rm_bits ?r)" for i
    using that unfolding rm_bit_def by (subst nth_replicate [symmetric]) (simp_all split: if_splits)
  have "i < 8 * length (rm_bits ?r)" if "i < unat t" for i
    using that assms(1) by (auto simp: resume_bytes_eq)
  with b show c: "rm_chunks ?r = {}" by (auto simp: rm_chunks_def)
  with b assms(1) show "rm_ok ?r" by (auto simp: rm_ok_def rm_sized_def)
qed simp_all

lemma unat_of_nat_below: "i < unat (t :: u32) \<Longrightarrow> unat (of_nat i :: u32) = i"
  using unsigned_less [where 'a = nat, of t] by (simp add: unsigned_of_nat take_bit_nat_eq_self)

lemma has_index:
  assumes "rm_sized r" "i < unat (rm_total_chunks r)"
  shows "sl_resume_map_has (Some r) (of_nat i) = Some (rm_bit r i)"
  using assms by (simp add: sl_resume_map_has_eq unat_of_nat_below rm_chunks_def)

lemma missing_loop_eq:
  assumes "rm_ok r" "i + k \<le> unat (rm_total_chunks r)" "length found \<le> cap"
  shows "missing_loop r cap k i found =
    (let M = filter (\<lambda>j. j \<notin> rm_chunks r) [i..<i + k]
     in Some (found @ map of_nat (take (cap - length found) M), cap - length found < length M))"
  using assms(2,3)
proof (induction k arbitrary: i found)
  case (Suc k)
  have h: "sl_resume_map_has (Some r) (of_nat i) = Some (i \<in> rm_chunks r)"
    using Suc.prems(1) by (simp add: has_index [OF rm_ok_sized [OF assms(1)]] rm_chunks_def)
  have u: "[i..<Suc (i + k)] = i # [Suc i..<Suc (i + k)]" by (simp add: upt_rec)
  show ?case
  proof (cases "i \<in> rm_chunks r")
    case True
    with Suc.IH [of "Suc i" found] Suc.prems h show ?thesis by (simp add: u del: upt_Suc)
  next
    case False
    show ?thesis
    proof (cases "length found < cap")
      case True
      then have "cap - length found = Suc (cap - Suc (length found))" by simp
      with True False Suc.IH [of "Suc i" "found @ [of_nat i]"] Suc.prems h show ?thesis
        by (simp add: u Let_def del: upt_Suc)
    qed (use False h Suc.prems(2) in \<open>simp add: u Let_def del: upt_Suc\<close>)
  qed
qed simp

lemma count_loop_eq:
  assumes "rm_sized r" "i + k \<le> unat (rm_total_chunks r)"
  shows "count_loop r k i =
    Some (r\<lparr>rm_received_chunks := rm_received_chunks r + of_nat (length (filter (rm_bit r) [i..<i + k]))\<rparr>)"
  using assms
proof (induction k arbitrary: i r)
  case (Suc k)
  let ?r = "if rm_bit r i then r\<lparr>rm_received_chunks := rm_received_chunks r + 1\<rparr> else r"
  have u: "[i..<Suc (i + k)] = i # [Suc i..<Suc (i + k)]" by (simp add: upt_rec)
  have b: "rm_bit ?r = rm_bit r" by (auto simp: rm_bit_def fun_eq_iff)
  have r: "rm_sized ?r" "rm_total_chunks ?r = rm_total_chunks r"
    using Suc.prems(1) by (simp_all add: rm_sized_def)
  have "count_loop ?r k (Suc i) =
      Some (?r\<lparr>rm_received_chunks := rm_received_chunks ?r + of_nat (length (filter (rm_bit r) [Suc i..<Suc i + k]))\<rparr>)"
    using Suc.IH [OF r(1), of "Suc i"] Suc.prems(2) unfolding b r(2) by simp
  with has_index [OF Suc.prems(1), of i] Suc.prems(2) show ?case by (simp add: u del: upt_Suc)
qed simp

lemma length_filter_rm_bit: "length (filter (rm_bit r) [0..<unat (rm_total_chunks r)]) = card (rm_chunks r)"
proof -
  have "rm_chunks r = set (filter (rm_bit r) [0..<unat (rm_total_chunks r)])" by (auto simp: rm_chunks_def)
  then show ?thesis by (simp only: distinct_card [symmetric] distinct_filter distinct_upt)
qed

lemma rm_bits_zero:
  assumes "rm_ok r" "rm_total_chunks r = 0"
  shows "rm_bits r = [0]"
proof -
  obtain b where b: "rm_bits r = [b]" using assms by (auto simp: rm_ok_def rm_sized_def length_Suc_conv)
  have "\<not> bit b i" if "i < 8" for i
    using assms that b by (auto simp: rm_ok_def rm_bit_def dest: spec [of _ i])
  then have "b = 0" by (intro bit_word_eqI) simp
  with b show ?thesis by simp
qed

lemma resume_map_restored:
  assumes "rm_ok r" "sl_resume_map_serialize (Some r) out = Some w"
  shows "sl_resume_map_deserialize True (Some r0) (Some (w @ rest)) (rm_total_chunks r) = Some (0, Some r)"
proof -
  let ?t = "rm_total_chunks r" and ?n = "resume_bytes (rm_total_chunks r)"
  have t: "unat ?t + 7 < 2 ^ 32" and l: "length (rm_bits r) = (if ?t = 0 then 1 else ?n)"
    using assms(1) by (auto simp: rm_ok_def rm_sized_def)
  obtain q where q: "sl_resume_map_init True (Some r0) ?t = (0, Some q)" "rm_total_chunks q = ?t"
      "rm_bits q = replicate (if ?t = 0 then 1 else ?n) 0"
    using sl_resume_map_init_ok [OF t] by (metis surj_pair)
  have w: "w = take ?n (rm_bits r)" using assms(2) by (auto simp: sl_resume_map_serialize_def split: option.splits if_splits)
  have n: "?t = 0 \<Longrightarrow> ?n = 0" by (simp add: resume_bytes_eq)
  then have b: "write_at 0 (take ?n (w @ rest)) (rm_bits q) = rm_bits r"
    using l rm_bits_zero [OF assms(1)] by (simp add: w q write_at_def)
  let ?s = "q\<lparr>rm_bits := rm_bits r, rm_received_chunks := 0\<rparr>"
  have s: "rm_sized ?s" using assms(1) q(2) by (simp add: rm_ok_def rm_sized_def)
  have "rm_bit ?s = rm_bit r" by (simp add: rm_bit_def fun_eq_iff)
  then have "count_loop ?s (unat ?t) 0 = Some (?s\<lparr>rm_received_chunks := of_nat (card (rm_chunks r))\<rparr>)"
    using count_loop_eq [OF s, of 0 "unat ?t"] q(2) by (simp add: length_filter_rm_bit)
  moreover have "of_nat (card (rm_chunks r)) = rm_received_chunks r"
    using assms(1) by (metis rm_ok_def word_of_nat_unat)
  ultimately show ?thesis
    using q b l n unfolding sl_resume_map_deserialize_def by (auto simp: Let_def w)
qed

fun rm_deliver :: "sl_resume_map_t \<Rightarrow> u32 list \<Rightarrow> sl_resume_map_t option" where
  "rm_deliver r [] = Some r"
| "rm_deliver r (c # cs) =
     (case sl_resume_map_set (Some r) c of Some (_, Some r') \<Rightarrow> rm_deliver r' cs | _ \<Rightarrow> None)"

lemma rm_deliver_ok:
  "rm_ok r \<Longrightarrow> \<exists>r'. rm_deliver r cs = Some r' \<and> rm_ok r' \<and> rm_total_chunks r' = rm_total_chunks r
     \<and> rm_chunks r' = rm_chunks r \<union> unat ` {c \<in> set cs. c < rm_total_chunks r}"
proof (induction cs arbitrary: r)
  case (Cons c cs)
  show ?case
  proof (cases "c < rm_total_chunks r")
    case True
    with sl_resume_map_set_ok [OF Cons.prems True] obtain r1 where
      r1: "sl_resume_map_set (Some r) c = Some (0, Some r1)" "rm_ok r1" "rm_total_chunks r1 = rm_total_chunks r"
        "rm_chunks r1 = insert (unat c) (rm_chunks r)" by blast
    from Cons.IH [OF r1(2)] r1 True show ?thesis by auto
  next
    case False
    with Cons.IH [OF Cons.prems] show ?thesis by (auto simp: sl_resume_map_set_refused)
  qed
qed simp

lemma sl_resume_map_complete_iff:
  assumes "rm_ok r"
  shows "sl_resume_map_complete (Some r) \<longleftrightarrow> rm_chunks r = {..<unat (rm_total_chunks r)}"
proof -
  have "rm_chunks r \<subseteq> {..<unat (rm_total_chunks r)}" by (auto simp: rm_chunks_def)
  then have "card (rm_chunks r) = unat (rm_total_chunks r) \<longleftrightarrow> rm_chunks r = {..<unat (rm_total_chunks r)}"
    by (metis card_lessThan card_subset_eq finite_lessThan)
  then show ?thesis using assms by (simp add: sl_resume_map_complete_def rm_ok_def word_unat_eq_iff)
qed

lemma inj_unat: "inj (unat :: u32 \<Rightarrow> nat)"
  by (rule injI) (simp add: word_unat_eq_iff)

lemma u32_range: "{..<unat (t :: u32)} = unat ` {c. c < t}"
proof -
  have "i \<in> unat ` {c. c < t}" if "i < unat t" for i
    using that by (intro image_eqI [of _ _ "of_nat i"]) (simp_all add: unat_of_nat_below word_less_nat_alt)
  then show ?thesis by (auto simp: word_less_nat_alt)
qed

text \<open>
  Resume maps. From a fresh map for up to 2^32 - 8 chunks, deliver chunks in any order, with
  repetitions and with indices out of range: the map never reads or writes outside its bitmap, has
  exactly the delivered chunks, is complete exactly when every chunk was delivered, lists the
  missing chunks in order up to the given capacity and says whether there are more, and is restored
  exactly by deserializing its serialization.
\<close>

theorem resume_map_tracks:
  assumes "unat t + 7 < 2 ^ 32" "sl_resume_map_init True (Some r0) t = (rc, Some r1)"
  shows "rc = 0 \<and> (\<exists>r. rm_deliver r1 cs = Some r
    \<and> (\<forall>c. sl_resume_map_has (Some r) c = Some (c < t \<and> c \<in> set cs))
    \<and> (sl_resume_map_complete (Some r) \<longleftrightarrow> {c. c < t} \<subseteq> set cs)
    \<and> (let M = filter (\<lambda>c. c \<notin> set cs) (map of_nat [0..<unat t])
       in sl_resume_map_missing (Some r) (Some cap) = Some (take cap M, cap < length M))
    \<and> (sl_resume_map_serialize (Some r) out = Some w \<longrightarrow>
       sl_resume_map_deserialize True (Some old) (Some (w @ rest)) t = Some (0, Some r)))"
proof -
  have i: "rc = 0" "rm_ok r1" "rm_total_chunks r1 = t" "rm_chunks r1 = {}"
    using sl_resume_map_init_ok [OF assms] by (metis option.inject)+
  from rm_deliver_ok [OF i(2), of cs] i obtain r where
    r: "rm_deliver r1 cs = Some r" "rm_ok r" "rm_total_chunks r = t"
      "rm_chunks r = unat ` {c \<in> set cs. c < t}" by auto
  have has: "sl_resume_map_has (Some r) c = Some (c < t \<and> c \<in> set cs)" for c
    unfolding sl_resume_map_has_eq [OF rm_ok_sized [OF r(2)]] r(4) inj_image_mem_iff [OF inj_unat] by auto
  have "rm_chunks r = {..<unat t} \<longleftrightarrow> {c. c < t} \<subseteq> set cs"
    unfolding r(4) u32_range inj_image_eq_iff [OF inj_unat] by auto
  then have complete: "sl_resume_map_complete (Some r) \<longleftrightarrow> {c. c < t} \<subseteq> set cs"
    by (simp add: sl_resume_map_complete_iff [OF r(2)] r(3))
  have "j \<in> rm_chunks r \<longleftrightarrow> of_nat j \<in> set cs" if "j < unat t" for j
  proof -
    have "j \<in> rm_chunks r \<longleftrightarrow> unat (of_nat j :: u32) \<in> rm_chunks r" using that by (simp add: unat_of_nat_below)
    also have "\<dots> \<longleftrightarrow> of_nat j \<in> set cs"
      using that unfolding r(4) inj_image_mem_iff [OF inj_unat] by (simp add: word_less_nat_alt unat_of_nat_below)
    finally show ?thesis .
  qed
  then have "filter (\<lambda>j. j \<notin> rm_chunks r) [0..<unat t] = filter ((\<lambda>c. c \<notin> set cs) \<circ> of_nat) [0..<unat t]"
    by (intro filter_cong) auto
  then have M: "map of_nat (filter (\<lambda>j. j \<notin> rm_chunks r) [0..<unat t]) = filter (\<lambda>c. c \<notin> set cs) (map of_nat [0..<unat t])"
    by (simp add: filter_map)
  have "sl_resume_map_missing (Some r) (Some cap) =
      (let F = filter (\<lambda>j. j \<notin> rm_chunks r) [0..<unat t] in Some (take cap (map of_nat F), cap < length (map of_nat F :: u32 list)))"
    using missing_loop_eq [OF r(2), of 0 "unat t" "[]" cap] r(3)
    by (simp add: sl_resume_map_missing_def Let_def take_map)
  then have "sl_resume_map_missing (Some r) (Some cap) =
      (let M = filter (\<lambda>c. c \<notin> set cs) (map of_nat [0..<unat t]) in Some (take cap M, cap < length M))"
    unfolding Let_def M .
  with i(1) r has complete resume_map_restored [OF r(2), of out w old rest] show ?thesis
    by (auto simp: Let_def)
qed

theorem resume_map_tracks_witness:
  "\<exists>r. rm_deliver \<lparr>rm_bits = [0, 0], rm_total_chunks = 10, rm_received_chunks = 0\<rparr> [9, 2, 9, 77] = Some r
     \<and> sl_resume_map_has (Some r) 9 = Some True \<and> sl_resume_map_has (Some r) 3 = Some False
     \<and> sl_resume_map_missing (Some r) (Some 3) = Some ([0, 1, 3], True)"
proof -
  have i: "sl_resume_map_init True (Some \<lparr>rm_bits = [], rm_total_chunks = 0, rm_received_chunks = 0\<rparr>) 10 =
      (0, Some \<lparr>rm_bits = [0, 0], rm_total_chunks = 10, rm_received_chunks = 0\<rparr>)"
    using replicate_Suc [of 1 "0 :: u8"] by (simp add: sl_resume_map_init_def Let_def resume_bytes_eq numeral_2_eq_2 [symmetric])
  have u: "[0..<10] = [0, 1, 2, 3, 4, 5, 6, 7, 8, 9 :: nat]" by (simp add: upt_rec)
  from resume_map_tracks [OF _ i, where cs = "[9, 2, 9, 77]" and cap = 3 and out = NULL and w = "[]" and rest = "[]"
      and old = "\<lparr>rm_bits = [], rm_total_chunks = 0, rm_received_chunks = 0\<rparr>"]
  show ?thesis by (auto simp: u Let_def simp del: rm_deliver.simps)
qed

text \<open>
  Above that bound the byte count wraps: for 2^32 - 1 chunks one byte is allocated, and delivering
  chunk 8 writes outside it.
\<close>

lemma sl_resume_map_init_wraps:
  assumes "sl_resume_map_init True (Some r0) 0xFFFFFFFF = (rc, r)"
  shows "rc = 0 \<and> sl_resume_map_set r 8 = None"
  using assms by (auto simp: sl_resume_map_init_def Let_def resume_bytes_def sl_resume_map_set_def)

end
