(* ===== verification/SL_Topic.thy ===== *)
theory SL_Topic
  imports SL_Interfaces
begin

text \<open>
  Topic names and filters (\<open>sl_topic.c\<close>): the validators and the matcher as the index loops of the
  source, and what they decide in terms of the segments between slashes.
\<close>

abbreviation (input) SL_TOPIC_MAX_LEN :: nat where "SL_TOPIC_MAX_LEN \<equiv> 256"
abbreviation (input) SL_TOPIC_MAX_SEGMENTS :: nat where "SL_TOPIC_MAX_SEGMENTS \<equiv> 16"
abbreviation (input) SLASH :: u8 where "SLASH \<equiv> 47"
abbreviation (input) PLUS :: u8 where "PLUS \<equiv> 43"
abbreviation (input) HASH :: u8 where "HASH \<equiv> 35"

subsection \<open>Validation\<close>

definition seg_char_ok :: "u8 \<Rightarrow> bool" where
  "seg_char_ok c = (c_isalnum c \<or> c = 95 \<or> c = 45)"

fun segs_loop :: "bytes \<Rightarrow> nat \<Rightarrow> nat" where
  "segs_loop [] segs = segs"
| "segs_loop (c # cs) segs = segs_loop cs (if c = SLASH then segs + 1 else segs)"

definition common_structure_ok :: "bytes ptr \<Rightarrow> bool" where
  "common_structure_ok sp =
     (case sp of
        None \<Rightarrow> False
      | Some s \<Rightarrow>
          if length s = 0 \<or> length s > SL_TOPIC_MAX_LEN then False
          else if s ! 0 = SLASH \<or> s ! (length s - 1) = SLASH then False
          else segs_loop s 1 \<le> SL_TOPIC_MAX_SEGMENTS)"

fun publish_loop :: "bytes \<Rightarrow> nat \<Rightarrow> bool" where
  "publish_loop [] seg_len = (seg_len > 0)"
| "publish_loop (c # cs) seg_len =
     (if c = SLASH then if seg_len = 0 then False else publish_loop cs 0
      else if \<not> seg_char_ok c then False
      else publish_loop cs (seg_len + 1))"

definition sl_topic_is_valid_publish :: "bytes ptr \<Rightarrow> bool" where
  "sl_topic_is_valid_publish topic =
     (if \<not> common_structure_ok topic then False else publish_loop (the topic) 0)"

text \<open>The index of the next slash, or the length.\<close>

function seg_end :: "bytes \<Rightarrow> nat \<Rightarrow> nat" where
  "seg_end s j = (if j < length s \<and> s ! j \<noteq> SLASH then seg_end s (Suc j) else j)"
  by pat_completeness auto

termination
  by (relation "measure (\<lambda>(s, j). length s - j)") auto

declare seg_end.simps [simp del]

lemma seg_end_ge: "j \<le> seg_end s j"
  by (induction s j rule: seg_end.induct) (subst seg_end.simps, auto)

definition next_seg :: "bytes \<Rightarrow> nat \<Rightarrow> nat" where
  "next_seg s j = (if j < length s then j + 1 else j)"

function filter_loop :: "bytes \<Rightarrow> nat \<Rightarrow> bool" where
  "filter_loop s i =
     (if i < length s then
        let j = seg_end s i; seg_len = j - i in
        if seg_len = 0 then False
        else if seg_len = 1 \<and> s ! i = PLUS then filter_loop s (next_seg s j)
        else if seg_len = 1 \<and> s ! i = HASH then
          if j \<noteq> length s then False else filter_loop s (next_seg s j)
        else if list_all seg_char_ok (take seg_len (drop i s)) then filter_loop s (next_seg s j)
        else False
      else True)"
  by pat_completeness auto

termination
  by (relation "measure (\<lambda>(s, i). length s - i)") (auto simp: next_seg_def)

declare filter_loop.simps [simp del]

definition sl_topic_is_valid_filter :: "bytes ptr \<Rightarrow> bool" where
  "sl_topic_is_valid_filter filt =
     (if \<not> common_structure_ok filt then False else filter_loop (the filt) 0)"

subsection \<open>Matching\<close>

lemma next_seg_advances: "i < length s \<Longrightarrow> i < next_seg s (seg_end s i)"
  using seg_end_ge [of i s] by (auto simp: next_seg_def)

function match_loop :: "bytes \<Rightarrow> bytes \<Rightarrow> nat \<Rightarrow> nat \<Rightarrow> bool" where
  "match_loop t f ti fi =
     (if ti < length t \<and> fi < length f then
        let fj = seg_end f fi; flen = fj - fi in
        if flen = 1 \<and> f ! fi = HASH then True
        else
          let tj = seg_end t ti; tlen = tj - ti in
          if \<not> (flen = 1 \<and> f ! fi = PLUS)
             \<and> (flen \<noteq> tlen \<or> take flen (drop fi f) \<noteq> take flen (drop ti t)) then False
          else match_loop t f (next_seg t tj) (next_seg f fj)
      else ti = length t \<and> fi = length f)"
  by pat_completeness auto

termination
  by (relation "measure (\<lambda>(t, f, ti, fi). length t - ti)") (auto intro!: diff_less_mono2 next_seg_advances)

declare match_loop.simps [simp del]

definition sl_topic_matches :: "bytes ptr \<Rightarrow> bytes ptr \<Rightarrow> bool" where
  "sl_topic_matches topic filt =
     (if \<not> sl_topic_is_valid_publish topic then False
      else if \<not> sl_topic_is_valid_filter filt then False
      else match_loop (the topic) (the filt) 0 0)"

subsection \<open>Segments\<close>

definition topic_segs :: "bytes \<Rightarrow> bytes list" where
  "topic_segs s = split_on SLASH s"

definition name_seg :: "bytes \<Rightarrow> bool" where
  "name_seg x \<longleftrightarrow> x \<noteq> [] \<and> list_all seg_char_ok x"

fun filter_segs_ok :: "bytes list \<Rightarrow> bool" where
  "filter_segs_ok [] = True"
| "filter_segs_ok (x # xs) = ((name_seg x \<or> x = [PLUS] \<or> x = [HASH] \<and> xs = []) \<and> filter_segs_ok xs)"

text \<open>What \<open>sl_topic_matches\<close> decides: the hash stands for one or more segments.\<close>

fun segs_match :: "bytes list \<Rightarrow> bytes list \<Rightarrow> bool" where
  "segs_match (f # fs) (t # ts) = (f = [HASH] \<or> (f = [PLUS] \<or> f = t) \<and> segs_match fs ts)"
| "segs_match fs ts = (fs = [] \<and> ts = [])"

text \<open>What the header promises: zero or more segments.\<close>

fun segs_match0 :: "bytes list \<Rightarrow> bytes list \<Rightarrow> bool" where
  "segs_match0 [] ts = (ts = [])"
| "segs_match0 (f # fs) [] = (f = [HASH])"
| "segs_match0 (f # fs) (t # ts) = (f = [HASH] \<or> (f = [PLUS] \<or> f = t) \<and> segs_match0 fs ts)"

definition rem_segs :: "bytes \<Rightarrow> nat \<Rightarrow> bytes list" where
  "rem_segs s i = (if i < length s then topic_segs (drop i s) else [])"

lemma slash_not_seg_char [simp]: "\<not> seg_char_ok SLASH" "\<not> seg_char_ok PLUS" "\<not> seg_char_ok HASH"
  by (simp_all add: seg_char_ok_def c_isalnum_def)

lemma segs_loop_eq: "segs_loop s n = n + length (topic_segs s) - 1"
proof (induction s arbitrary: n)
  case (Cons c cs)
  obtain l ls where "split_on SLASH cs = l # ls" by (cases "split_on SLASH cs") auto
  with Cons show ?case by (simp add: topic_segs_def)
qed (simp add: topic_segs_def)

lemma split_on_seg_end:
  assumes "i \<le> length s"
  shows "topic_segs (drop i s) = take (seg_end s i - i) (drop i s)
    # (if seg_end s i < length s then topic_segs (drop (Suc (seg_end s i)) s) else [])"
  using assms
proof (induction s i rule: seg_end.induct)
  case (1 s i)
  show ?case
  proof (cases "i < length s \<and> s ! i \<noteq> SLASH")
    case True
    then have e: "seg_end s i = seg_end s (Suc i)" by (subst seg_end.simps) simp
    have d: "drop i s = s ! i # drop (Suc i) s" using True by (simp add: Cons_nth_drop_Suc)
    have "seg_end s i - i = Suc (seg_end s (Suc i) - Suc i)" using seg_end_ge [of "Suc i" s] e by simp
    with 1(1) [OF True] True show ?thesis unfolding d topic_segs_def by (simp add: e)
  next
    case False
    then have e: "seg_end s i = i" by (subst seg_end.simps) auto
    show ?thesis
    proof (cases "i < length s")
      case True
      then have "drop i s = SLASH # drop (Suc i) s" using False by (simp add: Cons_nth_drop_Suc [symmetric])
      with True e show ?thesis by (simp add: topic_segs_def)
    next
      case False
      with 1(2) e show ?thesis by (simp add: topic_segs_def)
    qed
  qed
qed

lemma seg_end_le: "i \<le> length s \<Longrightarrow> seg_end s i \<le> length s"
proof (induction s i rule: seg_end.induct)
  case (1 s i)
  then show ?case by (subst seg_end.simps) auto
qed

lemma seg_end_slash: "seg_end s i < length s \<Longrightarrow> s ! seg_end s i = SLASH"
proof (induction s i rule: seg_end.induct)
  case (1 s i)
  then show ?case by (subst seg_end.simps) (subst (asm) seg_end.simps, auto split: if_splits)
qed

text \<open>The loops read the segments one after the other, in strings that do not end in a slash.\<close>

lemma rem_segs_step:
  assumes "i < length s" "last s \<noteq> SLASH"
  defines "j \<equiv> seg_end s i"
  shows "rem_segs s i = take (j - i) (drop i s) # rem_segs s (next_seg s j)" "next_seg s j \<le> length s"
    "length (take (j - i) (drop i s)) = j - i" "j = length s \<longleftrightarrow> rem_segs s (next_seg s j) = []"
proof -
  have "s \<noteq> []" using assms(1) by auto
  then have "s ! (length s - 1) \<noteq> SLASH" using assms(2) by (simp add: last_conv_nth)
  then have j: "j < length s \<Longrightarrow> Suc j < length s"
    using seg_end_slash [of s i] unfolding j_def by (metis Suc_lessI diff_Suc_1)
  then show "rem_segs s i = take (j - i) (drop i s) # rem_segs s (next_seg s j)"
    using split_on_seg_end [of i s] assms(1) by (auto simp: rem_segs_def j_def next_seg_def)
  show "length (take (j - i) (drop i s)) = j - i" using seg_end_le [of i s] assms(1) by (simp add: j_def)
  show "next_seg s j \<le> length s" using seg_end_le [of i s] assms(1) by (simp add: next_seg_def j_def)
  then show "j = length s \<longleftrightarrow> rem_segs s (next_seg s j) = []"
    using j by (auto simp: rem_segs_def topic_segs_def next_seg_def)
qed

lemma singleton_seg: "length x = n \<Longrightarrow> x = take n (drop i s) \<Longrightarrow> i < length s \<Longrightarrow> n = 1 \<and> s ! i = c \<longleftrightarrow> x = [c]"
proof -
  assume a: "length x = n" "x = take n (drop i s)" "i < length s"
  then have "n = 1 \<Longrightarrow> x = [s ! i]" by (simp add: Cons_nth_drop_Suc [symmetric])
  with a(1) show ?thesis by auto
qed

lemma publish_loop_eq:
  "publish_loop s n \<longleftrightarrow> (let l = hd (topic_segs s) in 0 < n + length l \<and> list_all seg_char_ok l)
     \<and> list_all name_seg (tl (topic_segs s))"
proof (induction s arbitrary: n)
  case (Cons c cs)
  obtain l ls where "split_on SLASH cs = l # ls" by (cases "split_on SLASH cs") auto
  then show ?case
    using Cons.IH [of 0] Cons.IH [of "n + 1"] by (auto simp: topic_segs_def name_seg_def)
qed (simp add: topic_segs_def)

lemma topic_segs_nonempty [simp]: "topic_segs s \<noteq> []"
  by (simp add: topic_segs_def)

lemma edge_segs:
  assumes "s \<noteq> []"
  shows "hd s = SLASH \<Longrightarrow> [] \<in> set (topic_segs s)" "last s = SLASH \<Longrightarrow> [] \<in> set (topic_segs s)"
proof -
  show "hd s = SLASH \<Longrightarrow> [] \<in> set (topic_segs s)" using assms by (cases s) (auto simp: topic_segs_def)
  show "[] \<in> set (topic_segs s)" if "last s = SLASH"
    using split_on_snoc_sep [of SLASH "butlast s"] append_butlast_last_id [OF assms] that
    by (simp add: topic_segs_def)
qed

definition topic_sized :: "bytes \<Rightarrow> bool" where
  "topic_sized s \<longleftrightarrow> s \<noteq> [] \<and> length s \<le> SL_TOPIC_MAX_LEN \<and> length (topic_segs s) \<le> SL_TOPIC_MAX_SEGMENTS"

lemma common_structure_iff:
  "common_structure_ok (Some s) \<longleftrightarrow> topic_sized s \<and> hd s \<noteq> SLASH \<and> last s \<noteq> SLASH"
proof (cases "s = []")
  case False
  then have "s ! 0 = hd s" "s ! (length s - 1) = last s" by (simp_all add: hd_conv_nth last_conv_nth)
  with False show ?thesis by (auto simp: common_structure_ok_def topic_sized_def segs_loop_eq)
qed (simp add: common_structure_ok_def topic_sized_def)

lemma common_structure_segs:
  "[] \<notin> set (topic_segs s) \<Longrightarrow> common_structure_ok (Some s) \<longleftrightarrow> topic_sized s"
  using edge_segs [of s] by (auto simp: common_structure_iff topic_sized_def)

lemma sl_topic_is_valid_publish_iff:
  "sl_topic_is_valid_publish (Some t) \<longleftrightarrow> topic_sized t \<and> list_all name_seg (topic_segs t)"
proof -
  obtain l ls where s: "topic_segs t = l # ls" by (cases "topic_segs t") auto
  have "publish_loop t 0 \<longleftrightarrow> list_all name_seg (topic_segs t)"
    by (auto simp: publish_loop_eq s name_seg_def)
  moreover have "list_all name_seg (topic_segs t) \<Longrightarrow> [] \<notin> set (topic_segs t)"
    by (auto simp: list_all_iff name_seg_def)
  ultimately show ?thesis
    using common_structure_segs [of t] by (auto simp: sl_topic_is_valid_publish_def)
qed

lemma filter_loop_eq:
  "last s \<noteq> SLASH \<Longrightarrow> filter_loop s i \<longleftrightarrow> filter_segs_ok (rem_segs s i)"
proof (induction "length s - i" arbitrary: i rule: less_induct)
  case (less i)
  show ?case
  proof (cases "i < length s")
    case True
    define j where "j = seg_end s i"
    define x where "x = take (j - i) (drop i s)"
    note st = rem_segs_step [OF True less.prems, folded j_def, folded x_def]
    have "filter_loop s i \<longleftrightarrow>
      (if x = [] then False else if x = [PLUS] then filter_loop s (next_seg s j)
       else if x = [HASH] then j = length s \<and> filter_loop s (next_seg s j)
       else list_all seg_char_ok x \<and> filter_loop s (next_seg s j))"
      using True singleton_seg [OF st(3) x_def True, of PLUS] singleton_seg [OF st(3) x_def True, of HASH] st(3)
      by (subst filter_loop.simps) (auto simp: Let_def j_def [symmetric] x_def [symmetric])
    moreover have "filter_loop s (next_seg s j) \<longleftrightarrow> filter_segs_ok (rem_segs s (next_seg s j))"
      using next_seg_advances [OF True] True less.prems by (intro less.hyps) (auto simp: j_def)
    ultimately show ?thesis by (auto simp: st(1) st(4) name_seg_def)
  qed (subst filter_loop.simps, simp add: rem_segs_def)
qed

lemma match_loop_eq:
  "last t \<noteq> SLASH \<Longrightarrow> last f \<noteq> SLASH \<Longrightarrow> ti \<le> length t \<Longrightarrow> fi \<le> length f \<Longrightarrow>
   match_loop t f ti fi \<longleftrightarrow> segs_match (rem_segs f fi) (rem_segs t ti)"
proof (induction "length t - ti" arbitrary: ti fi rule: less_induct)
  case (less ti fi)
  show ?case
  proof (cases "ti < length t \<and> fi < length f")
    case True
    define fj where "fj = seg_end f fi"
    define tj where "tj = seg_end t ti"
    define x where "x = take (fj - fi) (drop fi f)"
    define y where "y = take (tj - ti) (drop ti t)"
    have lt: "ti < length t" "fi < length f" using True by auto
    note sf = rem_segs_step [OF lt(2) less.prems(2), folded fj_def, folded x_def]
    note stt = rem_segs_step [OF lt(1) less.prems(1), folded tj_def, folded y_def]
    have "fj - fi = tj - ti \<and> take (fj - fi) (drop fi f) = take (fj - fi) (drop ti t) \<longleftrightarrow> x = y"
      using sf(3) stt(3) unfolding x_def y_def by metis
    then have "match_loop t f ti fi \<longleftrightarrow>
        x = [HASH] \<or> (x = [PLUS] \<or> x = y) \<and> match_loop t f (next_seg t tj) (next_seg f fj)"
      using lt singleton_seg [OF sf(3) x_def lt(2), of PLUS] singleton_seg [OF sf(3) x_def lt(2), of HASH]
      by (subst match_loop.simps) (auto simp: Let_def fj_def [symmetric] tj_def [symmetric])
    moreover have "match_loop t f (next_seg t tj) (next_seg f fj) \<longleftrightarrow>
        segs_match (rem_segs f (next_seg f fj)) (rem_segs t (next_seg t tj))"
      using next_seg_advances [OF lt(1)] lt less.prems(1,2) sf(2) stt(2) by (intro less.hyps) (auto simp: tj_def)
    ultimately show ?thesis by (auto simp: sf(1) stt(1))
  next
    case False
    then have "match_loop t f ti fi \<longleftrightarrow> ti = length t \<and> fi = length f" by (subst match_loop.simps) auto
    moreover have "rem_segs t ti = [] \<longleftrightarrow> ti = length t" "rem_segs f fi = [] \<longleftrightarrow> fi = length f"
      using less.prems(3,4) by (auto simp: rem_segs_def)
    ultimately show ?thesis using False
      by (cases "rem_segs f fi"; cases "rem_segs t ti") (auto simp: rem_segs_def)
  qed
qed

lemma sl_topic_is_valid_filter_iff:
  "sl_topic_is_valid_filter (Some f) \<longleftrightarrow> topic_sized f \<and> filter_segs_ok (topic_segs f)"
proof -
  have "filter_segs_ok xs \<Longrightarrow> [] \<notin> set xs" for xs
    by (induction xs) (auto simp: name_seg_def)
  then have c: "filter_segs_ok (topic_segs f) \<Longrightarrow> common_structure_ok (Some f) \<longleftrightarrow> topic_sized f"
    using common_structure_segs by blast
  show ?thesis
  proof (cases "common_structure_ok (Some f)")
    case True
    then have "last f \<noteq> SLASH" "topic_sized f" by (auto simp: common_structure_iff)
    with True show ?thesis
      using filter_loop_eq [of f 0] by (simp add: sl_topic_is_valid_filter_def rem_segs_def topic_sized_def)
  next
    case False
    with c show ?thesis by (auto simp: sl_topic_is_valid_filter_def)
  qed
qed

lemma sl_topic_matches_iff:
  "sl_topic_matches (Some t) (Some f) \<longleftrightarrow>
     sl_topic_is_valid_publish (Some t) \<and> sl_topic_is_valid_filter (Some f) \<and> segs_match (topic_segs f) (topic_segs t)"
proof (cases "sl_topic_is_valid_publish (Some t) \<and> sl_topic_is_valid_filter (Some f)")
  case True
  then have "common_structure_ok (Some t)" "common_structure_ok (Some f)"
    by (auto simp: sl_topic_is_valid_publish_def sl_topic_is_valid_filter_def split: if_splits)
  then have "last t \<noteq> SLASH" "last f \<noteq> SLASH" "t \<noteq> []" "f \<noteq> []"
    by (auto simp: common_structure_iff topic_sized_def)
  with True show ?thesis
    using match_loop_eq [of t f 0 0] by (simp add: sl_topic_matches_def rem_segs_def)
qed (auto simp: sl_topic_matches_def)

text \<open>
  The two readings of the hash differ exactly on the parent of the filter: the topic matches all
  that comes before the final hash.
\<close>

fun parent_match :: "bytes list \<Rightarrow> bytes list \<Rightarrow> bool" where
  "parent_match (f # fs) [] = (f = [HASH])"
| "parent_match (f # fs) (t # ts) = (f \<noteq> [HASH] \<and> (f = [PLUS] \<or> f = t) \<and> parent_match fs ts)"
| "parent_match [] ts = False"

lemma segs_match0_iff: "segs_match0 fs ts \<longleftrightarrow> segs_match fs ts \<or> parent_match fs ts"
proof (induction fs ts rule: segs_match0.induct)
  case (1 ts)
  then show ?case by (cases ts) auto
qed auto


text \<open>
  The header says that a hash matches zero or more trailing segments; the matcher wants at least
  one: \<open>a/#\<close> does not match \<open>a\<close>.
\<close>

lemma hash_needs_a_segment:
  "\<not> sl_topic_matches (Some [97]) (Some [97, SLASH, HASH])" "segs_match0 (topic_segs [97, SLASH, HASH]) (topic_segs [97])"
  by (simp_all add: sl_topic_matches_iff topic_segs_def)

end
