(* ===== verification/SL_Pubsub.thy ===== *)
theory SL_Pubsub
  imports SL_Topic "HOL-Library.AList"
begin

text \<open>
  Publish/subscribe messages (\<open>sl_pubsub_msg.c\<close>) and the subscription trie
  (\<open>topic_trie.cpp\<close>). An \<open>unordered_map\<close> is an association list and an \<open>unordered_set\<close> a list
  without repetitions, in their iteration order; the mutexes make every method one step. The depth
  first traversal with an explicit stack in \<open>unsubscribe_all\<close> is the recursion over the nodes.
\<close>

subsection \<open>Messages\<close>

type_synonym sl_pubsub_msg_type_t = int

abbreviation (input) SL_PUBSUB_HEADER_LEN :: nat where "SL_PUBSUB_HEADER_LEN \<equiv> 8"
abbreviation (input) SL_PUBSUB_MAX_TOPIC :: nat where "SL_PUBSUB_MAX_TOPIC \<equiv> 256"
abbreviation (input) SL_PUBSUB_MAX_PAYLOAD :: nat where "SL_PUBSUB_MAX_PAYLOAD \<equiv> 16384"

record sl_pubsub_msg_t =
  pm_type :: sl_pubsub_msg_type_t
  pm_flags :: u8
  pm_topic :: "bytes ptr"
  pm_topic_len :: u16
  pm_payload :: "bytes ptr"
  pm_payload_len :: u32

definition sl_pubsub_type_name :: "sl_pubsub_msg_type_t \<Rightarrow> string" where
  "sl_pubsub_type_name t =
     (if t = 0 then ''invalid'' else if t = 1 then ''publish'' else if t = 2 then ''subscribe''
      else if t = 3 then ''unsubscribe'' else if t = 4 then ''puback'' else if t = 5 then ''suback'' else ''?'')"

definition sl_pubsub_pack :: "sl_pubsub_msg_t ptr \<Rightarrow> out_buf \<Rightarrow> bytes option" where
  "sl_pubsub_pack mp out =
     (case (mp, out) of
        (Some m, Some out_cap) \<Rightarrow>
          let tl = unat (pm_topic_len m); pl = unat (pm_payload_len m) in
          if tl > SL_PUBSUB_MAX_TOPIC then None
          else if pl > SL_PUBSUB_MAX_PAYLOAD then None
          else if tl > 0 \<and> pm_topic m = NULL then None
          else if pl > 0 \<and> pm_payload m = NULL then None
          else if out_cap < SL_PUBSUB_HEADER_LEN + tl + pl then None
          else Some ([word_of_int (pm_type m), pm_flags m] @ pack_u16 (pm_topic_len m) @ pack_u32 (pm_payload_len m)
                     @ (if tl > 0 then take tl (the (pm_topic m)) else [])
                     @ (if pl > 0 then take pl (the (pm_payload m)) else []))
      | _ \<Rightarrow> None)"

definition sl_pubsub_unpack :: "bytes ptr \<Rightarrow> out_ref \<Rightarrow> sl_pubsub_msg_t option" where
  "sl_pubsub_unpack inp out =
     (case (inp, out) of
        (Some p, Some _) \<Rightarrow>
          if length p < SL_PUBSUB_HEADER_LEN then None
          else
            let type = p ! 0; flags = p ! 1; tlen = unpack_u16 (drop 2 p); plen = unpack_u32 (drop 4 p);
                tl = unat tlen; pl = unat plen in
            if type = 0 \<or> type > 5 then None
            else if tl > SL_PUBSUB_MAX_TOPIC \<or> pl > SL_PUBSUB_MAX_PAYLOAD then None
            else if length p < SL_PUBSUB_HEADER_LEN + tl + pl then None
            else Some \<lparr>pm_type = uint type, pm_flags = flags,
                       pm_topic = (if tl > 0 then Some (take tl (drop SL_PUBSUB_HEADER_LEN p)) else NULL),
                       pm_topic_len = tlen,
                       pm_payload = (if pl > 0 then Some (take pl (drop (SL_PUBSUB_HEADER_LEN + tl) p)) else NULL),
                       pm_payload_len = plen\<rparr>
      | _ \<Rightarrow> None)"

subsection \<open>The subscription trie\<close>

type_synonym SubscriberId = u64

datatype Node = Node (children: "(bytes \<times> Node) list") (plus: "Node option")
  (hash_subs: "SubscriberId list") (exact_subs: "SubscriberId list")

definition empty_node :: Node where
  "empty_node = Node [] None [] []"

text \<open>\<open>unordered_set\<close>: \<open>insert(x).second\<close> with the new set, \<open>erase(x) > 0\<close> with the rest.\<close>

definition set_insert :: "'a \<Rightarrow> 'a list \<Rightarrow> bool \<times> 'a list" where
  "set_insert x xs = (if x \<in> set xs then (False, xs) else (True, xs @ [x]))"

definition set_erase :: "'a \<Rightarrow> 'a list \<Rightarrow> bool \<times> 'a list" where
  "set_erase x xs = (x \<in> set xs, removeAll x xs)"

record TopicTrie =
  root :: Node
  total_subs :: u64

fun split_loop :: "bytes \<Rightarrow> bytes \<Rightarrow> bytes list" where
  "split_loop [] acc = [acc]"
| "split_loop (c # cs) acc = (if c = SLASH then acc # split_loop cs [] else split_loop cs (acc @ [c]))"

definition split_topic :: "bytes \<Rightarrow> bytes list" where
  "split_topic s = split_loop s []"

fun subscribe_node :: "bytes list \<Rightarrow> SubscriberId \<Rightarrow> Node \<Rightarrow> bool \<times> Node" where
  "subscribe_node [] sub_id (Node cs p h e) = (let (b, e') = set_insert sub_id e in (b, Node cs p h e'))"
| "subscribe_node (seg # segs) sub_id (Node cs p h e) =
     (if seg = [HASH] then let (b, h') = set_insert sub_id h in (b, Node cs p h' e)
      else if seg = [PLUS] then
        let (b, n) = subscribe_node segs sub_id (case p of None \<Rightarrow> empty_node | Some n \<Rightarrow> n)
        in (b, Node cs (Some n) h e)
      else
        let (b, n) = subscribe_node segs sub_id (case map_of cs seg of None \<Rightarrow> empty_node | Some n \<Rightarrow> n)
        in (b, Node (AList.update seg n cs) p h e))"

definition trie_subscribe :: "bytes \<Rightarrow> SubscriberId \<Rightarrow> TopicTrie \<Rightarrow> bool \<times> TopicTrie" where
  "trie_subscribe filt sub_id t =
     (let (inserted, n) = subscribe_node (split_topic filt) sub_id (root t)
      in (inserted, t\<lparr>root := n, total_subs := (if inserted then total_subs t + 1 else total_subs t)\<rparr>))"

fun unsubscribe_node :: "bytes list \<Rightarrow> SubscriberId \<Rightarrow> Node \<Rightarrow> bool \<times> Node" where
  "unsubscribe_node [] sub_id (Node cs p h e) = (let (b, e') = set_erase sub_id e in (b, Node cs p h e'))"
| "unsubscribe_node (seg # segs) sub_id (Node cs p h e) =
     (if seg = [HASH] then let (b, h') = set_erase sub_id h in (b, Node cs p h' e)
      else if seg = [PLUS] then
        (case p of
           None \<Rightarrow> (False, Node cs p h e)
         | Some n \<Rightarrow> let (b, n') = unsubscribe_node segs sub_id n in (b, Node cs (Some n') h e))
      else
        (case map_of cs seg of
           None \<Rightarrow> (False, Node cs p h e)
         | Some n \<Rightarrow> let (b, n') = unsubscribe_node segs sub_id n in (b, Node (AList.update seg n' cs) p h e)))"

definition trie_unsubscribe :: "bytes \<Rightarrow> SubscriberId \<Rightarrow> TopicTrie \<Rightarrow> bool \<times> TopicTrie" where
  "trie_unsubscribe filt sub_id t =
     (let (removed, n) = unsubscribe_node (split_topic filt) sub_id (root t)
      in (removed, t\<lparr>root := n, total_subs := (if removed then total_subs t - 1 else total_subs t)\<rparr>))"

fun unsubscribe_all_node :: "SubscriberId \<Rightarrow> Node \<Rightarrow> nat \<times> Node" where
  "unsubscribe_all_node sub_id (Node cs p h e) =
     (let (be, e') = set_erase sub_id e; (bh, h') = set_erase sub_id h;
          p' = map_option (unsubscribe_all_node sub_id) p;
          cs' = map (\<lambda>(k, n). (k, unsubscribe_all_node sub_id n)) cs
      in ((if be then 1 else 0) + (if bh then 1 else 0) + (case p' of None \<Rightarrow> 0 | Some (r, _) \<Rightarrow> r)
            + sum_list (map (\<lambda>(k, r, _). r) cs'),
          Node (map (\<lambda>(k, _, n). (k, n)) cs') (map_option snd p') h' e'))"

definition trie_unsubscribe_all :: "SubscriberId \<Rightarrow> TopicTrie \<Rightarrow> nat \<times> TopicTrie" where
  "trie_unsubscribe_all sub_id t =
     (let (removed, n) = unsubscribe_all_node sub_id (root t)
      in (removed, t\<lparr>root := n, total_subs := total_subs t - of_nat removed\<rparr>))"

text \<open>\<open>out\<close> is the set of the subscribers found so far.\<close>

definition insert_all :: "'a list \<Rightarrow> 'a list \<Rightarrow> 'a list" where
  "insert_all xs out = foldl (\<lambda>acc x. snd (set_insert x acc)) out xs"

fun match_into :: "bytes list \<Rightarrow> Node \<Rightarrow> SubscriberId list \<Rightarrow> SubscriberId list" where
  "match_into [] (Node cs p h e) out = insert_all e (insert_all h out)"
| "match_into (seg # segs) (Node cs p h e) out =
     (let out1 = insert_all h out;
          out2 = (case map_of cs seg of None \<Rightarrow> out1 | Some n \<Rightarrow> match_into segs n out1)
      in (case p of None \<Rightarrow> out2 | Some n \<Rightarrow> match_into segs n out2))"

definition trie_match :: "bytes \<Rightarrow> TopicTrie \<Rightarrow> SubscriberId list" where
  "trie_match topic t = match_into (split_topic topic) (root t) []"

definition trie_subscription_count :: "TopicTrie \<Rightarrow> u64" where
  "trie_subscription_count t = total_subs t"

definition trie_new :: TopicTrie where
  "trie_new = \<lparr>root = empty_node, total_subs = 0\<rparr>"

subsection \<open>The trie as a set of subscriptions\<close>

lemma split_loop_eq: "split_loop s acc = (acc @ hd (topic_segs s)) # tl (topic_segs s)"
proof (induction s arbitrary: acc)
  case (Cons c cs)
  obtain l ls where "split_on SLASH cs = l # ls" by (cases "split_on SLASH cs") auto
  with Cons show ?case by (simp add: topic_segs_def)
qed (simp add: topic_segs_def)

lemma split_topic_eq: "split_topic s = topic_segs s"
  by (simp add: split_topic_def split_loop_eq)

text \<open>A walk stops at the first hash, so the rest of a filter after one is not looked at.\<close>

fun canon :: "bytes list \<Rightarrow> bytes list" where
  "canon [] = []"
| "canon (f # fs) = (if f = [HASH] then [f] else f # canon fs)"

fun has_sub :: "bytes list \<Rightarrow> SubscriberId \<Rightarrow> Node \<Rightarrow> bool" where
  "has_sub [] s (Node cs p h e) = (s \<in> set e)"
| "has_sub (f # fs) s (Node cs p h e) =
     (if f = [HASH] then fs = [] \<and> s \<in> set h
      else if f = [PLUS] then (case p of None \<Rightarrow> False | Some n \<Rightarrow> has_sub fs s n)
      else (case map_of cs f of None \<Rightarrow> False | Some n \<Rightarrow> has_sub fs s n))"

fun sub_count :: "Node \<Rightarrow> nat" where
  "sub_count (Node cs p h e) =
     length e + length h + (case p of None \<Rightarrow> 0 | Some n \<Rightarrow> sub_count n) + sum_list (map (\<lambda>(k, n). sub_count n) cs)"

fun node_ok :: "Node \<Rightarrow> bool" where
  "node_ok (Node cs p h e) \<longleftrightarrow>
     distinct e \<and> distinct h \<and> distinct (map fst cs) \<and> [HASH] \<notin> fst ` set cs \<and> [PLUS] \<notin> fst ` set cs
     \<and> (case p of None \<Rightarrow> True | Some n \<Rightarrow> node_ok n) \<and> list_all (\<lambda>(k, n). node_ok n) cs"

lemma has_sub_empty [simp]: "\<not> has_sub fs s empty_node"
  by (cases fs) (auto simp: empty_node_def)

lemma node_ok_empty [simp]: "node_ok empty_node" "sub_count empty_node = 0"
  by (simp_all add: empty_node_def)

lemma set_insert_facts:
  "distinct xs \<Longrightarrow> set_insert x xs = (b, ys) \<Longrightarrow>
     b = (x \<notin> set xs) \<and> set ys = insert x (set xs) \<and> distinct ys \<and> length ys = length xs + (if b then 1 else 0)"
  by (auto simp: set_insert_def split: if_splits)

lemma set_erase_facts:
  "distinct xs \<Longrightarrow> set_erase x xs = (b, ys) \<Longrightarrow>
     b = (x \<in> set xs) \<and> set ys = set xs - {x} \<and> distinct ys \<and> length xs = length ys + (if b then 1 else 0)"
  using length_pos_if_in_set [of x xs]
  by (auto simp: set_erase_def distinct_removeAll distinct_remove1_removeAll [symmetric] length_remove1)

lemma node_ok_child:
  "node_ok (Node cs p h e) \<Longrightarrow> map_of cs k = Some n \<Longrightarrow> node_ok n"
  by (auto simp: list_all_iff dest: map_of_SomeD)

lemma update_child:
  assumes "node_ok (Node cs p h e)" "node_ok n" "k \<noteq> [HASH]" "k \<noteq> [PLUS]"
  shows "node_ok (Node (AList.update k n cs) p h e)"
    "sub_count (Node (AList.update k n cs) p h e) + (case map_of cs k of None \<Rightarrow> 0 | Some m \<Rightarrow> sub_count m)
       = sub_count (Node cs p h e) + sub_count n"
proof -
  have "list_all (\<lambda>(k, n). node_ok n) cs \<Longrightarrow> list_all (\<lambda>(k, n). node_ok n) (AList.update k n cs)"
    using assms(2) by (induction cs) auto
  moreover have "fst ` set (AList.update k n cs) = insert k (fst ` set cs)"
    by (simp add: dom_map_of_conv_image_fst [symmetric] update_conv')
  ultimately show "node_ok (Node (AList.update k n cs) p h e)"
    using assms(1,3,4) by (auto simp: distinct_update)
  have "sum_list (map (\<lambda>(k, n). sub_count n) (AList.update k n cs)) + (case map_of cs k of None \<Rightarrow> 0 | Some m \<Rightarrow> sub_count m)
      = sum_list (map (\<lambda>(k, n). sub_count n) cs) + sub_count n"
    by (induction cs) auto
  then show "sub_count (Node (AList.update k n cs) p h e) + (case map_of cs k of None \<Rightarrow> 0 | Some m \<Rightarrow> sub_count m)
       = sub_count (Node cs p h e) + sub_count n" by simp
qed

lemma subscribe_node_spec:
  assumes "node_ok n" "subscribe_node fs s n = (b, m)"
  shows "node_ok m \<and> b = (\<not> has_sub (canon fs) s n) \<and> sub_count m = sub_count n + (if b then 1 else 0)
    \<and> (\<forall>gs t. has_sub gs t m \<longleftrightarrow> has_sub gs t n \<or> gs = canon fs \<and> t = s)"
  using assms
proof (induction fs s n arbitrary: b m rule: subscribe_node.induct)
  case (1 s cs p h e)
  then obtain e' where e': "set_insert s e = (b, e')" "m = Node cs p h e'" by (auto split: prod.splits)
  from set_insert_facts [OF _ e'(1)] 1 have f: "b = (s \<notin> set e)" "set e' = insert s (set e)" "distinct e'"
    "length e' = length e + (if b then 1 else 0)" by auto
  have "has_sub gs t m \<longleftrightarrow> has_sub gs t (Node cs p h e) \<or> gs = [] \<and> t = s" for gs t
    using f(2) e'(2) by (cases gs) auto
  with 1 f e' show ?case by simp
next
  case (2 f fs s cs p h e)
  consider "f = [HASH]" | "f = [PLUS]" | "f \<noteq> [HASH]" "f \<noteq> [PLUS]" by blast
  then show ?case
  proof cases
    case 1
    with 2(4) obtain h' where h': "set_insert s h = (b, h')" "m = Node cs p h' e" by (auto split: prod.splits)
    from set_insert_facts [OF _ h'(1)] 2(3) have f: "b = (s \<notin> set h)" "set h' = insert s (set h)" "distinct h'"
      "length h' = length h + (if b then 1 else 0)" by auto
    have "has_sub gs t m \<longleftrightarrow> has_sub gs t (Node cs p h e) \<or> gs = [[HASH]] \<and> t = s" for gs t
      using f(2) h'(2) by (cases gs) auto
    with 2(3) 1 f h' show ?thesis by simp
  next
    case p: 2
    define q where "q = (case p of None \<Rightarrow> empty_node | Some n \<Rightarrow> n)"
    from 2(4) p obtain n where n: "subscribe_node fs s q = (b, n)" "m = Node cs (Some n) h e"
      by (auto simp: q_def split: prod.splits)
    have q: "node_ok q" "sub_count q = (case p of None \<Rightarrow> 0 | Some n \<Rightarrow> sub_count n)"
      "\<And>gs t. has_sub gs t q = (case p of None \<Rightarrow> False | Some n \<Rightarrow> has_sub gs t n)"
      using 2(3) by (auto simp: q_def split: option.splits)
    have "f \<noteq> [HASH]" using p by simp
    from 2(1) [OF this p, folded q_def, OF q(1) n(1)] have IH: "node_ok n" "b = (\<not> has_sub (canon fs) s q)"
      "sub_count n = sub_count q + (if b then 1 else 0)"
      "\<And>gs t. has_sub gs t n \<longleftrightarrow> has_sub gs t q \<or> gs = canon fs \<and> t = s" by auto
    have "has_sub gs t m \<longleftrightarrow> has_sub gs t (Node cs p h e) \<or> gs = [PLUS] # canon fs \<and> t = s" for gs t
      using IH(4) q(3) n(2) by (cases gs) auto
    moreover have "sub_count m = sub_count (Node cs p h e) + (if b then 1 else 0)" "node_ok m"
      using IH(1,3) q(2) n(2) 2(3) by (simp_all split: option.splits)
    ultimately show ?thesis using p IH(2) q(3) by simp
  next
    case c: 3
    define q where "q = (case map_of cs f of None \<Rightarrow> empty_node | Some n \<Rightarrow> n)"
    from 2(4) c obtain n where n: "subscribe_node fs s q = (b, n)" "m = Node (AList.update f n cs) p h e"
      by (auto simp: q_def split: prod.splits)
    have q: "node_ok q" "sub_count q = (case map_of cs f of None \<Rightarrow> 0 | Some n \<Rightarrow> sub_count n)"
      "\<And>gs t. has_sub gs t q = (case map_of cs f of None \<Rightarrow> False | Some n \<Rightarrow> has_sub gs t n)"
      using node_ok_child [OF 2(3)] by (auto simp: q_def split: option.splits)
    from 2(2) [OF c, folded q_def, OF q(1) n(1)] have IH: "node_ok n" "b = (\<not> has_sub (canon fs) s q)"
      "sub_count n = sub_count q + (if b then 1 else 0)"
      "\<And>gs t. has_sub gs t n \<longleftrightarrow> has_sub gs t q \<or> gs = canon fs \<and> t = s" by auto
    note u = update_child [OF 2(3) IH(1) c]
    have "has_sub gs t m \<longleftrightarrow> has_sub gs t (Node cs p h e) \<or> gs = f # canon fs \<and> t = s" for gs t
      using IH(4) q(3) n(2) c by (cases gs) (auto simp: update_conv')
    moreover have "sub_count m = sub_count (Node cs p h e) + (if b then 1 else 0)"
      using u(2) IH(3) unfolding n(2) q(2) by linarith
    ultimately show ?thesis using c IH(2) q(3) n(2) u(1) by simp
  qed
qed

lemma unsubscribe_node_spec:
  assumes "node_ok n" "unsubscribe_node fs s n = (b, m)"
  shows "node_ok m \<and> b = has_sub (canon fs) s n \<and> sub_count n = sub_count m + (if b then 1 else 0)
    \<and> (\<forall>gs t. has_sub gs t m \<longleftrightarrow> has_sub gs t n \<and> \<not> (gs = canon fs \<and> t = s))"
  using assms
proof (induction fs s n arbitrary: b m rule: unsubscribe_node.induct)
  case (1 s cs p h e)
  then obtain e' where e': "set_erase s e = (b, e')" "m = Node cs p h e'" by (auto split: prod.splits)
  from set_erase_facts [OF _ e'(1)] 1 have f: "b = (s \<in> set e)" "set e' = set e - {s}" "distinct e'"
    "length e = length e' + (if b then 1 else 0)" by auto
  have "has_sub gs t m \<longleftrightarrow> has_sub gs t (Node cs p h e) \<and> \<not> (gs = [] \<and> t = s)" for gs t
    using f(2) e'(2) by (cases gs) auto
  with 1 f e' show ?case by simp
next
  case (2 f fs s cs p h e)
  consider "f = [HASH]" | "f = [PLUS]" | "f \<noteq> [HASH]" "f \<noteq> [PLUS]" by blast
  then show ?case
  proof cases
    case 1
    with 2(4) obtain h' where h': "set_erase s h = (b, h')" "m = Node cs p h' e" by (auto split: prod.splits)
    from set_erase_facts [OF _ h'(1)] 2(3) have f: "b = (s \<in> set h)" "set h' = set h - {s}" "distinct h'"
      "length h = length h' + (if b then 1 else 0)" by auto
    have "has_sub gs t m \<longleftrightarrow> has_sub gs t (Node cs p h e) \<and> \<not> (gs = [[HASH]] \<and> t = s)" for gs t
      using f(2) h'(2) by (cases gs) auto
    with 2(3) 1 f h' show ?thesis by simp
  next
    case p: 2
    show ?thesis
    proof (cases p)
      case None
      have "\<not> has_sub ([PLUS] # gs) t (Node cs None h e)" for gs t by simp
      with 2(3,4) p None show ?thesis by auto
    next
      case (Some q)
      from 2(4) p Some obtain n where n: "unsubscribe_node fs s q = (b, n)" "m = Node cs (Some n) h e"
        by (auto split: prod.splits)
      have "f \<noteq> [HASH]" "node_ok q" using p 2(3) Some by simp_all
      from 2(1) [OF this(1) p Some this(2) n(1)] have IH: "node_ok n" "b = has_sub (canon fs) s q"
        "sub_count q = sub_count n + (if b then 1 else 0)"
        "\<And>gs t. has_sub gs t n \<longleftrightarrow> has_sub gs t q \<and> \<not> (gs = canon fs \<and> t = s)" by auto
      have "has_sub gs t m \<longleftrightarrow> has_sub gs t (Node cs p h e) \<and> \<not> (gs = [PLUS] # canon fs \<and> t = s)" for gs t
        using IH(4) n(2) Some by (cases gs) auto
      with p IH n Some 2(3) show ?thesis by simp
    qed
  next
    case c: 3
    show ?thesis
    proof (cases "map_of cs f")
      case None
      with 2(3,4) c show ?thesis by auto
    next
      case (Some q)
      from 2(4) c Some obtain n where n: "unsubscribe_node fs s q = (b, n)" "m = Node (AList.update f n cs) p h e"
        by (auto split: prod.splits)
      from 2(2) [OF c Some node_ok_child [OF 2(3) Some] n(1)] have IH: "node_ok n" "b = has_sub (canon fs) s q"
        "sub_count q = sub_count n + (if b then 1 else 0)"
        "\<And>gs t. has_sub gs t n \<longleftrightarrow> has_sub gs t q \<and> \<not> (gs = canon fs \<and> t = s)" by auto
      note u = update_child [OF 2(3) IH(1) c]
      have "has_sub gs t m \<longleftrightarrow> has_sub gs t (Node cs p h e) \<and> \<not> (gs = f # canon fs \<and> t = s)" for gs t
        using IH(4) n(2) c Some by (cases gs) (auto simp: update_conv')
      moreover have "sub_count (Node cs p h e) = sub_count m + (if b then 1 else 0)"
        using u(2) IH(3) unfolding n(2) Some option.case by linarith
      ultimately show ?thesis using c IH(2) n(2) u(1) Some by simp
    qed
  qed
qed

lemma unsubscribe_all_node_Node:
  "unsubscribe_all_node s (Node cs p h e) =
     ((if s \<in> set e then 1 else 0) + (if s \<in> set h then 1 else 0)
        + (case p of None \<Rightarrow> 0 | Some n \<Rightarrow> fst (unsubscribe_all_node s n))
        + sum_list (map (\<lambda>(k, n). fst (unsubscribe_all_node s n)) cs),
      Node (map (\<lambda>(k, n). (k, snd (unsubscribe_all_node s n))) cs) (map_option (snd \<circ> unsubscribe_all_node s) p)
        (removeAll s h) (removeAll s e))"
  by (simp add: Let_def set_erase_def case_prod_unfold comp_def option.map_comp split: option.split)

declare unsubscribe_all_node.simps [simp del]

lemma map_of_map_snd: "map_of (map (\<lambda>(k, n). (k, f n)) cs) k = map_option f (map_of cs k)"
  by (induction cs) auto

lemma unsubscribe_all_node_ok: "node_ok n \<Longrightarrow> node_ok (snd (unsubscribe_all_node s n))"
proof (induction n rule: node_ok.induct)
  case (1 cs p h e)
  have "map fst (map (\<lambda>(k, n). (k, snd (unsubscribe_all_node s n))) cs) = map fst cs" by auto
  moreover from this have "fst ` set (map (\<lambda>(k, n). (k, snd (unsubscribe_all_node s n))) cs) = fst ` set cs"
    by (metis list.set_map)
  moreover have "list_all (\<lambda>(k, n). node_ok n) (map (\<lambda>(k, n). (k, snd (unsubscribe_all_node s n))) cs)"
    using 1 by (auto simp: list_all_iff)
  ultimately show ?case
    using 1 by (auto simp: unsubscribe_all_node_Node distinct_removeAll simp del: map_map set_map split: option.splits)
qed

lemma unsubscribe_all_node_count:
  "node_ok n \<Longrightarrow> sub_count n = sub_count (snd (unsubscribe_all_node s n)) + fst (unsubscribe_all_node s n)"
proof (induction n rule: node_ok.induct)
  case (1 cs p h e)
  have "sub_count n = sub_count (snd (unsubscribe_all_node s n)) + fst (unsubscribe_all_node s n)"
    if "(k, n) \<in> set cs" for k n
    using 1 that by (auto simp: list_all_iff)
  then have "sum_list (map (\<lambda>(k, n). sub_count n) cs) =
      sum_list (map (\<lambda>(k, n). sub_count (snd (unsubscribe_all_node s n))) cs)
      + sum_list (map (\<lambda>(k, n). fst (unsubscribe_all_node s n)) cs)"
    by (induction cs) (auto, force)
  moreover have "length xs = length (removeAll s xs) + (if s \<in> set xs then 1 else 0)" if "distinct xs" for xs
    using set_erase_facts [OF that, of s] by (simp add: set_erase_def)
  then have "length e = length (removeAll s e) + (if s \<in> set e then 1 else 0)"
    "length h = length (removeAll s h) + (if s \<in> set h then 1 else 0)" using 1(3) by auto
  ultimately show ?case
    using 1(1,3) by (auto simp: unsubscribe_all_node_Node case_prod_unfold comp_def split: option.splits)
qed

lemma has_sub_unsubscribe_all: "has_sub gs t (snd (unsubscribe_all_node s n)) \<longleftrightarrow> has_sub gs t n \<and> t \<noteq> s"
proof (induction gs t n rule: has_sub.induct)
  case (2 f fs t cs p h e)
  then show ?case
    by (auto simp: unsubscribe_all_node_Node map_of_map_snd split: option.splits)
qed (auto simp: unsubscribe_all_node_Node)

lemma set_insert_all: "set (insert_all xs out) = set xs \<union> set out"
  by (induction xs arbitrary: out) (auto simp: insert_all_def set_insert_def)

lemma distinct_insert_all: "distinct out \<Longrightarrow> distinct (insert_all xs out)"
  by (induction xs arbitrary: out) (auto simp: insert_all_def set_insert_def)

lemma distinct_match_into: "distinct out \<Longrightarrow> distinct (match_into ts n out)"
  by (induction ts n out rule: match_into.induct) (auto simp: distinct_insert_all Let_def split: option.splits)

text \<open>The filters a node has, by their first segment.\<close>

lemma ex_segs: "(\<exists>fs :: bytes list. P fs) \<longleftrightarrow> P [] \<or> (\<exists>f fs. P (f # fs))"
  by (metis list.exhaust)

lemma match_node_Nil:
  "(\<exists>fs. has_sub fs s (Node cs p h e) \<and> segs_match0 fs []) \<longleftrightarrow> s \<in> set e \<or> s \<in> set h"
  by (subst ex_segs) auto

lemma match_node_Cons:
  assumes "node_ok (Node cs p h e)"
  shows "(\<exists>fs. has_sub fs s (Node cs p h e) \<and> segs_match0 fs (t # ts)) \<longleftrightarrow>
    s \<in> set h \<or> (\<exists>n. map_of cs t = Some n \<and> (\<exists>fs. has_sub fs s n \<and> segs_match0 fs ts))
    \<or> (\<exists>n. p = Some n \<and> (\<exists>fs. has_sub fs s n \<and> segs_match0 fs ts))"
proof -
  have "map_of cs [HASH] = None" "map_of cs [PLUS] = None"
    using assms by (auto simp: map_of_eq_None_iff)
  then have k: "map_of cs t = Some n \<Longrightarrow> t \<noteq> [HASH] \<and> t \<noteq> [PLUS]" for n by auto
  have "(\<exists>fs. has_sub (f # fs) s (Node cs p h e) \<and> segs_match0 (f # fs) (t # ts)) \<longleftrightarrow>
      f = [HASH] \<and> s \<in> set h
      \<or> f = [PLUS] \<and> (\<exists>n fs. p = Some n \<and> has_sub fs s n \<and> segs_match0 fs ts)
      \<or> f = t \<and> (\<exists>n fs. map_of cs t = Some n \<and> has_sub fs s n \<and> segs_match0 fs ts)" for f
    using k by (cases p; cases "map_of cs f") auto
  then show ?thesis by (subst ex_segs) auto
qed

lemma match_into_iff:
  "node_ok n \<Longrightarrow> s \<in> set (match_into ts n out) \<longleftrightarrow> s \<in> set out \<or> (\<exists>fs. has_sub fs s n \<and> segs_match0 fs ts)"
proof (induction ts n out rule: match_into.induct)
  case (1 cs p h e out)
  then show ?case by (auto simp: match_node_Nil set_insert_all)
next
  case (2 t ts cs p h e out)
  define o1 where "o1 = insert_all h out"
  define o2 where "o2 = (case map_of cs t of None \<Rightarrow> o1 | Some n \<Rightarrow> match_into ts n o1)"
  have o1: "set o1 = set h \<union> set out" by (simp add: o1_def set_insert_all)
  have "s \<in> set o2 \<longleftrightarrow> s \<in> set o1 \<or> (\<exists>n. map_of cs t = Some n \<and> (\<exists>fs. has_sub fs s n \<and> segs_match0 fs ts))"
    using 2(1) [OF o1_def] node_ok_child [OF 2(3)] by (auto simp: o2_def split: option.splits)
  moreover have "s \<in> set (match_into (t # ts) (Node cs p h e) out) \<longleftrightarrow>
      s \<in> set o2 \<or> (\<exists>n. p = Some n \<and> (\<exists>fs. has_sub fs s n \<and> segs_match0 fs ts))"
    using 2(2) [OF o1_def o2_def] 2(3)
    by (auto simp: Let_def o1_def [symmetric] o2_def [symmetric] split: option.splits)
  ultimately show ?case unfolding match_node_Cons [OF 2(3)] o1 by blast
qed

definition subs_of :: "Node \<Rightarrow> (bytes list \<times> SubscriberId) set" where
  "subs_of n = {(fs, s). has_sub fs s n}"

definition under :: "bytes \<Rightarrow> (bytes list \<times> SubscriberId) set \<Rightarrow> (bytes list \<times> SubscriberId) set" where
  "under k S = (\<lambda>(fs, s). (k # fs, s)) ` S"

lemma card_under: "card (under k S) = card S" "finite S \<Longrightarrow> finite (under k S)"
  by (auto simp: under_def inj_on_def intro!: card_image)

lemma under_head: "x \<in> under k S \<Longrightarrow> \<exists>fs. fst x = k # fs"
  by (auto simp: under_def)

definition children_of :: "(bytes \<times> Node) list \<Rightarrow> (bytes list \<times> SubscriberId) set" where
  "children_of cs = (\<Union>(k, n) \<in> set cs. under k (subs_of n))"

lemma children_head: "x \<in> children_of cs \<Longrightarrow> \<exists>k fs. fst x = k # fs \<and> k \<in> fst ` set cs"
proof -
  assume "x \<in> children_of cs"
  then obtain k n where kn: "(k, n) \<in> set cs" "x \<in> under k (subs_of n)" by (auto simp: children_of_def)
  from under_head [OF this(2)] kn(1) show ?thesis by (metis fst_conv image_eqI)
qed

lemma card_children_of:
  assumes "distinct (map fst cs)" "\<And>k n. (k, n) \<in> set cs \<Longrightarrow> finite (subs_of n) \<and> card (subs_of n) = sub_count n"
  shows "finite (children_of cs) \<and> card (children_of cs) = sum_list (map (\<lambda>(k, n). sub_count n) cs)"
  using assms
proof (induction cs)
  case (Cons c cs)
  obtain k n where c: "c = (k, n)" by (cases c)
  have "children_of (c # cs) = under k (subs_of n) \<union> children_of cs" by (auto simp: children_of_def c)
  moreover have "under k (subs_of n) \<inter> children_of cs = {}"
  proof -
    have "k \<notin> fst ` set cs" using Cons.prems(1) c by simp
    then have False if "x \<in> under k (subs_of n)" "x \<in> children_of cs" for x
      using under_head [OF that(1)] children_head [OF that(2)] by (metis list.inject)
    then show ?thesis by blast
  qed
  moreover have "finite (under k (subs_of n))" "card (under k (subs_of n)) = sub_count n"
    using Cons.prems(2) [of k n] c by (simp_all add: card_under)
  moreover have "finite (children_of cs) \<and> card (children_of cs) = sum_list (map (\<lambda>(k, n). sub_count n) cs)"
    using Cons.prems by (intro Cons.IH) auto
  ultimately show ?case using c by (simp add: card_Un_disjoint)
qed (simp add: children_of_def)

lemma subs_of_Node:
  assumes "node_ok (Node cs p h e)"
  shows "subs_of (Node cs p h e) = Pair [] ` set e \<union> Pair [[HASH]] ` set h
    \<union> (case p of None \<Rightarrow> {} | Some n \<Rightarrow> under [PLUS] (subs_of n)) \<union> children_of cs"
    (is "?L = ?R")
proof (intro set_eqI)
  fix x :: "bytes list \<times> SubscriberId"
  obtain fs s where x: "x = (fs, s)" by (cases x)
  have d: "distinct (map fst cs)" "[HASH] \<notin> fst ` set cs" "[PLUS] \<notin> fst ` set cs" using assms by auto
  show "x \<in> ?L \<longleftrightarrow> x \<in> ?R"
  proof (cases fs)
    case Nil
    then show ?thesis by (auto simp: x subs_of_def dest: children_head under_head split: option.splits)
  next
    case (Cons f gs)
    have "x \<in> children_of cs \<longleftrightarrow> (\<exists>n. map_of cs f = Some n \<and> has_sub gs s n)"
      using d(1) by (fastforce simp: x Cons children_of_def under_def subs_of_def dest: map_of_SomeD)
    moreover have "map_of cs f = Some n \<Longrightarrow> f \<noteq> [HASH] \<and> f \<noteq> [PLUS]" for n
      using d(2,3) by (metis domI dom_map_of_conv_image_fst)
    ultimately show ?thesis
      by (cases p; cases "map_of cs f") (auto simp: x Cons subs_of_def under_def)
  qed
qed

lemma card_subs_of: "node_ok n \<Longrightarrow> finite (subs_of n) \<and> card (subs_of n) = sub_count n"
proof (induction n rule: node_ok.induct)
  case (1 cs p h e)
  let ?E = "Pair [] ` set e" and ?H = "Pair [[HASH]] ` set h"
    and ?P = "case p of None \<Rightarrow> {} | Some n \<Rightarrow> under [PLUS] (subs_of n)"
  have C: "finite (children_of cs) \<and> card (children_of cs) = sum_list (map (\<lambda>(k, n). sub_count n) cs)"
    using 1 by (intro card_children_of) (auto simp: list_all_iff)
  have P: "finite ?P" "card ?P = (case p of None \<Rightarrow> 0 | Some n \<Rightarrow> sub_count n)"
    using 1(1,3) by (auto simp: card_under split: option.splits)
  have EH: "card (?E \<union> ?H) = length e + length h"
    using 1(3) by (subst card_Un_disjoint) (auto simp: card_image inj_on_def distinct_card)
  have p: "x \<in> ?P \<Longrightarrow> \<exists>fs. fst x = [PLUS] # fs" for x using under_head by (cases p) auto
  have c: "x \<in> children_of cs \<Longrightarrow> \<exists>k fs. fst x = k # fs \<and> k \<noteq> [PLUS] \<and> k \<noteq> [HASH]" for x
    using children_head [of x cs] 1(3) by (metis node_ok.simps)
  have "(?E \<union> ?H) \<inter> ?P = {}" using p by (auto, force+)
  moreover have "(?E \<union> ?H \<union> ?P) \<inter> children_of cs = {}"
  proof -
    have "\<nexists>k fs. fst x = k # fs \<and> k \<noteq> [PLUS] \<and> k \<noteq> [HASH]" if "x \<in> ?E \<union> ?H \<union> ?P" for x
      using that p [of x] by auto
    with c show ?thesis by blast
  qed
  ultimately show ?case
    using C P EH unfolding subs_of_Node [OF 1(3)] by (simp add: card_Un_disjoint)
qed

subsection \<open>The registry contract\<close>

text \<open>
  What the broker relies on: a registry holds a finite set of subscriptions, a filter and a
  subscriber each, and finds the subscribers of a topic. A history of operations leaves the
  subscriptions that a set would have.
\<close>

datatype sub_op = Subscribe bytes SubscriberId | Unsubscribe bytes SubscriberId | Drop SubscriberId

definition filter_key :: "bytes \<Rightarrow> bytes list" where
  "filter_key f = canon (topic_segs f)"

fun subs_step :: "sub_op \<Rightarrow> (bytes list \<times> SubscriberId) set \<Rightarrow> (bytes list \<times> SubscriberId) set" where
  "subs_step (Subscribe f s) S = insert (filter_key f, s) S"
| "subs_step (Unsubscribe f s) S = S - {(filter_key f, s)}"
| "subs_step (Drop s) S = {x \<in> S. snd x \<noteq> s}"

locale sub_registry =
  fixes invar :: "'t \<Rightarrow> bool"
    and subs :: "'t \<Rightarrow> (bytes list \<times> SubscriberId) set"
    and op :: "sub_op \<Rightarrow> 't \<Rightarrow> 't"
    and find_subs :: "bytes \<Rightarrow> 't \<Rightarrow> SubscriberId list"
    and total :: "'t \<Rightarrow> u64"
  assumes op_invar: "invar t \<Longrightarrow> invar (op x t)"
    and op_subs: "invar t \<Longrightarrow> subs (op x t) = subs_step x (subs t)"
    and find_set: "invar t \<Longrightarrow> set (find_subs topic t) = {s. \<exists>f. (f, s) \<in> subs t \<and> segs_match0 f (topic_segs topic)}"
    and find_distinct: "invar t \<Longrightarrow> distinct (find_subs topic t)"
    and total_subs: "invar t \<Longrightarrow> finite (subs t) \<and> total t = of_nat (card (subs t))"
begin

lemma run_invar: "invar t \<Longrightarrow> invar (fold op xs t)"
  by (induction xs arbitrary: t) (auto simp: op_invar)

lemma run_refines: "invar t \<Longrightarrow> subs (fold op xs t) = fold subs_step xs (subs t)"
  by (induction xs arbitrary: t) (auto simp: op_invar op_subs)

lemma run_find:
  "invar t \<Longrightarrow> set (find_subs topic (fold op xs t)) =
     {s. \<exists>f. (f, s) \<in> fold subs_step xs (subs t) \<and> segs_match0 f (topic_segs topic)}"
  by (simp add: find_set run_invar run_refines)

lemma dropped_not_found: "invar t \<Longrightarrow> s \<notin> set (find_subs topic (op (Drop s) t))"
  by (auto simp: find_set op_invar op_subs)

lemma subscribed_found:
  "invar t \<Longrightarrow> s \<in> set (find_subs topic (op (Subscribe f s) t)) \<longleftrightarrow>
     segs_match0 (filter_key f) (topic_segs topic) \<or> s \<in> set (find_subs topic t)"
  by (auto simp: find_set op_invar op_subs)

lemma unsubscribed_found:
  assumes "invar t" "\<And>g. (g, s) \<in> subs t \<Longrightarrow> g = filter_key f"
  shows "s \<notin> set (find_subs topic (op (Unsubscribe f s) t))"
  using assms by (auto simp: find_set op_invar op_subs)

end

fun trie_op :: "sub_op \<Rightarrow> TopicTrie \<Rightarrow> TopicTrie" where
  "trie_op (Subscribe f s) t = snd (trie_subscribe f s t)"
| "trie_op (Unsubscribe f s) t = snd (trie_unsubscribe f s t)"
| "trie_op (Drop s) t = snd (trie_unsubscribe_all s t)"

definition trie_ok :: "TopicTrie \<Rightarrow> bool" where
  "trie_ok t \<longleftrightarrow> node_ok (root t) \<and> total_subs t = of_nat (sub_count (root t))"

definition trie_subs :: "TopicTrie \<Rightarrow> (bytes list \<times> SubscriberId) set" where
  "trie_subs t = subs_of (root t)"

lemma trie_subscribe_spec:
  assumes "trie_ok t" "trie_subscribe f s t = (b, t')"
  shows "trie_ok t' \<and> trie_subs t' = insert (filter_key f, s) (trie_subs t) \<and> b = ((filter_key f, s) \<notin> trie_subs t)"
proof -
  obtain n where n: "subscribe_node (topic_segs f) s (root t) = (b, n)"
      "t' = t\<lparr>root := n, total_subs := (if b then total_subs t + 1 else total_subs t)\<rparr>"
    using assms(2) by (auto simp: trie_subscribe_def split_topic_eq split: prod.splits)
  from subscribe_node_spec [OF _ n(1)] assms(1) n(2) show ?thesis
    by (auto simp: trie_ok_def trie_subs_def subs_of_def filter_key_def)
qed

lemma trie_unsubscribe_spec:
  assumes "trie_ok t" "trie_unsubscribe f s t = (b, t')"
  shows "trie_ok t' \<and> trie_subs t' = trie_subs t - {(filter_key f, s)} \<and> b = ((filter_key f, s) \<in> trie_subs t)"
proof -
  obtain n where n: "unsubscribe_node (topic_segs f) s (root t) = (b, n)"
      "t' = t\<lparr>root := n, total_subs := (if b then total_subs t - 1 else total_subs t)\<rparr>"
    using assms(2) by (auto simp: trie_unsubscribe_def split_topic_eq split: prod.splits)
  from unsubscribe_node_spec [OF _ n(1)] assms(1) n(2) show ?thesis
    by (auto simp: trie_ok_def trie_subs_def subs_of_def filter_key_def)
qed

lemma trie_unsubscribe_all_spec:
  assumes "trie_ok t" "trie_unsubscribe_all s t = (r, t')"
  shows "trie_ok t' \<and> trie_subs t' = {x \<in> trie_subs t. snd x \<noteq> s} \<and> r = card {x \<in> trie_subs t. snd x = s}"
proof -
  let ?m = "snd (unsubscribe_all_node s (root t))"
  have ok: "node_ok (root t)" "node_ok ?m" using assms(1) by (auto simp: trie_ok_def unsubscribe_all_node_ok)
  have r: "r = fst (unsubscribe_all_node s (root t))" "t' = t\<lparr>root := ?m, total_subs := total_subs t - of_nat r\<rparr>"
    using assms(2) by (auto simp: trie_unsubscribe_all_def split: prod.splits)
  have S: "trie_subs t' = {x \<in> trie_subs t. snd x \<noteq> s}"
    by (auto simp: r(2) trie_subs_def subs_of_def has_sub_unsubscribe_all)
  have c: "sub_count (root t) = sub_count ?m + r" using unsubscribe_all_node_count [OF ok(1)] r(1) by simp
  have "trie_subs t = trie_subs t' \<union> {x \<in> trie_subs t. snd x = s}" using S by auto
  moreover have "finite (trie_subs t)" using card_subs_of [OF ok(1)] by (simp add: trie_subs_def)
  ultimately have "card (trie_subs t) = card (trie_subs t') + card {x \<in> trie_subs t. snd x = s}"
    using S by (subst card_Un_disjoint [symmetric]) auto
  then have "r = card {x \<in> trie_subs t. snd x = s}"
    using c card_subs_of [OF ok(1)] card_subs_of [OF ok(2)] r(2) by (simp add: trie_subs_def)
  moreover have "trie_ok t'" using assms(1) ok(2) c r(2) by (simp add: trie_ok_def)
  ultimately show ?thesis using S by simp
qed

interpretation trie: sub_registry trie_ok trie_subs trie_op trie_match trie_subscription_count
proof
  fix t x topic
  assume ok: "trie_ok t"
  have "trie_ok (trie_op x t) \<and> trie_subs (trie_op x t) = subs_step x (trie_subs t)"
  proof (cases x)
    case (Subscribe f s)
    with trie_subscribe_spec [OF ok prod.collapse [symmetric], of f s] show ?thesis by simp
  next
    case (Unsubscribe f s)
    with trie_unsubscribe_spec [OF ok prod.collapse [symmetric], of f s] show ?thesis by simp
  next
    case (Drop s)
    with trie_unsubscribe_all_spec [OF ok prod.collapse [symmetric], of s] show ?thesis by simp
  qed
  then show "trie_ok (trie_op x t)" "trie_subs (trie_op x t) = subs_step x (trie_subs t)" by simp_all
  show "set (trie_match topic t) = {s. \<exists>f. (f, s) \<in> trie_subs t \<and> segs_match0 f (topic_segs topic)}"
    using match_into_iff [of "root t" _ _ "[]"] ok
    by (auto simp: trie_match_def split_topic_eq trie_ok_def trie_subs_def subs_of_def)
  show "distinct (trie_match topic t)" by (simp add: trie_match_def distinct_match_into)
  show "finite (trie_subs t) \<and> trie_subscription_count t = of_nat (card (trie_subs t))"
    using card_subs_of [of "root t"] ok by (simp add: trie_ok_def trie_subs_def trie_subscription_count_def)
qed

lemma trie_new_ok: "trie_ok trie_new" "trie_subs trie_new = {}"
  by (simp_all add: trie_ok_def trie_new_def trie_subs_def subs_of_def)

text \<open>
  C24. The subscription trie. After any history of subscribing, unsubscribing and dropping
  subscribers from an empty trie, a topic finds, each once, exactly the subscribers of the filters
  that match it, the hash standing for zero or more segments, and the subscription count is the
  number of different subscriptions.
\<close>

theorem topic_trie_refines:
  "let t = fold trie_op xs trie_new; S = fold subs_step xs {} in
   distinct (trie_match topic t) \<and> set (trie_match topic t) = {s. \<exists>f. (f, s) \<in> S \<and> segs_match0 f (topic_segs topic)}
   \<and> trie_subscription_count t = of_nat (card S)"
  using trie.run_find [OF trie_new_ok(1), of topic xs] trie.run_invar [OF trie_new_ok(1), of xs]
    trie.total_subs trie.find_distinct trie.run_refines [OF trie_new_ok(1), of xs]
  by (simp add: Let_def trie_new_ok(2))

end
