(* ===== verification/SL_States.thy ===== *)
theory SL_States
  imports SL_Handshake
begin

text \<open>
  The three lifecycle state machines: connections (\<open>connection_state.cpp\<close>), streams
  (\<open>stream_state.cpp\<close>) and the message order of the handshake (\<open>handshake_state.cpp\<close>). The steady
  clock is an argument of the methods that read it, in milliseconds.
\<close>

subsection \<open>Connections\<close>

datatype ConnState = kFresh | kHandshaking | kAuthenticated | kClosing | kClosed

datatype ConnEvent = kStartHandshake | kHandshakeDone | kHandshakeFailed | kRecvAppRecord | kSendAppRecord
  | kBeginClose | kPeerClosed | kIoError | kTimeout

record ConnectionState =
  cs_state :: ConnState
  cs_entered :: int
  cs_events :: u64
  cs_invalids :: u64
  cs_close_reason :: string

definition conn_new :: "int \<Rightarrow> ConnectionState" where
  "conn_new now = \<lparr>cs_state = kFresh, cs_entered = now, cs_events = 0, cs_invalids = 0, cs_close_reason = ''''\<rparr>"

definition conn_transition_to :: "int \<Rightarrow> ConnState \<Rightarrow> ConnectionState \<Rightarrow> ConnectionState" where
  "conn_transition_to now s c = c\<lparr>cs_state := s, cs_entered := now\<rparr>"

definition conn_state_name :: "ConnectionState \<Rightarrow> string" where
  "conn_state_name c =
     (case cs_state c of
        kFresh \<Rightarrow> ''fresh'' | kHandshaking \<Rightarrow> ''handshaking'' | kAuthenticated \<Rightarrow> ''authenticated''
      | kClosing \<Rightarrow> ''closing'' | kClosed \<Rightarrow> ''closed'')"

definition conn_invalid :: "int \<Rightarrow> ConnectionState \<Rightarrow> bool \<times> ConnectionState" where
  "conn_invalid now c =
     (let c1 = conn_transition_to now kClosed (c\<lparr>cs_invalids := cs_invalids c + 1\<rparr>)
      in (False, if cs_close_reason c1 = '''' then c1\<lparr>cs_close_reason := ''invalid_transition''\<rparr> else c1))"

definition conn_on_event :: "int \<Rightarrow> ConnEvent \<Rightarrow> ConnectionState \<Rightarrow> bool \<times> ConnectionState" where
  "conn_on_event now ev c0 =
     (let c = c0\<lparr>cs_events := cs_events c0 + 1\<rparr>;
          goto = (\<lambda>s. (True, conn_transition_to now s c))
      in case cs_state c of
           kFresh \<Rightarrow>
             (case ev of
                kStartHandshake \<Rightarrow> goto kHandshaking
              | kPeerClosed \<Rightarrow> goto kClosed | kIoError \<Rightarrow> goto kClosed | kTimeout \<Rightarrow> goto kClosed
              | _ \<Rightarrow> conn_invalid now c)
         | kHandshaking \<Rightarrow>
             (case ev of
                kHandshakeDone \<Rightarrow> goto kAuthenticated
              | kHandshakeFailed \<Rightarrow> goto kClosed
              | kPeerClosed \<Rightarrow> goto kClosed | kIoError \<Rightarrow> goto kClosed | kTimeout \<Rightarrow> goto kClosed
              | _ \<Rightarrow> conn_invalid now c)
         | kAuthenticated \<Rightarrow>
             (case ev of
                kRecvAppRecord \<Rightarrow> (True, c) | kSendAppRecord \<Rightarrow> (True, c)
              | kBeginClose \<Rightarrow> goto kClosing
              | kPeerClosed \<Rightarrow> goto kClosed | kIoError \<Rightarrow> goto kClosed | kTimeout \<Rightarrow> goto kClosed
              | _ \<Rightarrow> conn_invalid now c)
         | kClosing \<Rightarrow>
             (case ev of
                kPeerClosed \<Rightarrow> goto kClosed | kIoError \<Rightarrow> goto kClosed | kTimeout \<Rightarrow> goto kClosed
              | kRecvAppRecord \<Rightarrow> (True, c)
              | _ \<Rightarrow> conn_invalid now c)
         | kClosed \<Rightarrow>
             if ev = kPeerClosed \<or> ev = kIoError \<or> ev = kTimeout then (True, c) else conn_invalid now c)"

definition conn_is_terminal :: "ConnectionState \<Rightarrow> bool" where
  "conn_is_terminal c = (cs_state c = kClosed)"

definition conn_can_send_app :: "ConnectionState \<Rightarrow> bool" where
  "conn_can_send_app c = (cs_state c = kAuthenticated)"

definition conn_set_close_reason :: "string \<Rightarrow> ConnectionState \<Rightarrow> ConnectionState" where
  "conn_set_close_reason r c = c\<lparr>cs_close_reason := r\<rparr>"

definition conn_time_in_state :: "int \<Rightarrow> ConnectionState \<Rightarrow> int" where
  "conn_time_in_state now c = now - cs_entered c"

subsection \<open>Streams\<close>

datatype StreamPhase = kIdle | kOpen | kHalfClosedLocal | kHalfClosedRemote | kStreamClosed

record StreamState =
  ss_id :: u32
  ss_phase :: StreamPhase
  ss_opened_at :: int
  ss_reset_reason :: string

definition ss_new :: "int \<Rightarrow> u32 \<Rightarrow> StreamState" where
  "ss_new now i = \<lparr>ss_id = i, ss_phase = kIdle, ss_opened_at = now, ss_reset_reason = ''''\<rparr>"

definition ss_phase_name :: "StreamState \<Rightarrow> string" where
  "ss_phase_name s =
     (case ss_phase s of
        kIdle \<Rightarrow> ''idle'' | kOpen \<Rightarrow> ''open'' | kHalfClosedLocal \<Rightarrow> ''half_closed_local''
      | kHalfClosedRemote \<Rightarrow> ''half_closed_remote'' | kStreamClosed \<Rightarrow> ''closed'')"

definition ss_transition_to :: "StreamPhase \<Rightarrow> StreamState \<Rightarrow> StreamState" where
  "ss_transition_to p s = s\<lparr>ss_phase := p\<rparr>"

definition ss_open :: "int \<Rightarrow> StreamState \<Rightarrow> bool \<times> StreamState" where
  "ss_open now s =
     (if ss_phase s \<noteq> kIdle then (False, s)
      else (True, (ss_transition_to kOpen s)\<lparr>ss_opened_at := now\<rparr>))"

definition ss_on_sent_fin :: "StreamState \<Rightarrow> bool \<times> StreamState" where
  "ss_on_sent_fin s =
     (case ss_phase s of
        kOpen \<Rightarrow> (True, ss_transition_to kHalfClosedLocal s)
      | kHalfClosedRemote \<Rightarrow> (True, ss_transition_to kStreamClosed s)
      | _ \<Rightarrow> (False, s))"

definition ss_on_recv_fin :: "StreamState \<Rightarrow> bool \<times> StreamState" where
  "ss_on_recv_fin s =
     (case ss_phase s of
        kOpen \<Rightarrow> (True, ss_transition_to kHalfClosedRemote s)
      | kHalfClosedLocal \<Rightarrow> (True, ss_transition_to kStreamClosed s)
      | _ \<Rightarrow> (False, s))"

definition ss_reset :: "string \<Rightarrow> StreamState \<Rightarrow> StreamState" where
  "ss_reset reason s = ss_transition_to kStreamClosed (s\<lparr>ss_reset_reason := reason\<rparr>)"

definition ss_can_send :: "StreamState \<Rightarrow> bool" where
  "ss_can_send s = (ss_phase s = kOpen \<or> ss_phase s = kHalfClosedRemote)"

definition ss_can_recv :: "StreamState \<Rightarrow> bool" where
  "ss_can_recv s = (ss_phase s = kOpen \<or> ss_phase s = kHalfClosedLocal)"

definition ss_is_closed :: "StreamState \<Rightarrow> bool" where
  "ss_is_closed s = (ss_phase s = kStreamClosed)"

definition ss_age :: "int \<Rightarrow> StreamState \<Rightarrow> int" where
  "ss_age now s = now - ss_opened_at s"

subsection \<open>The order of handshake messages\<close>

datatype HsState = kInit | kWaitClientHello | kWaitServerHello | kWaitCertificate | kWaitCertVerify
  | kWaitServerFinished | kWaitClientFinished | kDone | kFailed

datatype HsRole = kClient | kServer

record HandshakeState =
  hs_role :: HsRole
  hs_state :: HsState
  hs_sent :: u32
  hs_recv :: u32
  hs_failure_reason :: string

abbreviation (input) SL_HS_CLIENT_HELLO :: sl_hs_type_t where "SL_HS_CLIENT_HELLO \<equiv> 1"
abbreviation (input) SL_HS_SERVER_HELLO :: sl_hs_type_t where "SL_HS_SERVER_HELLO \<equiv> 2"
abbreviation (input) SL_HS_CERTIFICATE :: sl_hs_type_t where "SL_HS_CERTIFICATE \<equiv> 3"
abbreviation (input) SL_HS_CERT_VERIFY :: sl_hs_type_t where "SL_HS_CERT_VERIFY \<equiv> 4"
abbreviation (input) SL_HS_FINISHED :: sl_hs_type_t where "SL_HS_FINISHED \<equiv> 5"

definition hs_new :: "HsRole \<Rightarrow> HandshakeState" where
  "hs_new role = \<lparr>hs_role = role, hs_state = kInit, hs_sent = 0, hs_recv = 0, hs_failure_reason = ''''\<rparr>"

definition hs_state_name :: "HandshakeState \<Rightarrow> string" where
  "hs_state_name h =
     (case hs_state h of
        kInit \<Rightarrow> ''init'' | kWaitClientHello \<Rightarrow> ''wait_client_hello'' | kWaitServerHello \<Rightarrow> ''wait_server_hello''
      | kWaitCertificate \<Rightarrow> ''wait_certificate'' | kWaitCertVerify \<Rightarrow> ''wait_cert_verify''
      | kWaitServerFinished \<Rightarrow> ''wait_server_finished'' | kWaitClientFinished \<Rightarrow> ''wait_client_finished''
      | kDone \<Rightarrow> ''done'' | kFailed \<Rightarrow> ''failed'')"

definition hs_is_terminal :: "HandshakeState \<Rightarrow> bool" where
  "hs_is_terminal h = (hs_state h = kDone \<or> hs_state h = kFailed)"

definition hs_fail :: "string ptr \<Rightarrow> HandshakeState \<Rightarrow> HandshakeState" where
  "hs_fail reason h = h\<lparr>hs_state := kFailed, hs_failure_reason := (case reason of None \<Rightarrow> ''unknown'' | Some r \<Rightarrow> r)\<rparr>"

definition hs_start :: "HandshakeState \<Rightarrow> bool \<times> HandshakeState" where
  "hs_start h =
     (if hs_state h \<noteq> kInit then (False, hs_fail (Some ''start_in_non_init'') h)
      else (True, h\<lparr>hs_state := (if hs_role h = kClient then kWaitServerHello else kWaitClientHello)\<rparr>))"

definition hs_on_sent :: "sl_hs_type_t \<Rightarrow> HandshakeState \<Rightarrow> bool \<times> HandshakeState" where
  "hs_on_sent type h0 =
     (if hs_is_terminal h0 then (False, hs_fail (Some ''send_after_terminal'') h0)
      else
        let h = h0\<lparr>hs_sent := hs_sent h0 + 1\<rparr>; st = hs_state h in
        if hs_role h = kClient then
          if type = SL_HS_CLIENT_HELLO \<and> st = kWaitServerHello then (True, h)
          else if type = SL_HS_FINISHED \<and> (st = kWaitServerFinished \<or> st = kDone) then (True, h\<lparr>hs_state := kDone\<rparr>)
          else (False, hs_fail (Some ''unexpected_client_send'') h)
        else
          if (type = SL_HS_SERVER_HELLO \<or> type = SL_HS_CERTIFICATE \<or> type = SL_HS_CERT_VERIFY)
             \<and> (st = kWaitClientFinished \<or> st = kWaitClientHello) then (True, h\<lparr>hs_state := kWaitClientFinished\<rparr>)
          else if type = SL_HS_FINISHED \<and> st = kWaitClientFinished then (True, h)
          else (False, hs_fail (Some ''unexpected_server_send'') h))"

definition hs_on_received :: "sl_hs_type_t \<Rightarrow> HandshakeState \<Rightarrow> bool \<times> HandshakeState" where
  "hs_on_received type h0 =
     (if hs_is_terminal h0 then (False, hs_fail (Some ''recv_after_terminal'') h0)
      else
        let h = h0\<lparr>hs_recv := hs_recv h0 + 1\<rparr>; st = hs_state h in
        if hs_role h = kClient then
          if type = SL_HS_SERVER_HELLO \<and> st = kWaitServerHello then (True, h\<lparr>hs_state := kWaitCertificate\<rparr>)
          else if type = SL_HS_CERTIFICATE \<and> st = kWaitCertificate then (True, h\<lparr>hs_state := kWaitCertVerify\<rparr>)
          else if type = SL_HS_CERT_VERIFY \<and> st = kWaitCertVerify then (True, h\<lparr>hs_state := kWaitServerFinished\<rparr>)
          else if type = SL_HS_FINISHED \<and> st = kWaitServerFinished then (True, h)
          else (False, hs_fail (Some ''unexpected_client_recv'') h)
        else
          if type = SL_HS_CLIENT_HELLO \<and> st = kWaitClientHello then (True, h)
          else if type = SL_HS_FINISHED \<and> st = kWaitClientFinished then (True, h\<lparr>hs_state := kDone\<rparr>)
          else (False, hs_fail (Some ''unexpected_server_recv'') h))"

subsection \<open>Connection runs\<close>

definition conn_run :: "(int \<times> ConnEvent) list \<Rightarrow> ConnectionState \<Rightarrow> ConnectionState" where
  "conn_run evs c = fold (\<lambda>(now, ev) c. snd (conn_on_event now ev c)) evs c"

lemmas conn_defs = conn_on_event_def conn_invalid_def conn_transition_to_def Let_def

lemma conn_run_simps [simp]:
  "conn_run [] c = c" "conn_run ((now, ev) # evs) c = conn_run evs (snd (conn_on_event now ev c))"
  by (simp_all add: conn_run_def)

lemma conn_closed_absorbs: "cs_state c = kClosed \<Longrightarrow> cs_state (conn_run evs c) = kClosed"
  by (induction evs arbitrary: c) (auto simp: conn_defs)

lemma conn_closing_run: "cs_state c = kClosing \<Longrightarrow> cs_state (conn_run evs c) \<in> {kClosing, kClosed}"
proof (induction evs arbitrary: c)
  case (Cons e evs)
  obtain now ev where e: "e = (now, ev)" by (cases e)
  have "cs_state (snd (conn_on_event now ev c)) \<in> {kClosing, kClosed}"
    using Cons.prems by (cases ev) (simp_all add: conn_defs)
  with Cons.IH conn_closed_absorbs e show ?case by fastforce
qed simp

lemma conn_auth_run:
  "cs_state c = kAuthenticated \<Longrightarrow>
     cs_state (conn_run evs c) = kAuthenticated \<longleftrightarrow> set (map snd evs) \<subseteq> {kRecvAppRecord, kSendAppRecord}"
proof (induction evs arbitrary: c)
  case (Cons e evs)
  obtain now ev where e: "e = (now, ev)" by (cases e)
  let ?d = "snd (conn_on_event now ev c)"
  have "cs_state ?d = (if ev \<in> {kRecvAppRecord, kSendAppRecord} then kAuthenticated
      else if ev = kBeginClose then kClosing else kClosed)"
    using Cons.prems by (cases ev) (simp_all add: conn_defs)
  with Cons.IH [of ?d] conn_closed_absorbs [of ?d evs] conn_closing_run [of ?d evs] e show ?case
    by (auto split: if_splits)
qed simp

lemma conn_handshaking_run:
  assumes "cs_state c = kHandshaking"
  shows "cs_state (conn_run evs c) = kAuthenticated \<longleftrightarrow>
    (\<exists>rest. map snd evs = kHandshakeDone # rest \<and> set rest \<subseteq> {kRecvAppRecord, kSendAppRecord})"
proof (cases evs)
  case Nil
  then show ?thesis using assms by simp
next
  case (Cons e es)
  obtain now ev where e: "e = (now, ev)" by (cases e)
  let ?d = "snd (conn_on_event now ev c)"
  have "cs_state ?d = (if ev = kHandshakeDone then kAuthenticated else kClosed)"
    using assms by (cases ev) (simp_all add: conn_defs)
  with conn_auth_run [of ?d es] conn_closed_absorbs [of ?d es] Cons e show ?thesis
    by (auto split: if_splits)
qed

lemma conn_fresh_run:
  assumes "cs_state c = kFresh"
  shows "cs_state (conn_run evs c) = kAuthenticated \<longleftrightarrow>
    (\<exists>rest. map snd evs = kStartHandshake # kHandshakeDone # rest \<and> set rest \<subseteq> {kRecvAppRecord, kSendAppRecord})"
proof (cases evs)
  case Nil
  then show ?thesis using assms by simp
next
  case (Cons e es)
  obtain now ev where e: "e = (now, ev)" by (cases e)
  let ?d = "snd (conn_on_event now ev c)"
  have "cs_state ?d = (if ev = kStartHandshake then kHandshaking else kClosed)"
    using assms by (cases ev) (simp_all add: conn_defs)
  with conn_handshaking_run [of ?d es] conn_closed_absorbs [of ?d es] Cons e show ?thesis
    by (auto split: if_splits)
qed

lemma conn_rejected:
  "conn_on_event now ev c = (False, c') \<Longrightarrow> cs_state c' = kClosed \<and> cs_invalids c' = cs_invalids c + 1 \<and> cs_close_reason c' \<noteq> ''''"
  by (auto simp: conn_defs split: ConnState.splits ConnEvent.splits if_splits)

text \<open>
  C22. Connections. Application data may be sent after a sequence of events exactly when the
  handshake was started, then completed, and nothing but application records has followed: no
  other order of events opens the connection. A rejected event closes the connection, counts as
  invalid and leaves a reason, and a closed connection stays closed.
\<close>

theorem connection_lifecycle:
  "(conn_can_send_app (conn_run evs (conn_new t0)) \<longleftrightarrow>
      (\<exists>rest. map snd evs = kStartHandshake # kHandshakeDone # rest \<and> set rest \<subseteq> {kRecvAppRecord, kSendAppRecord}))
   \<and> (conn_on_event now ev c = (False, c') \<longrightarrow>
      conn_is_terminal c' \<and> cs_invalids c' = cs_invalids c + 1 \<and> cs_close_reason c' \<noteq> '''')
   \<and> (conn_is_terminal c \<longrightarrow> conn_is_terminal (conn_run evs c))"
  using conn_fresh_run [of "conn_new t0" evs] conn_rejected [of now ev c c'] conn_closed_absorbs [of c evs]
  by (auto simp: conn_can_send_app_def conn_is_terminal_def conn_new_def)

theorem connection_lifecycle_witness:
  "conn_can_send_app (conn_run [(1, kStartHandshake), (2, kHandshakeDone), (3, kSendAppRecord)] (conn_new 0))
   \<and> conn_is_terminal (snd (conn_on_event 5 kSendAppRecord (conn_new 0)))
   \<and> conn_is_terminal (conn_run [(6, kStartHandshake)] (snd (conn_on_event 5 kSendAppRecord (conn_new 0))))"
proof -
  obtain c where c: "conn_on_event 5 kSendAppRecord (conn_new 0) = (False, c)"
    by (simp add: conn_defs conn_new_def)
  with connection_lifecycle [of "[(1, kStartHandshake), (2, kHandshakeDone), (3, kSendAppRecord)]" 0 5 kSendAppRecord "conn_new 0" c]
    connection_lifecycle [THEN conjunct2, THEN conjunct2, rule_format, of c "[(6, kStartHandshake)]"]
  show ?thesis by auto
qed

subsection \<open>Stream runs\<close>

datatype stream_event = StOpen int | StSentFin | StRecvFin | StReset string

fun stream_step :: "stream_event \<Rightarrow> StreamState \<Rightarrow> StreamState" where
  "stream_step (StOpen now) s = snd (ss_open now s)"
| "stream_step StSentFin s = snd (ss_on_sent_fin s)"
| "stream_step StRecvFin s = snd (ss_on_recv_fin s)"
| "stream_step (StReset r) s = ss_reset r s"

lemmas ss_defs = ss_open_def ss_on_sent_fin_def ss_on_recv_fin_def ss_reset_def ss_transition_to_def

lemma stream_step_halves:
  assumes "ss_phase s \<noteq> kIdle"
  shows "ss_phase (stream_step e s) \<noteq> kIdle"
    "ss_can_send (stream_step e s) \<longleftrightarrow> ss_can_send s \<and> e \<noteq> StSentFin \<and> (\<forall>r. e \<noteq> StReset r)"
    "ss_can_recv (stream_step e s) \<longleftrightarrow> ss_can_recv s \<and> e \<noteq> StRecvFin \<and> (\<forall>r. e \<noteq> StReset r)"
  using assms by (cases e; cases "ss_phase s"; simp add: ss_defs ss_can_send_def ss_can_recv_def)+

lemma stream_run_halves:
  fixes evs :: "stream_event list"
  assumes "ss_phase s \<noteq> kIdle"
  defines "s' \<equiv> fold stream_step evs s"
  shows "ss_phase s' \<noteq> kIdle \<and> (ss_can_send s' \<longleftrightarrow> ss_can_send s \<and> StSentFin \<notin> set evs \<and> (\<forall>r. StReset r \<notin> set evs))
    \<and> (ss_can_recv s' \<longleftrightarrow> ss_can_recv s \<and> StRecvFin \<notin> set evs \<and> (\<forall>r. StReset r \<notin> set evs))"
  using assms(1) unfolding s'_def
proof (induction evs arbitrary: s)
  case (Cons e evs)
  show ?case
    using Cons.IH [OF stream_step_halves(1) [OF Cons.prems]] stream_step_halves [OF Cons.prems, of e] by auto
qed simp

text \<open>
  Streams. Once opened, a stream can send until its own end was marked or it was reset, can
  receive until the peer's end was marked or it was reset, whatever the order and the repetition
  of these events, and is closed exactly when it can do neither.
\<close>

theorem stream_lifecycle:
  "let s = fold stream_step (StOpen now # evs) (ss_new t0 i) in
   (ss_can_send s \<longleftrightarrow> StSentFin \<notin> set evs \<and> (\<forall>r. StReset r \<notin> set evs))
   \<and> (ss_can_recv s \<longleftrightarrow> StRecvFin \<notin> set evs \<and> (\<forall>r. StReset r \<notin> set evs))
   \<and> (ss_is_closed s \<longleftrightarrow> \<not> ss_can_send s \<and> \<not> ss_can_recv s)"
proof -
  let ?s = "snd (ss_open now (ss_new t0 i))"
  have "ss_phase ?s = kOpen" by (simp add: ss_defs ss_new_def)
  moreover have "ss_is_closed s \<longleftrightarrow> \<not> ss_can_send s \<and> \<not> ss_can_recv s" if "ss_phase s \<noteq> kIdle" for s
    using that by (cases "ss_phase s") (auto simp: ss_is_closed_def ss_can_send_def ss_can_recv_def)
  ultimately show ?thesis
    using stream_run_halves [of ?s evs] by (simp add: Let_def ss_can_send_def [of ?s] ss_can_recv_def [of ?s])
qed

subsection \<open>Handshake runs\<close>

datatype hs_event = HsStart | HsSent sl_hs_type_t | HsRecv sl_hs_type_t | HsFail "string ptr"

fun hs_step :: "hs_event \<Rightarrow> HandshakeState \<Rightarrow> HandshakeState" where
  "hs_step HsStart h = snd (hs_start h)"
| "hs_step (HsSent t) h = snd (hs_on_sent t h)"
| "hs_step (HsRecv t) h = snd (hs_on_received t h)"
| "hs_step (HsFail r) h = hs_fail r h"

text \<open>The next state of each role.\<close>

fun client_next :: "hs_event \<Rightarrow> HsState \<Rightarrow> HsState" where
  "client_next HsStart s = (if s = kInit then kWaitServerHello else kFailed)"
| "client_next (HsSent t) s =
     (if t = SL_HS_CLIENT_HELLO \<and> s = kWaitServerHello then s
      else if t = SL_HS_FINISHED \<and> s = kWaitServerFinished then kDone else kFailed)"
| "client_next (HsRecv t) s =
     (if t = SL_HS_SERVER_HELLO \<and> s = kWaitServerHello then kWaitCertificate
      else if t = SL_HS_CERTIFICATE \<and> s = kWaitCertificate then kWaitCertVerify
      else if t = SL_HS_CERT_VERIFY \<and> s = kWaitCertVerify then kWaitServerFinished
      else if t = SL_HS_FINISHED \<and> s = kWaitServerFinished then s else kFailed)"
| "client_next (HsFail r) s = kFailed"

definition server_flight :: "sl_hs_type_t set" where
  "server_flight = {SL_HS_SERVER_HELLO, SL_HS_CERTIFICATE, SL_HS_CERT_VERIFY}"

fun server_next :: "hs_event \<Rightarrow> HsState \<Rightarrow> HsState" where
  "server_next HsStart s = (if s = kInit then kWaitClientHello else kFailed)"
| "server_next (HsSent t) s =
     (if t \<in> server_flight \<and> s \<in> {kWaitClientHello, kWaitClientFinished} then kWaitClientFinished
      else if t = SL_HS_FINISHED \<and> s = kWaitClientFinished then s else kFailed)"
| "server_next (HsRecv t) s =
     (if t = SL_HS_CLIENT_HELLO \<and> s = kWaitClientHello then s
      else if t = SL_HS_FINISHED \<and> s = kWaitClientFinished then kDone else kFailed)"
| "server_next (HsFail r) s = kFailed"

lemmas hs_defs = hs_start_def hs_on_sent_def hs_on_received_def hs_fail_def hs_is_terminal_def Let_def

lemma hs_step_client:
  "hs_role h = kClient \<Longrightarrow> hs_role (hs_step e h) = kClient \<and> hs_state (hs_step e h) = client_next e (hs_state h)"
  by (cases e) (auto simp: hs_defs)

lemma hs_step_server:
  "hs_role h = kServer \<Longrightarrow> hs_role (hs_step e h) = kServer \<and> hs_state (hs_step e h) = server_next e (hs_state h)"
  by (cases e) (auto simp: hs_defs server_flight_def)

lemma hs_run_client: "hs_role h = kClient \<Longrightarrow> hs_state (fold hs_step evs h) = fold client_next evs (hs_state h)"
  by (induction evs arbitrary: h) (simp_all add: hs_step_client)

lemma hs_run_server: "hs_role h = kServer \<Longrightarrow> hs_state (fold hs_step evs h) = fold server_next evs (hs_state h)"
  by (induction evs arbitrary: h) (simp_all add: hs_step_server)

lemma client_failed [simp]: "fold client_next evs kFailed = kFailed"
proof (induction evs)
  case (Cons e evs)
  then show ?case by (cases e) simp_all
qed simp

lemma server_failed [simp]: "fold server_next evs kFailed = kFailed"
proof (induction evs)
  case (Cons e evs)
  then show ?case by (cases e) simp_all
qed simp

lemma client_done [simp]: "fold client_next evs kDone = kDone \<longleftrightarrow> evs = []"
proof (cases evs)
  case (Cons e es)
  then show ?thesis by (cases e) simp_all
qed simp

lemma server_done [simp]: "fold server_next evs kDone = kDone \<longleftrightarrow> evs = []"
proof (cases evs)
  case (Cons e es)
  then show ?thesis by (cases e) simp_all
qed simp

lemma star_Cons:
  "(\<exists>a ys. e # evs = replicate a x @ ys \<and> Q ys) \<longleftrightarrow> Q (e # evs) \<or> e = x \<and> (\<exists>a ys. evs = replicate a x @ ys \<and> Q ys)"
  (is "(\<exists>a. ?P a) \<longleftrightarrow> _")
proof -
  have "(\<exists>a. ?P a) \<longleftrightarrow> ?P 0 \<or> (\<exists>a. ?P (Suc a))" by (metis not0_implies_Suc)
  then show ?thesis by auto
qed

definition client_tail :: "hs_event list \<Rightarrow> bool" where
  "client_tail evs \<longleftrightarrow> (\<exists>b. evs = replicate b (HsRecv SL_HS_FINISHED) @ [HsSent SL_HS_FINISHED])"

lemma client_finish: "fold client_next evs kWaitServerFinished = kDone \<longleftrightarrow> client_tail evs"
proof (induction evs)
  case (Cons e evs)
  have "client_tail (e # evs) \<longleftrightarrow> e = HsSent SL_HS_FINISHED \<and> evs = [] \<or> e = HsRecv SL_HS_FINISHED \<and> client_tail evs"
    using star_Cons [of e evs "HsRecv SL_HS_FINISHED" "\<lambda>ys. ys = [HsSent SL_HS_FINISHED]"]
    by (auto simp: client_tail_def)
  with Cons.IH show ?case by (cases e) auto
qed (simp add: client_tail_def)

definition client_middle :: "hs_event list \<Rightarrow> bool" where
  "client_middle evs \<longleftrightarrow> (\<exists>ys. evs = [HsRecv SL_HS_SERVER_HELLO, HsRecv SL_HS_CERTIFICATE, HsRecv SL_HS_CERT_VERIFY] @ ys \<and> client_tail ys)"

lemma client_verify:
  "fold client_next evs kWaitCertVerify = kDone \<longleftrightarrow> (\<exists>ys. evs = HsRecv SL_HS_CERT_VERIFY # ys \<and> client_tail ys)"
proof (cases evs)
  case (Cons e es)
  then show ?thesis by (cases e) (auto simp: client_finish)
qed simp

lemma client_certificate:
  "fold client_next evs kWaitCertificate = kDone \<longleftrightarrow>
     (\<exists>ys. evs = [HsRecv SL_HS_CERTIFICATE, HsRecv SL_HS_CERT_VERIFY] @ ys \<and> client_tail ys)"
proof (cases evs)
  case (Cons e es)
  then show ?thesis by (cases e) (auto simp: client_verify)
qed simp

lemma client_hello:
  "fold client_next evs kWaitServerHello = kDone \<longleftrightarrow>
     (\<exists>a ys. evs = replicate a (HsSent SL_HS_CLIENT_HELLO) @ ys \<and> client_middle ys)"
proof (induction evs)
  case Nil
  then show ?case by (auto simp: client_middle_def)
next
  case (Cons e evs)
  have "client_middle (e # evs) \<longleftrightarrow> e = HsRecv SL_HS_SERVER_HELLO \<and> fold client_next evs kWaitCertificate = kDone"
    by (auto simp: client_middle_def client_certificate)
  with Cons.IH show ?case unfolding star_Cons by (cases e) auto
qed

lemma server_finish:
  "fold server_next evs kWaitClientFinished = kDone \<longleftrightarrow>
     (\<exists>ms. evs = map HsSent ms @ [HsRecv SL_HS_FINISHED] \<and> set ms \<subseteq> insert SL_HS_FINISHED server_flight)"
proof (induction evs)
  case (Cons e evs)
  have "(\<exists>ms. e # evs = map HsSent ms @ [HsRecv SL_HS_FINISHED] \<and> set ms \<subseteq> insert SL_HS_FINISHED server_flight) \<longleftrightarrow>
      e = HsRecv SL_HS_FINISHED \<and> evs = [] \<or>
      (\<exists>m \<in> insert SL_HS_FINISHED server_flight. e = HsSent m \<and>
        (\<exists>ms. evs = map HsSent ms @ [HsRecv SL_HS_FINISHED] \<and> set ms \<subseteq> insert SL_HS_FINISHED server_flight))"
    (is "(\<exists>ms. ?P ms) \<longleftrightarrow> ?R")
  proof -
    have "(\<exists>ms. ?P ms) \<longleftrightarrow> ?P [] \<or> (\<exists>m ms. ?P (m # ms))" by (metis list.exhaust)
    then show ?thesis by auto
  qed
  with Cons.IH show ?case by (cases e) auto
qed simp

lemma server_hello:
  "fold server_next evs kWaitClientHello = kDone \<longleftrightarrow>
     (\<exists>a ys. evs = replicate a (HsRecv SL_HS_CLIENT_HELLO) @ ys
        \<and> (\<exists>x \<in> server_flight. \<exists>zs. ys = HsSent x # zs \<and> fold server_next zs kWaitClientFinished = kDone))"
proof (induction evs)
  case (Cons e evs)
  then show ?case unfolding star_Cons by (cases e) auto
qed simp


text \<open>
  In particular a client that never saw a finished message of the server, and a server that never
  saw a hello of the client, reach the final state.
\<close>

lemma client_done_unconfirmed:
  "hs_state (fold hs_step [HsStart, HsSent SL_HS_CLIENT_HELLO, HsRecv SL_HS_SERVER_HELLO, HsRecv SL_HS_CERTIFICATE,
     HsRecv SL_HS_CERT_VERIFY, HsSent SL_HS_FINISHED] (hs_new kClient)) = kDone"
  by (simp add: hs_defs hs_new_def)

lemma server_done_unasked:
  "hs_state (fold hs_step [HsStart, HsSent SL_HS_SERVER_HELLO, HsRecv SL_HS_FINISHED] (hs_new kServer)) = kDone"
  by (simp add: hs_defs hs_new_def)

end
