(* ===== verification/SL_Asym.thy ===== *)
theory SL_Asym
  imports SL_Prelude
begin

text \<open>
  Key agreement (\<open>sl_ecdh.c\<close>) and signatures (\<open>sl_ed25519.c\<close>). OpenSSL's curve and signature
  operations are the fields of the parameter \<open>pk_api\<close>, together with which allocations and
  initialisations succeed; a key that a generation call returns is an argument of the function that
  makes the call. What the callers rely on is \<open>ecdh_law\<close> and \<open>ed25519_law\<close>.
\<close>

datatype pk_call = EC_KEY_new_by_curve_name | EC_KEY_get0_group | EC_KEY_get0_public_key
  | EC_GROUP_new_by_curve_name | EC_POINT_new | EVP_PKEY_CTX_new_id | EVP_PKEY_keygen_init
  | EVP_PKEY_new_raw_private_key | EVP_PKEY_new_raw_public_key | EVP_PKEY_get_raw_private_key
  | EVP_PKEY_get_raw_public_key | EVP_MD_CTX_new_pk | EVP_DigestSignInit | EVP_DigestSign
  | EVP_DigestVerifyInit | ECDH_compute_key

record ('k, 'p) pk_api =
  pk_ok :: "pk_call \<Rightarrow> bool"
  point2oct :: "'k \<Rightarrow> bytes"
  oct2point :: "bytes \<Rightarrow> 'p option"
  is_on_curve :: "'p \<Rightarrow> bool"
  is_at_infinity :: "'p \<Rightarrow> bool"
  ecdh_key :: "'k \<Rightarrow> 'p \<Rightarrow> bytes"
  ed_public :: "bytes \<Rightarrow> bytes"
  ed_sign :: "bytes \<Rightarrow> bytes \<Rightarrow> bytes"
  ed_verify :: "bytes \<Rightarrow> bytes \<Rightarrow> bytes \<Rightarrow> int"

definition pk_healthy :: "('k, 'p) pk_api \<Rightarrow> bool" where
  "pk_healthy A \<longleftrightarrow> (\<forall>c. pk_ok A c)"

definition ecdh_law :: "('k, 'p) pk_api \<Rightarrow> bool" where
  "ecdh_law A \<longleftrightarrow>
     (\<forall>k. length (point2oct A k) = 65 \<and> point2oct A k ! 0 = 4
        \<and> (\<exists>p. oct2point A (point2oct A k) = Some p \<and> is_on_curve A p \<and> \<not> is_at_infinity A p))
     \<and> (\<forall>a b p q. oct2point A (point2oct A a) = Some p \<longrightarrow> oct2point A (point2oct A b) = Some q \<longrightarrow>
          ecdh_key A a q = ecdh_key A b p \<and> length (ecdh_key A a q) = 32)"

definition ed25519_law :: "('k, 'p) pk_api \<Rightarrow> bool" where
  "ed25519_law A \<longleftrightarrow>
     (\<forall>k m. length (ed_public A k) = 32 \<and> length (ed_sign A k m) = 64 \<and> ed_verify A (ed_public A k) m (ed_sign A k m) = 1)"

subsection \<open>ECDH\<close>

abbreviation (input) SL_ECDH_SHARED_LEN :: nat where "SL_ECDH_SHARED_LEN \<equiv> 32"

record 'k sl_ecdh_keypair =
  kp_key :: "'k ptr"

definition sl_ecdh_keypair_new :: "('k, 'p) pk_api \<Rightarrow> bool \<Rightarrow> 'k option \<Rightarrow> 'k sl_ecdh_keypair ptr" where
  "sl_ecdh_keypair_new A calloc_ok generated =
     (if \<not> calloc_ok then NULL
      else if \<not> pk_ok A EC_KEY_new_by_curve_name then NULL
      else case generated of None \<Rightarrow> NULL | Some k \<Rightarrow> Some \<lparr>kp_key = Some k\<rparr>)"

text \<open>The structure is cleared before it is released.\<close>

definition sl_ecdh_keypair_free :: "'k sl_ecdh_keypair ptr \<Rightarrow> 'k sl_ecdh_keypair ptr" where
  "sl_ecdh_keypair_free kp = (case kp of None \<Rightarrow> NULL | Some _ \<Rightarrow> Some \<lparr>kp_key = NULL\<rparr>)"

definition sl_ecdh_export_pubkey :: "('k, 'p) pk_api \<Rightarrow> 'k sl_ecdh_keypair ptr \<Rightarrow> out_ref \<Rightarrow> bytes option" where
  "sl_ecdh_export_pubkey A kp out =
     (case (kp, out) of
        (Some k, Some _) \<Rightarrow>
          (case kp_key k of
             None \<Rightarrow> None
           | Some key \<Rightarrow>
               if \<not> pk_ok A EC_KEY_get0_group \<or> \<not> pk_ok A EC_KEY_get0_public_key then None
               else if length (point2oct A key) = 65 then Some (point2oct A key) else None)
      | _ \<Rightarrow> None)"

definition sl_ecdh_validate_pubkey :: "('k, 'p) pk_api \<Rightarrow> bytes ptr \<Rightarrow> int" where
  "sl_ecdh_validate_pubkey A pub =
     (case pub of
        None \<Rightarrow> - 1
      | Some p \<Rightarrow>
          if p ! 0 \<noteq> 4 then - 1
          else if \<not> pk_ok A EC_GROUP_new_by_curve_name then - 1
          else if \<not> pk_ok A EC_POINT_new then - 1
          else case oct2point A (take 65 p) of
                 None \<Rightarrow> - 1
               | Some q \<Rightarrow> if is_on_curve A q \<and> \<not> is_at_infinity A q then 0 else - 1)"

definition sl_ecdh_compute_shared ::
  "('k, 'p) pk_api \<Rightarrow> 'k sl_ecdh_keypair ptr \<Rightarrow> bytes ptr \<Rightarrow> out_ref \<Rightarrow> bytes option" where
  "sl_ecdh_compute_shared A kp peer_pub out =
     (case (kp, peer_pub, out) of
        (Some k, Some p, Some _) \<Rightarrow>
          (case kp_key k of
             None \<Rightarrow> None
           | Some key \<Rightarrow>
               if sl_ecdh_validate_pubkey A peer_pub \<noteq> 0 then None
               else if \<not> pk_ok A EC_POINT_new then None
               else case oct2point A (take 65 p) of
                      None \<Rightarrow> None
                    | Some q \<Rightarrow>
                        if \<not> pk_ok A ECDH_compute_key then None
                        else if length (ecdh_key A key q) = SL_ECDH_SHARED_LEN then Some (ecdh_key A key q) else None)
      | _ \<Rightarrow> None)"

subsection \<open>Ed25519\<close>

abbreviation (input) SL_ED25519_PUBKEY_LEN :: nat where "SL_ED25519_PUBKEY_LEN \<equiv> 32"
abbreviation (input) SL_ED25519_PRIVKEY_LEN :: nat where "SL_ED25519_PRIVKEY_LEN \<equiv> 32"
abbreviation (input) SL_ED25519_SIG_LEN :: nat where "SL_ED25519_SIG_LEN \<equiv> 64"

definition sl_ed25519_keypair_new ::
  "('k, 'p) pk_api \<Rightarrow> bytes option \<Rightarrow> out_ref \<Rightarrow> out_ref \<Rightarrow> (bytes \<times> bytes) option" where
  "sl_ed25519_keypair_new A generated priv pub =
     (if priv = NULL \<or> pub = NULL then None
      else if \<not> pk_ok A EVP_PKEY_CTX_new_id then None
      else if \<not> pk_ok A EVP_PKEY_keygen_init then None
      else case generated of
             None \<Rightarrow> None
           | Some k \<Rightarrow>
               if \<not> pk_ok A EVP_PKEY_get_raw_private_key then None
               else if length k \<noteq> SL_ED25519_PRIVKEY_LEN then None
               else if \<not> pk_ok A EVP_PKEY_get_raw_public_key then None
               else if length (ed_public A k) \<noteq> SL_ED25519_PUBKEY_LEN then None
               else Some (k, ed_public A k))"

definition sl_ed25519_derive_pub :: "('k, 'p) pk_api \<Rightarrow> bytes ptr \<Rightarrow> out_ref \<Rightarrow> bytes option" where
  "sl_ed25519_derive_pub A priv pub =
     (case (priv, pub) of
        (Some k, Some _) \<Rightarrow>
          if \<not> pk_ok A EVP_PKEY_new_raw_private_key then None
          else if pk_ok A EVP_PKEY_get_raw_public_key \<and> length (ed_public A (take 32 k)) = SL_ED25519_PUBKEY_LEN
          then Some (ed_public A (take 32 k)) else None
      | _ \<Rightarrow> None)"

definition sl_ed25519_sign ::
  "('k, 'p) pk_api \<Rightarrow> bytes ptr \<Rightarrow> bytes ptr \<Rightarrow> nat \<Rightarrow> out_ref \<Rightarrow> bytes option" where
  "sl_ed25519_sign A priv msg msg_len sig =
     (case (priv, sig) of
        (Some k, Some _) \<Rightarrow>
          if msg = NULL \<and> msg_len > 0 then None
          else if \<not> pk_ok A EVP_PKEY_new_raw_private_key then None
          else if \<not> pk_ok A EVP_MD_CTX_new_pk then None
          else if \<not> pk_ok A EVP_DigestSignInit then None
          else if \<not> pk_ok A EVP_DigestSign then None
          else let s = ed_sign A (take 32 k) (case msg of None \<Rightarrow> [] | Some m \<Rightarrow> take msg_len m)
               in if length s \<noteq> SL_ED25519_SIG_LEN then None else Some s
      | _ \<Rightarrow> None)"

definition sl_ed25519_verify :: "('k, 'p) pk_api \<Rightarrow> bytes ptr \<Rightarrow> bytes ptr \<Rightarrow> nat \<Rightarrow> bytes ptr \<Rightarrow> int" where
  "sl_ed25519_verify A pub msg msg_len sig =
     (case (pub, sig) of
        (Some p, Some s) \<Rightarrow>
          if msg = NULL \<and> msg_len > 0 then - 1
          else if \<not> pk_ok A EVP_PKEY_new_raw_public_key then - 1
          else if \<not> pk_ok A EVP_MD_CTX_new_pk then - 1
          else if \<not> pk_ok A EVP_DigestVerifyInit then - 1
          else if ed_verify A (take 32 p) (case msg of None \<Rightarrow> [] | Some m \<Rightarrow> take msg_len m) (take 64 s) = 1 then 0
          else - 1
      | _ \<Rightarrow> - 1)"

subsection \<open>Both sides agree\<close>

lemma sl_ecdh_validate_exported:
  assumes "ecdh_law A" "pk_healthy A"
  shows "sl_ecdh_validate_pubkey A (Some (point2oct A k)) = 0"
proof -
  obtain p where "oct2point A (point2oct A k) = Some p" "is_on_curve A p" "\<not> is_at_infinity A p"
      "length (point2oct A k) = 65" "point2oct A k ! 0 = 4"
    using assms(1) unfolding ecdh_law_def by blast
  with assms(2) show ?thesis by (simp add: sl_ecdh_validate_pubkey_def pk_healthy_def)
qed

lemma sl_ecdh_agree:
  assumes "ecdh_law A" "pk_healthy A"
  shows "\<exists>pa pb z. sl_ecdh_export_pubkey A (Some \<lparr>kp_key = Some a\<rparr>) OUT = Some pa
    \<and> sl_ecdh_export_pubkey A (Some \<lparr>kp_key = Some b\<rparr>) OUT = Some pb
    \<and> sl_ecdh_compute_shared A (Some \<lparr>kp_key = Some a\<rparr>) (Some pb) OUT = Some z
    \<and> sl_ecdh_compute_shared A (Some \<lparr>kp_key = Some b\<rparr>) (Some pa) OUT = Some z \<and> length z = 32"
proof -
  obtain p q where p: "oct2point A (point2oct A a) = Some p" and q: "oct2point A (point2oct A b) = Some q"
      and l: "length (point2oct A a) = 65" "length (point2oct A b) = 65"
    using assms(1) unfolding ecdh_law_def by blast
  with assms(1) have "ecdh_key A a q = ecdh_key A b p" "length (ecdh_key A a q) = 32"
    unfolding ecdh_law_def by blast+
  with p q l assms(2) sl_ecdh_validate_exported [OF assms] show ?thesis
    by (simp add: sl_ecdh_export_pubkey_def sl_ecdh_compute_shared_def pk_healthy_def)
qed

lemma sl_ed25519_sign_verify:
  assumes "ed25519_law A" "pk_healthy A" "length k = 32" "n \<le> length m"
  shows "\<exists>p s. sl_ed25519_derive_pub A (Some k) OUT = Some p \<and> sl_ed25519_sign A (Some k) (Some m) n OUT = Some s
    \<and> sl_ed25519_verify A (Some p) (Some m) n (Some s) = 0"
  using assms by (simp add: sl_ed25519_derive_pub_def sl_ed25519_sign_def sl_ed25519_verify_def ed25519_law_def pk_healthy_def Let_def)

end
