(* ===== verification/SL_Engine.thy ===== *)
theory SL_Engine
  imports SL_States SL_Keys SL_Asym SL_Rng
begin

text \<open>
  The handshake engine (\<open>handshake_engine.cpp\<close>): the message order, the transcript, the key
  agreement and the signature and finished checks, one message after the other as they arrive. The
  calls into OpenSSL are those of \<open>pk_api\<close> and \<open>hash_api\<close>. A local array that a failed call leaves
  unwritten is the field \<open>env_stack\<close>.
\<close>

record ('k, 'p) hs_env =
  env_pk :: "('k, 'p) pk_api"
  env_hash :: hash_api
  env_stack :: bytes

record HandshakeConfig =
  cfg_role :: HsRole
  cfg_identity_priv :: bytes
  cfg_identity_pub :: bytes
  cfg_expected_peer_pub :: bytes
  cfg_pin_peer_identity :: bool

datatype HsAction = kNeedMore | kSendBytes | kHandshakeDone_action | kError

record HsStepResult =
  action :: HsAction
  out_bytes :: bytes
  hs_error :: string

record 'k EngineImpl =
  im_cfg :: HandshakeConfig
  im_state :: HandshakeState
  im_ecdh :: "'k sl_ecdh_keypair ptr"
  im_transcript :: sl_transcript_t
  im_recv_buf :: bytes
  im_secret_ready :: bool
  im_secret :: sl_handshake_secret_t
  im_peer_ecdh_pub :: bytes
  im_peer_identity_pub :: bytes
  im_peer_identity_set :: bool

definition transcript_zero :: sl_transcript_t where
  "transcript_zero = \<lparr>tr_ctx = [], tr_bytes_absorbed = 0\<rparr>"

definition engine_new :: "('k, 'p) hs_env \<Rightarrow> bool \<Rightarrow> 'k option \<Rightarrow> HandshakeConfig \<Rightarrow> 'k EngineImpl" where
  "engine_new E calloc_ok generated cfg =
     \<lparr>im_cfg = cfg, im_state = hs_new (cfg_role cfg),
      im_ecdh = sl_ecdh_keypair_new (env_pk E) calloc_ok generated,
      im_transcript = the (snd (sl_transcript_init (env_hash E) (Some transcript_zero))),
      im_recv_buf = [], im_secret_ready = False, im_secret = handshake_secret_zero,
      im_peer_ecdh_pub = replicate 65 0, im_peer_identity_pub = replicate 32 0, im_peer_identity_set = False\<rparr>"

definition engine_session_keys :: "'k EngineImpl \<Rightarrow> sl_session_keys_t ptr" where
  "engine_session_keys I = (if im_secret_ready I then Some (hs_app_keys (im_secret I)) else NULL)"

text \<open>The destructor: the key pair is released, the secret and the identity key are cleared.\<close>

definition engine_delete :: "'k EngineImpl \<Rightarrow> 'k EngineImpl" where
  "engine_delete I =
     I\<lparr>im_ecdh := sl_ecdh_keypair_free (im_ecdh I),
       im_secret := the (sl_handshake_secret_clear (Some (im_secret I))),
       im_cfg := (im_cfg I)\<lparr>cfg_identity_priv := replicate (length (cfg_identity_priv (im_cfg I))) 0\<rparr>\<rparr>"

definition engine_err :: "string \<Rightarrow> HsStepResult" where
  "engine_err msg = \<lparr>action = kError, out_bytes = [], hs_error = msg\<rparr>"

definition absorb :: "('k, 'p) hs_env \<Rightarrow> bytes \<Rightarrow> 'k EngineImpl \<Rightarrow> 'k EngineImpl" where
  "absorb E d I = I\<lparr>im_transcript := the (snd (sl_transcript_update (env_hash E) (Some (im_transcript I)) (Some d) (length d)))\<rparr>"

definition transcript_hash :: "('k, 'p) hs_env \<Rightarrow> 'k EngineImpl \<Rightarrow> bytes" where
  "transcript_hash E I =
     (case sl_transcript_get (env_hash E) (Some (im_transcript I)) OUT of None \<Rightarrow> env_stack E | Some h \<Rightarrow> h)"

definition emit_message ::
  "('k, 'p) hs_env \<Rightarrow> sl_hs_type_t \<Rightarrow> bytes \<Rightarrow> 'k EngineImpl \<Rightarrow> HsStepResult \<times> 'k EngineImpl" where
  "emit_message E type body I =
     (case sl_hs_pack_header OUT type (of_nat (length body)) of
        None \<Rightarrow> (engine_err ''pack_header'', I)
      | Some hdr \<Rightarrow>
          let I1 = absorb E body (absorb E hdr I);
              (sent, st) = hs_on_sent type (im_state I1);
              I2 = I1\<lparr>im_state := st\<rparr>
          in if \<not> sent then (engine_err ''fsm_send_rejected'', I2)
             else (\<lparr>action = kSendBytes, out_bytes = hdr @ body, hs_error = ''''\<rparr>, I2))"

definition need_more :: HsStepResult where
  "need_more = \<lparr>action = kNeedMore, out_bytes = [], hs_error = ''''\<rparr>"

definition engine_start ::
  "('k, 'p) hs_env \<Rightarrow> 'g rand_bytes \<Rightarrow> 'g \<Rightarrow> 'k EngineImpl \<Rightarrow> HsStepResult \<times> 'k EngineImpl" where
  "engine_start E R g I =
     (if im_ecdh I = NULL then (engine_err ''ecdh_init_failed'', I)
      else
        let (ok, st) = hs_start (im_state I); I1 = I\<lparr>im_state := st\<rparr> in
        if \<not> ok then (engine_err ''fsm_start_failed'', I1)
        else if cfg_role (im_cfg I1) = kServer then (need_more, I1)
        else
          (case sl_rng_bytes R g (Some SL_HS_RANDOM_LEN) of
             (None, _) \<Rightarrow> (engine_err ''rng'', I1)
           | (Some rnd, _) \<Rightarrow>
               (case sl_ecdh_export_pubkey (env_pk E) (im_ecdh I1) OUT of
                  None \<Rightarrow> (engine_err ''ecdh_export'', I1)
                | Some pub \<Rightarrow>
                    (case sl_hs_pack_hello (Some \<lparr>hello_random = rnd, hello_ecdh_pub = pub, hello_cipher = 1\<rparr>)
                            (Some SL_HS_HELLO_BODY_LEN) of
                       None \<Rightarrow> (engine_err ''pack_hello'', I1)
                     | Some body \<Rightarrow> emit_message E SL_HS_CLIENT_HELLO body I1))))"

text \<open>The body of the cases of \<open>process_one_message\<close>: the error or the new state.\<close>

definition recv_hello :: "('k, 'p) hs_env \<Rightarrow> bytes \<Rightarrow> 'k EngineImpl \<Rightarrow> string + 'k EngineImpl" where
  "recv_hello E body I =
     (case sl_hs_unpack_hello (Some body) OUT of
        None \<Rightarrow> Inl ''bad_hello''
      | Some h \<Rightarrow>
          if hello_cipher h \<noteq> 1 then Inl ''bad_cipher''
          else if sl_ecdh_validate_pubkey (env_pk E) (Some (hello_ecdh_pub h)) \<noteq> 0 then Inl ''bad_peer_ecdh''
          else Inr (I\<lparr>im_peer_ecdh_pub := take 65 (hello_ecdh_pub h)\<rparr>))"

definition recv_certificate :: "bytes \<Rightarrow> 'k EngineImpl \<Rightarrow> string \<times> 'k EngineImpl + 'k EngineImpl" where
  "recv_certificate body I =
     (if length body \<noteq> SL_ED25519_PUBKEY_LEN then Inl (''bad_cert'', I)
      else
        let I1 = I\<lparr>im_peer_identity_pub := body, im_peer_identity_set := True\<rparr> in
        if cfg_pin_peer_identity (im_cfg I1) \<and> im_peer_identity_pub I1 \<noteq> cfg_expected_peer_pub (im_cfg I1)
        then Inl (''peer_identity_pin_mismatch'', I1)
        else Inr I1)"

definition recv_cert_verify :: "('k, 'p) hs_env \<Rightarrow> bytes \<Rightarrow> 'k EngineImpl \<Rightarrow> string + 'k EngineImpl" where
  "recv_cert_verify E body I =
     (if length body \<noteq> SL_ED25519_SIG_LEN then Inl ''bad_certverify''
      else if \<not> im_peer_identity_set I then Inl ''certverify_without_cert''
      else if sl_ed25519_verify (env_pk E) (Some (im_peer_identity_pub I)) (Some (transcript_hash E I)) 32 (Some body) \<noteq> 0
      then Inl ''certverify_signature_fail''
      else Inr I)"

definition derive_secret :: "('k, 'p) hs_env \<Rightarrow> 'k EngineImpl \<Rightarrow> string \<times> 'k EngineImpl + 'k EngineImpl" where
  "derive_secret E I =
     (if im_secret_ready I then Inr I
      else
        (case sl_ecdh_compute_shared (env_pk E) (im_ecdh I) (Some (im_peer_ecdh_pub I)) OUT of
           None \<Rightarrow> Inl (''ecdh_compute'', I)
         | Some shared \<Rightarrow>
             (case sl_handshake_secret_derive (env_hash E) (Some shared) 32 (Some (transcript_hash E I)) (Some (im_secret I)) of
                (rc, s) \<Rightarrow>
                  let I1 = I\<lparr>im_secret := the s\<rparr> in
                  if rc \<noteq> 0 then Inl (''secret_derive'', I1)
                  else Inr (I1\<lparr>im_secret_ready := True\<rparr>))))"

definition recv_finished :: "('k, 'p) hs_env \<Rightarrow> bytes \<Rightarrow> 'k EngineImpl \<Rightarrow> string \<times> 'k EngineImpl + 'k EngineImpl" where
  "recv_finished E body I =
     (if length body \<noteq> 32 then Inl (''bad_finished'', I)
      else
        (case derive_secret E I of
           Inl x \<Rightarrow> Inl x
         | Inr I1 \<Rightarrow>
             let key = (if cfg_role (im_cfg I1) = kClient then hs_server_finished_key (im_secret I1)
                        else hs_client_finished_key (im_secret I1))
             in if sl_finished_verify (env_hash E) (Some key) (Some (transcript_hash E I1)) body \<noteq> 0
                then Inl (''finished_mac_fail'', I1)
                else Inr I1))"

definition process_one_message ::
  "('k, 'p) hs_env \<Rightarrow> sl_hs_type_t \<Rightarrow> bytes \<Rightarrow> 'k EngineImpl \<Rightarrow> string option \<times> 'k EngineImpl" where
  "process_one_message E type body I0 =
     (let hdr = (case sl_hs_pack_header OUT type (of_nat (length body)) of None \<Rightarrow> take 4 (env_stack E) | Some h \<Rightarrow> h);
          I1 = absorb E body (absorb E hdr I0);
          (ok, st) = hs_on_received type (im_state I1);
          I = I1\<lparr>im_state := st\<rparr>
      in if \<not> ok then (Some ''fsm_recv_rejected'', I)
         else if type = SL_HS_CLIENT_HELLO \<or> type = SL_HS_SERVER_HELLO then
           (case recv_hello E body I of Inl e \<Rightarrow> (Some e, I) | Inr I' \<Rightarrow> (None, I'))
         else if type = SL_HS_CERTIFICATE then
           (case recv_certificate body I of Inl (e, I') \<Rightarrow> (Some e, I') | Inr I' \<Rightarrow> (None, I'))
         else if type = SL_HS_CERT_VERIFY then
           (case recv_cert_verify E body I of Inl e \<Rightarrow> (Some e, I) | Inr I' \<Rightarrow> (None, I'))
         else if type = SL_HS_FINISHED then
           (case recv_finished E body I of Inl (e, I') \<Rightarrow> (Some e, I') | Inr I' \<Rightarrow> (None, I'))
         else (Some ''unknown_msg_type'', I))"

definition with_buf :: "bytes \<Rightarrow> 'k EngineImpl \<Rightarrow> 'k EngineImpl" where
  "with_buf b I = I\<lparr>im_recv_buf := b\<rparr>"

text \<open>The loop of \<open>on_bytes\<close>; the buffer is an argument and written back at the end.\<close>

function engine_loop :: "('k, 'p) hs_env \<Rightarrow> bytes \<Rightarrow> 'k EngineImpl \<Rightarrow> string option \<times> 'k EngineImpl" where
  "engine_loop E buf I =
     (if length buf \<ge> SL_HS_HEADER_LEN then
        (case sl_hs_unpack_header (Some buf) OUT OUT of
           (rc, h) \<Rightarrow>
             if rc \<noteq> 0 then (Some ''bad_header'', with_buf buf I)
             else
               let type = fst (the h); blen = unat (snd (the h)) in
               if length buf < SL_HS_HEADER_LEN + blen then (None, with_buf buf I)
               else
                 let (e, I1) = process_one_message E type (take blen (drop SL_HS_HEADER_LEN buf)) I;
                     buf1 = drop (SL_HS_HEADER_LEN + blen) buf
                 in if e \<noteq> None then (e, with_buf buf1 I1) else engine_loop E buf1 I1)
      else (None, with_buf buf I))"
  by pat_completeness auto

termination
  by (relation "measure (\<lambda>(E, buf, I). length buf)") auto

declare engine_loop.simps [simp del]

definition engine_on_bytes ::
  "('k, 'p) hs_env \<Rightarrow> bytes ptr \<Rightarrow> 'k EngineImpl \<Rightarrow> HsStepResult \<times> 'k EngineImpl" where
  "engine_on_bytes E data I =
     (let buf = (case data of None \<Rightarrow> im_recv_buf I | Some d \<Rightarrow> im_recv_buf I @ d);
          (e, I1) = engine_loop E buf I
      in case e of
           Some msg \<Rightarrow> (engine_err msg, I1)
         | None \<Rightarrow> (need_more\<lparr>action := (if hs_state (im_state I1) = kDone then kHandshakeDone_action else kNeedMore)\<rparr>, I1))"

subsection \<open>Fragmentation\<close>

lemma with_buf_with_buf [simp]: "with_buf x (with_buf y I) = with_buf x I"
  by (simp add: with_buf_def)

lemma absorb_with_buf [simp]: "absorb E d (with_buf x I) = with_buf x (absorb E d I)"
  by (simp add: absorb_def with_buf_def)

lemma with_buf_fields: "im_cfg (with_buf x I) = im_cfg I" "im_secret (with_buf x I) = im_secret I"
  "im_state (with_buf x I) = im_state I" "im_recv_buf (with_buf x I) = x"
  by (simp_all add: with_buf_def)

lemma recv_with_buf:
  "recv_hello E body (with_buf x I) = map_sum id (with_buf x) (recv_hello E body I)"
  "recv_certificate body (with_buf x I) = map_sum (map_prod id (with_buf x)) (with_buf x) (recv_certificate body I)"
  "recv_cert_verify E body (with_buf x I) = map_sum id (with_buf x) (recv_cert_verify E body I)"
  "recv_finished E body (with_buf x I) = map_sum (map_prod id (with_buf x)) (with_buf x) (recv_finished E body I)"
proof -
  have th: "transcript_hash E (with_buf x J) = transcript_hash E J" for J by (simp add: transcript_hash_def with_buf_def)
  show "recv_hello E body (with_buf x I) = map_sum id (with_buf x) (recv_hello E body I)"
    by (simp add: recv_hello_def with_buf_def split: option.split)
  show "recv_certificate body (with_buf x I) = map_sum (map_prod id (with_buf x)) (with_buf x) (recv_certificate body I)"
    by (simp add: recv_certificate_def with_buf_def Let_def)
  show "recv_cert_verify E body (with_buf x I) = map_sum id (with_buf x) (recv_cert_verify E body I)"
    unfolding recv_cert_verify_def th by (simp add: with_buf_def)
  have d: "derive_secret E (with_buf x I) = map_sum (map_prod id (with_buf x)) (with_buf x) (derive_secret E I)"
    unfolding derive_secret_def th by (simp add: with_buf_def Let_def split: option.split prod.split)
  show "recv_finished E body (with_buf x I) = map_sum (map_prod id (with_buf x)) (with_buf x) (recv_finished E body I)"
    by (cases "derive_secret E I") (simp_all add: recv_finished_def d th Let_def with_buf_fields)
qed

lemma process_with_buf:
  "process_one_message E t body (with_buf x I) = map_prod id (with_buf x) (process_one_message E t body I)"
proof -
  have s: "(with_buf x J)\<lparr>im_state := st\<rparr> = with_buf x (J\<lparr>im_state := st\<rparr>)" "im_state (with_buf x J) = im_state J" for J st
    by (simp_all add: with_buf_def)
  show ?thesis
    unfolding process_one_message_def absorb_with_buf s recv_with_buf Let_def
    by (simp split: prod.split sum.split)
qed

lemma engine_loop_with_buf: "engine_loop E buf (with_buf x I) = engine_loop E buf I"
proof (induction "length buf" arbitrary: buf I rule: less_induct)
  case less
  have IH: "4 \<le> length buf \<Longrightarrow> engine_loop E (drop (4 + n) buf) (with_buf x J) = engine_loop E (drop (4 + n) buf) J" for n J
    by (rule less) simp
  show ?case
    by (subst (1 2) engine_loop.simps) (simp add: process_with_buf IH Let_def split: prod.split)
qed

text \<open>One turn of the loop.\<close>

definition msg_len :: "bytes \<Rightarrow> nat" where
  "msg_len buf = unat (snd (the (snd (sl_hs_unpack_header (Some buf) OUT OUT))))"

definition header_ok :: "bytes \<Rightarrow> bool" where
  "header_ok buf \<longleftrightarrow> fst (sl_hs_unpack_header (Some buf) OUT OUT) = 0"

definition msg_type :: "bytes \<Rightarrow> int" where
  "msg_type buf = fst (the (snd (sl_hs_unpack_header (Some buf) OUT OUT)))"

lemma header_append:
  assumes "4 \<le> length a"
  shows "header_ok (a @ b) = header_ok a" "msg_len (a @ b) = msg_len a" "msg_type (a @ b) = msg_type a"
proof -
  from assms have "a \<noteq> []" by auto
  with assms have "sl_hs_unpack_header (Some (a @ b)) OUT OUT = sl_hs_unpack_header (Some a) OUT OUT"
    by (simp add: sl_hs_unpack_header_def nth_append Let_def)
  then show "header_ok (a @ b) = header_ok a" "msg_len (a @ b) = msg_len a" "msg_type (a @ b) = msg_type a"
    by (simp_all add: header_ok_def msg_len_def msg_type_def)
qed

lemma engine_loop_turn:
  "engine_loop E buf I =
     (if length buf < 4 then (None, with_buf buf I)
      else if \<not> header_ok buf then (Some ''bad_header'', with_buf buf I)
      else if length buf < 4 + msg_len buf then (None, with_buf buf I)
      else case process_one_message E (msg_type buf) (take (msg_len buf) (drop 4 buf)) I of
        (None, I1) \<Rightarrow> engine_loop E (drop (4 + msg_len buf) buf) I1
      | (Some m, I1) \<Rightarrow> (Some m, with_buf (drop (4 + msg_len buf) buf) I1))"
  by (subst engine_loop.simps)
    (auto simp: header_ok_def msg_len_def msg_type_def Let_def split: prod.split option.split)

lemma engine_loop_append:
  "engine_loop E a I = (e, I1) \<Longrightarrow>
     (case e of
        None \<Rightarrow> engine_loop E (a @ b) I = engine_loop E (im_recv_buf I1 @ b) I1
      | Some m \<Rightarrow> engine_loop E (a @ b) I = (Some m, with_buf (im_recv_buf I1 @ b) I1))"
proof (induction "length a" arbitrary: a I rule: less_induct)
  case less
  show ?case
  proof (cases "4 \<le> length a \<and> header_ok a \<and> 4 + msg_len a \<le> length a")
    case True
    obtain e1 J where p: "process_one_message E (msg_type a) (take (msg_len a) (drop 4 a)) I = (e1, J)" by fastforce
    let ?a = "drop (4 + msg_len a) a"
    have l: "engine_loop E (a @ c) I = (if e1 \<noteq> None then (e1, with_buf (?a @ c) J) else engine_loop E (?a @ c) J)" for c
      using True p by (subst engine_loop_turn) (auto simp: header_append split: option.split)
    show ?thesis
    proof (cases e1)
      case None
      with l [of "[]"] less.prems have "engine_loop E ?a J = (e, I1)" by simp
      moreover from True have "length ?a < length a" by auto
      ultimately show ?thesis using less.hyps [of ?a J] None l [of b] by (cases e) simp_all
    next
      case (Some m)
      with l [of "[]"] l [of b] less.prems show ?thesis by (auto simp: with_buf_fields with_buf_with_buf)
    qed
  next
    case False
    show ?thesis
    proof (cases "4 \<le> length a \<and> \<not> header_ok a")
      case True
      then have "engine_loop E (a @ c) I = (Some ''bad_header'', with_buf (a @ c) I)" for c
        by (subst engine_loop_turn) (simp add: header_append)
      from this [of "[]"] this [of b] less.prems show ?thesis
        by (auto simp: with_buf_fields with_buf_with_buf)
    next
      case bad: False
      then have "engine_loop E a I = (None, with_buf a I)"
        using False by (subst engine_loop_turn) auto
      with less.prems show ?thesis by (auto simp: with_buf_fields engine_loop_with_buf)
    qed
  qed
qed

text \<open>
  C18. Fragmentation does not matter to the handshake: bytes that arrive in two pieces leave the
  engine in the same state and give the same result as when they arrive together, and an error in
  the first piece is the error of the whole.
\<close>

theorem engine_fragmentation:
  "let (r1, I1) = engine_on_bytes E (Some a) I in
   if action r1 = kError then fst (engine_on_bytes E (Some (a @ b)) I) = r1
   else engine_on_bytes E (Some (a @ b)) I = engine_on_bytes E (Some b) I1"
proof -
  obtain e J where l: "engine_loop E (im_recv_buf I @ a) I = (e, J)" by fastforce
  from engine_loop_append [OF l, of b] l show ?thesis
    by (cases e) (simp_all add: engine_on_bytes_def Let_def engine_err_def need_more_def split: prod.split)
qed

subsection \<open>What an accepted handshake has checked\<close>

text \<open>The transcript is the exact sequence of bytes sent and received.\<close>

abbreviation (input) absorbed :: "'k EngineImpl \<Rightarrow> bytes" where
  "absorbed I \<equiv> tr_ctx (im_transcript I)"

lemma absorb_healthy:
  assumes "hash_healthy (env_hash E)"
  shows "absorbed (absorb E d I) = absorbed I @ d"
  using assms by (simp add: absorb_def sl_transcript_update_def hash_healthy_def mem_take_def)

lemma absorb_rest:
  "im_cfg (absorb E d I) = im_cfg I" "im_state (absorb E d I) = im_state I" "im_ecdh (absorb E d I) = im_ecdh I"
  "im_recv_buf (absorb E d I) = im_recv_buf I" "im_secret_ready (absorb E d I) = im_secret_ready I"
  "im_secret (absorb E d I) = im_secret I" "im_peer_ecdh_pub (absorb E d I) = im_peer_ecdh_pub I"
  "im_peer_identity_pub (absorb E d I) = im_peer_identity_pub I" "im_peer_identity_set (absorb E d I) = im_peer_identity_set I"
  by (simp_all add: absorb_def)

lemma transcript_hash_healthy:
  "hash_healthy (env_hash E) \<Longrightarrow> transcript_hash E I = sha256 (env_hash E) (absorbed I)"
  by (simp add: transcript_hash_def sl_transcript_get_def hash_healthy_def)

lemma repack_len:
  fixes a b c :: u8
  shows "pack_u32 (push_bit 16 (ucast a) OR push_bit 8 (ucast b) OR ucast c) = [0, a, b, c]"
  using pack_unpack_u32 [of 0 a b c "[]"] by (simp add: unpack_u32_def or.assoc)

lemma header_repacked:
  assumes "4 \<le> length buf" "header_ok buf" "length body = msg_len buf"
  shows "sl_hs_pack_header OUT (msg_type buf) (of_nat (length body)) = Some (take 4 buf)"
proof -
  let ?n = "push_bit 16 (ucast (buf ! 1)) OR push_bit 8 (ucast (buf ! 2)) OR ucast (buf ! 3) :: u32"
  have n: "of_nat (length body) = ?n" "msg_type buf = uint (buf ! 0)" "unat ?n \<le> SL_HS_MAX_PAYLOAD"
    using assms(2,3) by (auto simp: msg_len_def msg_type_def header_ok_def sl_hs_unpack_header_def Let_def split: if_splits)
  have "take 4 buf = [buf ! 0, buf ! 1, buf ! 2, buf ! 3]"
    using assms(1) by (simp add: list_eq_iff_nth_eq nth_Cons' less_Suc_eq numeral_eq_Suc)
  moreover have "?n \<le> 0xFFFFFF" using n(3) by (simp add: word_le_nat_alt)
  ultimately show ?thesis
    using repack_len [of "buf ! 1" "buf ! 2" "buf ! 3"] n
    by (simp add: sl_hs_pack_header_def pack_u32_def low_byte not_less)
qed

definition pinned :: "'k EngineImpl \<Rightarrow> bool" where
  "pinned I \<longleftrightarrow> im_peer_identity_set I
     \<and> (cfg_pin_peer_identity (im_cfg I) \<longrightarrow> im_peer_identity_pub I = cfg_expected_peer_pub (im_cfg I))"

definition signed_at :: "('k, 'p) hs_env \<Rightarrow> nat \<Rightarrow> 'k EngineImpl \<Rightarrow> bool" where
  "signed_at E i I \<longleftrightarrow> i \<le> length (absorbed I)
     \<and> (\<exists>sig. sl_ed25519_verify (env_pk E) (Some (im_peer_identity_pub I))
            (Some (sha256 (env_hash E) (take i (absorbed I)))) 32 (Some sig) = 0)"

definition keyed_at :: "('k, 'p) hs_env \<Rightarrow> nat \<Rightarrow> 'k EngineImpl \<Rightarrow> bool" where
  "keyed_at E j I \<longleftrightarrow> j \<le> length (absorbed I)
     \<and> (\<exists>z mac. sl_ecdh_compute_shared (env_pk E) (im_ecdh I) (Some (im_peer_ecdh_pub I)) OUT = Some z
        \<and> sl_handshake_secret_derive (env_hash E) (Some z) 32 (Some (sha256 (env_hash E) (take j (absorbed I))))
            (Some handshake_secret_zero) = (0, Some (im_secret I))
        \<and> sl_finished_verify (env_hash E) (Some (hs_server_finished_key (im_secret I)))
            (Some (sha256 (env_hash E) (take j (absorbed I)))) mac = 0)"

definition client_inv :: "('k, 'p) hs_env \<Rightarrow> HandshakeConfig \<Rightarrow> 'k EngineImpl \<Rightarrow> bool" where
  "client_inv E cfg I \<longleftrightarrow> im_cfg I = cfg \<and> cfg_role cfg = kClient \<and> hs_role (im_state I) = kClient
     \<and> (let s = hs_state (im_state I) in
          s \<in> {kWaitServerHello, kWaitCertificate, kWaitCertVerify, kWaitServerFinished}
        \<and> (s \<in> {kWaitCertVerify, kWaitServerFinished} \<longrightarrow> pinned I)
        \<and> (s = kWaitServerFinished \<longrightarrow> (\<exists>i. signed_at E i I))
        \<and> (im_secret_ready I \<longrightarrow> s = kWaitServerFinished \<and> (\<exists>j. keyed_at E j I)))"

lemma client_inv_not_done: "client_inv E cfg I \<Longrightarrow> hs_state (im_state I) \<noteq> kDone"
  by (auto simp: client_inv_def Let_def)

lemma derive_any_out:
  "sl_handshake_secret_derive H z n t (Some o1) = sl_handshake_secret_derive H z n t (Some o2)
   \<or> fst (sl_handshake_secret_derive H z n t (Some o1)) \<noteq> 0"
  by (auto simp: sl_handshake_secret_derive_def Let_def split: option.splits)

lemma signed_at_mono:
  assumes "signed_at E i I" "absorbed J = absorbed I @ d" "im_peer_identity_pub J = im_peer_identity_pub I"
  shows "signed_at E i J"
  using assms by (auto simp: signed_at_def)

lemma keyed_at_mono:
  assumes "keyed_at E i I" "absorbed J = absorbed I @ d" "im_peer_ecdh_pub J = im_peer_ecdh_pub I"
    "im_ecdh J = im_ecdh I" "im_secret J = im_secret I"
  shows "keyed_at E i J"
  using assms by (auto simp: keyed_at_def)

lemma client_recv_accepted:
  assumes "hs_role h = kClient" "fst (hs_on_received t h)"
  shows "(t, hs_state h, hs_state (snd (hs_on_received t h))) \<in>
     {(SL_HS_SERVER_HELLO, kWaitServerHello, kWaitCertificate), (SL_HS_CERTIFICATE, kWaitCertificate, kWaitCertVerify),
      (SL_HS_CERT_VERIFY, kWaitCertVerify, kWaitServerFinished), (SL_HS_FINISHED, kWaitServerFinished, kWaitServerFinished)}
     \<and> hs_role (snd (hs_on_received t h)) = kClient"
  using assms by (auto simp: hs_defs split: if_splits)

lemma recv_finished_client:
  assumes "hash_healthy (env_hash E)" "cfg_role (im_cfg I) = kClient" "recv_finished E body I = Inr J"
    "im_secret_ready I \<Longrightarrow> \<exists>j. keyed_at E j I"
  shows "(\<exists>j. keyed_at E j J) \<and> im_transcript J = im_transcript I \<and> im_state J = im_state I \<and> im_cfg J = im_cfg I
    \<and> im_peer_identity_pub J = im_peer_identity_pub I \<and> im_peer_identity_set J = im_peer_identity_set I"
proof -
  from assms(3) obtain d: "derive_secret E I = Inr J"
    and f: "cfg_role (im_cfg J) = kClient \<Longrightarrow>
      sl_finished_verify (env_hash E) (Some (hs_server_finished_key (im_secret J))) (Some (transcript_hash E J)) body = 0"
    by (auto simp: recv_finished_def Let_def split: if_splits sum.splits)
  show ?thesis
  proof (cases "im_secret_ready I")
    case True
    with d assms(4) show ?thesis by (auto simp: derive_secret_def)
  next
    case False
    with d obtain z s where z: "sl_ecdh_compute_shared (env_pk E) (im_ecdh I) (Some (im_peer_ecdh_pub I)) OUT = Some z"
        and s: "sl_handshake_secret_derive (env_hash E) (Some z) 32 (Some (transcript_hash E I)) (Some (im_secret I)) = (0, s)"
        and J: "J = I\<lparr>im_secret := the s, im_secret_ready := True\<rparr>"
      by (auto simp: derive_secret_def Let_def split: option.splits prod.splits if_splits)
    from s obtain s' where "s = Some s'"
      by (auto simp: sl_handshake_secret_derive_def Let_def split: option.splits prod.splits if_splits)
    with derive_any_out [of "env_hash E" "Some z" 32 "Some (transcript_hash E I)" "im_secret I" handshake_secret_zero] z s f J assms(1,2)
    have "keyed_at E (length (absorbed J)) J"
      by (auto simp: keyed_at_def transcript_hash_healthy)
    with J show ?thesis by auto
  qed
qed

text \<open>The state in which the handler of a message runs: the message is absorbed and counted.\<close>

definition taken :: "('k, 'p) hs_env \<Rightarrow> sl_hs_type_t \<Rightarrow> bytes \<Rightarrow> bytes \<Rightarrow> 'k EngineImpl \<Rightarrow> 'k EngineImpl" where
  "taken E type hdr body I = (absorb E body (absorb E hdr I))\<lparr>im_state := snd (hs_on_received type (im_state I))\<rparr>"

lemma taken_fields:
  "hash_healthy (env_hash E) \<Longrightarrow> absorbed (taken E t hdr body I) = absorbed I @ (hdr @ body)"
  "im_cfg (taken E t hdr body I) = im_cfg I" "im_ecdh (taken E t hdr body I) = im_ecdh I"
  "im_secret_ready (taken E t hdr body I) = im_secret_ready I" "im_secret (taken E t hdr body I) = im_secret I"
  "im_peer_ecdh_pub (taken E t hdr body I) = im_peer_ecdh_pub I"
  "im_peer_identity_pub (taken E t hdr body I) = im_peer_identity_pub I"
  "im_peer_identity_set (taken E t hdr body I) = im_peer_identity_set I"
  "im_state (taken E t hdr body I) = snd (hs_on_received t (im_state I))"
  by (simp_all add: taken_def absorb_healthy absorb_rest)

lemma process_taken:
  assumes "process_one_message E t body I = (None, J)" "sl_hs_pack_header OUT t (of_nat (length body)) = Some hdr"
  defines "K \<equiv> taken E t hdr body I"
  shows "fst (hs_on_received t (im_state I))"
    and "t = SL_HS_SERVER_HELLO \<Longrightarrow> recv_hello E body K = Inr J"
    and "t = SL_HS_CERTIFICATE \<Longrightarrow> recv_certificate body K = Inr J"
    and "t = SL_HS_CERT_VERIFY \<Longrightarrow> recv_cert_verify E body K = Inr J"
    and "t = SL_HS_FINISHED \<Longrightarrow> recv_finished E body K = Inr J"
proof -
  obtain ok st where st: "hs_on_received t (im_state I) = (ok, st)" by fastforce
  note * = assms(1) [unfolded process_one_message_def assms(2) absorb_rest st Let_def option.case prod.case]
  then show "fst (hs_on_received t (im_state I))" using st by (auto split: if_splits)
  with st have K: "K = (absorb E body (absorb E hdr I))\<lparr>im_state := st\<rparr>" by (simp add: K_def taken_def)
  from * show "t = SL_HS_SERVER_HELLO \<Longrightarrow> recv_hello E body K = Inr J"
    "t = SL_HS_CERTIFICATE \<Longrightarrow> recv_certificate body K = Inr J"
    "t = SL_HS_CERT_VERIFY \<Longrightarrow> recv_cert_verify E body K = Inr J"
    "t = SL_HS_FINISHED \<Longrightarrow> recv_finished E body K = Inr J"
    unfolding K by (auto split: if_splits sum.splits prod.splits)
qed

lemma process_client:
  assumes H: "hash_healthy (env_hash E)" and inv: "client_inv E cfg I"
    and p: "process_one_message E t body I = (None, J)"
    and h: "sl_hs_pack_header OUT t (of_nat (length body)) = Some hdr"
  shows "client_inv E cfg J \<and> absorbed J = absorbed I @ (hdr @ body)"
proof -
  define K where "K = taken E t hdr body I"
  note K = taken_fields(1) [OF H, of t hdr body I, folded K_def] taken_fields(2-) [of E t hdr body I, folded K_def]
  note step = process_taken [OF p h, folded K_def]
  have r: "(t, hs_state (im_state I), hs_state (im_state K)) \<in>
     {(SL_HS_SERVER_HELLO, kWaitServerHello, kWaitCertificate), (SL_HS_CERTIFICATE, kWaitCertificate, kWaitCertVerify),
      (SL_HS_CERT_VERIFY, kWaitCertVerify, kWaitServerFinished), (SL_HS_FINISHED, kWaitServerFinished, kWaitServerFinished)}
     \<and> hs_role (im_state K) = kClient"
    using client_recv_accepted [OF _ step(1)] inv unfolding K(9) client_inv_def by simp
  then consider (hello) "t = SL_HS_SERVER_HELLO" | (cert) "t = SL_HS_CERTIFICATE"
    | (verify) "t = SL_HS_CERT_VERIFY" | (fin) "t = SL_HS_FINISHED" by auto
  then show ?thesis
  proof cases
    case hello
    with step(2) r K inv show ?thesis
      by (auto simp: recv_hello_def client_inv_def Let_def split: option.splits if_splits)
  next
    case cert
    with step(3) r K inv show ?thesis
      by (auto simp: recv_certificate_def client_inv_def pinned_def Let_def split: if_splits)
  next
    case verify
    with step(4) have J: "J = K" and v: "sl_ed25519_verify (env_pk E) (Some (im_peer_identity_pub K))
        (Some (transcript_hash E K)) 32 (Some body) = 0"
      by (auto simp: recv_cert_verify_def split: if_splits)
    from v have "signed_at E (length (absorbed K)) K" by (auto simp: signed_at_def transcript_hash_healthy [OF H])
    with J verify r K inv show ?thesis by (auto simp: client_inv_def pinned_def Let_def)
  next
    case fin
    with r inv obtain i where "signed_at E i I" by (auto simp: client_inv_def Let_def)
    then have s: "signed_at E i K" by (rule signed_at_mono [OF _ K(1,7)])
    have "\<exists>j. keyed_at E j K" if "im_secret_ready K"
      using that inv keyed_at_mono [OF _ K(1,6,3,5)] unfolding K(4) client_inv_def Let_def by blast
    from recv_finished_client [OF H _ step(5) [OF fin] this] inv K
    have J: "(\<exists>j. keyed_at E j J)" "im_transcript J = im_transcript K" "im_state J = im_state K" "im_cfg J = im_cfg K"
      "im_peer_identity_pub J = im_peer_identity_pub K" "im_peer_identity_set J = im_peer_identity_set K"
      by (auto simp: client_inv_def)
    have "signed_at E i J" using s J by (auto simp: signed_at_def)
    with J fin r K inv show ?thesis by (auto simp: client_inv_def pinned_def Let_def)
  qed
qed

lemma engine_loop_client:
  assumes H: "hash_healthy (env_hash E)"
  shows "client_inv E cfg I \<Longrightarrow> engine_loop E buf I = (None, J) \<Longrightarrow>
    client_inv E cfg J \<and> absorbed J @ im_recv_buf J = absorbed I @ buf"
proof (induction "length buf" arbitrary: buf I rule: less_induct)
  case less
  show ?case
  proof (cases "4 \<le> length buf \<and> header_ok buf \<and> 4 + msg_len buf \<le> length buf")
    case True
    define body where "body = take (msg_len buf) (drop 4 buf)"
    from True have h: "sl_hs_pack_header OUT (msg_type buf) (of_nat (length body)) = Some (take 4 buf)"
      by (intro header_repacked) (auto simp: body_def)
    obtain e K where p: "process_one_message E (msg_type buf) body I = (e, K)" by fastforce
    with True less.prems(2) have e: "e = None" and l: "engine_loop E (drop (4 + msg_len buf) buf) K = (None, J)"
      by (auto simp: engine_loop_turn [of E buf] body_def split: option.splits)
    note K = process_client [OF H less.prems(1) p [unfolded e] h]
    from True have "length (drop (4 + msg_len buf) buf) < length buf" by auto
    from less.hyps [OF this _ l] K have "client_inv E cfg J"
      "absorbed J @ im_recv_buf J = absorbed I @ take 4 buf @ body @ drop (4 + msg_len buf) buf" by auto
    moreover have "take 4 buf @ body @ drop (4 + msg_len buf) buf = buf"
      unfolding body_def by (metis add.commute append_take_drop_id drop_drop)
    ultimately show ?thesis by simp
  next
    case False
    with less.prems show ?thesis
      by (auto simp: engine_loop_turn [of E buf] client_inv_def with_buf_def pinned_def signed_at_def keyed_at_def
          split: if_splits)
  qed
qed

lemma emit_message_healthy:
  assumes "hash_healthy (env_hash E)" "emit_message E t body I = (r, J)" "action r = kSendBytes"
  shows "absorbed J = absorbed I @ out_bytes r \<and> im_state J = snd (hs_on_sent t (im_state I)) \<and> fst (hs_on_sent t (im_state I))
    \<and> im_cfg J = im_cfg I \<and> im_recv_buf J = im_recv_buf I \<and> im_secret_ready J = im_secret_ready I"
  using assms
  by (auto simp: emit_message_def engine_err_def absorb_healthy absorb_rest Let_def split: option.splits prod.splits if_splits)

lemma engine_start_client:
  assumes H: "hash_healthy (env_hash E)" and "cfg_role cfg = kClient"
    "engine_start E R g (engine_new E c k cfg) = (r, I)" "action r = kSendBytes"
  shows "client_inv E cfg I \<and> absorbed I = out_bytes r \<and> im_recv_buf I = [] \<and> im_cfg I = cfg"
proof -
  let ?I = "engine_new E c k cfg" let ?J = "?I\<lparr>im_state := snd (hs_start (im_state ?I))\<rparr>"
  from assms(2-) obtain body where e: "emit_message E SL_HS_CLIENT_HELLO body ?J = (r, I)"
    by (auto simp: engine_start_def engine_err_def engine_new_def need_more_def Let_def
        split: if_splits option.splits prod.splits)
  have J: "absorbed ?J = []" "im_recv_buf ?J = []" "im_cfg ?J = cfg" "\<not> im_secret_ready ?J"
      "hs_role (im_state ?J) = kClient" "hs_state (im_state ?J) = kWaitServerHello"
    using assms(2) H by (simp_all add: engine_new_def hs_start_def hs_new_def sl_transcript_init_def transcript_zero_def hash_healthy_def)
  note e = emit_message_healthy [OF H e assms(4)]
  from e J(5,6) have "hs_role (im_state I) = kClient" "hs_state (im_state I) = kWaitServerHello"
    by (auto simp: hs_on_sent_def hs_is_terminal_def Let_def)
  with e J assms(2) show ?thesis by (auto simp: client_inv_def Let_def)
qed


text \<open>An exchange with a small hash and signature scheme in place of OpenSSL's.\<close>

definition toy_pk :: "(unit, unit) pk_api" where
  "toy_pk = \<lparr>pk_ok = (\<lambda>_. True), point2oct = (\<lambda>_. 4 # replicate 64 0), oct2point = (\<lambda>_. Some ()),
     is_on_curve = (\<lambda>_. True), is_at_infinity = (\<lambda>_. False), ecdh_key = (\<lambda>_ _. replicate 32 7),
     ed_public = (\<lambda>_. replicate 32 8), ed_sign = (\<lambda>_ _. replicate 64 9),
     ed_verify = (\<lambda>p m s. if p = replicate 32 8 \<and> s = replicate 64 9 then 1 else 0)\<rparr>"

definition toy_env :: "(unit, unit) hs_env" where
  "toy_env = \<lparr>env_pk = toy_pk, env_hash = toy_hash, env_stack = []\<rparr>"

definition toy_cfg :: HandshakeConfig where
  "toy_cfg = \<lparr>cfg_role = kClient, cfg_identity_priv = [], cfg_identity_pub = [],
     cfg_expected_peer_pub = replicate 32 8, cfg_pin_peer_identity = True\<rparr>"

definition toy_rand :: "unit rand_bytes" where
  "toy_rand g n = (Some (replicate n 5), g)"

definition toy_start :: "HsStepResult \<times> unit EngineImpl" where
  "toy_start = engine_start toy_env toy_rand () (engine_new toy_env True (Some ()) toy_cfg)"

definition toy_hello :: "u8 \<Rightarrow> bytes" where
  "toy_hello r = replicate 32 r @ 4 # replicate 64 0 @ [0, 1]"

text \<open>The flight of the server up to its Finished message with the MAC \<open>m\<close>.\<close>

definition toy_flight :: "u8 \<Rightarrow> bytes" where
  "toy_flight m = [2, 0, 0, 99] @ toy_hello 6 @ [3, 0, 0, 32] @ replicate 32 8
     @ [4, 0, 0, 64] @ replicate 64 9 @ [5, 0, 0, 32] @ replicate 32 m"

lemmas toy_defs = toy_env_def toy_cfg_def toy_pk_def

lemma toy_hash_simps:
  "hash_ok toy_hash c i" "sha256 toy_hash (x # xs) = replicate 32 x" "hmac_sha256 toy_hash k m = replicate 32 (hd k + hd (m @ [0]))"
  by (simp_all add: toy_hash_def)

lemma toy_rng: "sl_rng_bytes toy_rand () (Some 32) = (Some (replicate 32 5), ())"
  by (simp add: sl_rng_bytes_def rng_bytes_loop.simps [of _ _ 0] rng_bytes_loop.simps [of _ _ "numeral _"] toy_rand_def)

lemma toy_start_eq:
  "toy_start = (\<lparr>action = kSendBytes, out_bytes = [1, 0, 0, 99] @ toy_hello 5, hs_error = []\<rparr>,
     \<lparr>im_cfg = toy_cfg, im_state = \<lparr>hs_role = kClient, hs_state = kWaitServerHello, hs_sent = 1, hs_recv = 0, hs_failure_reason = []\<rparr>,
      im_ecdh = Some \<lparr>kp_key = Some ()\<rparr>,
      im_transcript = \<lparr>tr_ctx = [1, 0, 0, 99] @ toy_hello 5, tr_bytes_absorbed = 103\<rparr>,
      im_recv_buf = [], im_secret_ready = False, im_secret = handshake_secret_zero,
      im_peer_ecdh_pub = replicate 65 0, im_peer_identity_pub = replicate 32 0, im_peer_identity_set = False\<rparr>)"
  by (simp add: toy_start_def toy_defs toy_hash_simps engine_start_def engine_new_def toy_rng toy_hello_def
      sl_ecdh_keypair_new_def sl_transcript_init_def hs_new_def hs_start_def sl_ecdh_export_pubkey_def
      sl_hs_pack_hello_def emit_message_def sl_hs_pack_header_def absorb_def sl_transcript_update_def mem_take_def
      hs_on_sent_def hs_is_terminal_def transcript_zero_def Let_def)

lemma toy_expand:
  "0 < n \<Longrightarrow> n \<le> 32 \<Longrightarrow> hkdf_label toy_hash ikm 32 salt sl (x # label) n =
     Some (replicate n (hd (if salt = NULL \<or> sl = 0 then [0] else mem_take salt sl) + hd (mem_take (Some ikm) 32 @ [0]) + of_char x))"
  by (simp add: hkdf_label_def sl_hkdf_sha256_def sl_hkdf_extract_sha256_def sl_hkdf_expand_sha256_def toy_hash_simps Let_def
      mem_take_def c_str_def hkdf_expand_loop.simps [of _ _ _ _ 0] hkdf_expand_loop.simps [of _ _ _ n n]
      hkdf_expand_loop.simps [of _ _ _ 32 32])

definition toy_secret :: sl_handshake_secret_t where
  "toy_secret = \<lparr>hs_master = replicate 32 123, hs_client_finished_key = replicate 32 238,
     hs_server_finished_key = replicate 32 238, hs_app_keys = \<lparr>client_key = replicate 32 239, client_iv = replicate 12 239,
     server_key = replicate 32 239, server_iv = replicate 12 239\<rparr>\<rparr>"

lemma toy_derive:
  "sl_handshake_secret_derive toy_hash (Some (replicate 32 7)) 32 (Some (replicate 32 1)) (Some s) = (0, Some toy_secret)"
  by (simp add: sl_handshake_secret_derive_def sl_session_keys_derive_def toy_expand toy_secret_def mem_take_def Let_def)

lemma toy_finished:
  "sl_finished_verify toy_hash (Some (hs_server_finished_key toy_secret)) (Some (replicate 32 1)) (replicate 32 m)
   = (if m = 239 then 0 else - 1)"
  by (auto simp: sl_finished_verify_def sl_finished_compute_def toy_hash_simps toy_secret_def Let_def sl_ct_equal_full)

lemmas toy_turn = engine_loop_turn [of _ "_ # _"] engine_loop_turn [of _ "[]"]

lemma toy_header:
  "header_ok (t # 0 # 0 # n # bs) \<longleftrightarrow> True" "msg_len (t # 0 # 0 # n # bs) = unat n" "msg_type (t # 0 # 0 # n # bs) = uint t"
proof -
  have "unat n < 256" using unsigned_less [where 'a = nat, of n] by simp
  then show "header_ok (t # 0 # 0 # n # bs) \<longleftrightarrow> True" "msg_len (t # 0 # 0 # n # bs) = unat n" "msg_type (t # 0 # 0 # n # bs) = uint t"
    by (simp_all add: header_ok_def msg_len_def msg_type_def sl_hs_unpack_header_def Let_def)
qed

lemma toy_flight_run:
  "\<exists>J. engine_loop toy_env (toy_flight m) (snd toy_start) = (if m = 239 then None else Some ''finished_mac_fail'', J)
     \<and> engine_session_keys J = Some (hs_app_keys toy_secret)"
  unfolding toy_flight_def toy_hello_def toy_start_eq snd_conv
  apply (simp add: toy_turn toy_header process_one_message_def absorb_def sl_transcript_update_def mem_take_def
    hs_on_received_def hs_is_terminal_def Let_def recv_hello_def sl_hs_unpack_hello_def sl_ecdh_validate_pubkey_def nth_append
    sl_hs_pack_header_def toy_defs toy_hash_simps recv_certificate_def recv_cert_verify_def sl_ed25519_verify_def
    transcript_hash_def sl_transcript_get_def recv_finished_def derive_secret_def sl_ecdh_compute_shared_def toy_derive toy_finished
    with_buf_def engine_session_keys_def)
  done


text \<open>
  A client never gets past the server's Finished message: nothing in the engine sends its own, so
  no input makes \<open>on_bytes\<close> report the end of the handshake.
\<close>

lemma client_never_done:
  assumes "hash_healthy (env_hash E)" "client_inv E cfg I"
  shows "action (fst (engine_on_bytes E data I)) \<noteq> kHandshakeDone_action"
proof -
  obtain e J where l: "engine_loop E (case data of None \<Rightarrow> im_recv_buf I | Some d \<Rightarrow> im_recv_buf I @ d) I = (e, J)"
    by fastforce
  show ?thesis
  proof (cases e)
    case None
    then have "hs_state (im_state J) \<noteq> kDone"
      using engine_loop_client [OF assms l [unfolded None]] by (intro client_inv_not_done) blast
    with None l show ?thesis by (simp add: engine_on_bytes_def)
  next
    case (Some m)
    with l show ?thesis by (simp add: engine_on_bytes_def engine_err_def)
  qed
qed

text \<open>The keys of a handshake whose Finished MAC was refused are handed out all the same.\<close>

lemma keys_after_refused_finished:
  "\<exists>J. engine_on_bytes toy_env (Some (toy_flight 0)) (snd toy_start) = (engine_err ''finished_mac_fail'', J)
     \<and> engine_session_keys J = Some (hs_app_keys toy_secret)"
proof -
  obtain J where "engine_loop toy_env (toy_flight 0) (snd toy_start) = (Some ''finished_mac_fail'', J)"
      "engine_session_keys J = Some (hs_app_keys toy_secret)"
    using toy_flight_run [of 0] by auto
  moreover have "im_recv_buf (snd toy_start) = []" by (simp add: toy_start_eq)
  ultimately show ?thesis by (simp add: engine_on_bytes_def)
qed

end
