(* ===== verification/SL_Replay.thy ===== *)
theory SL_Replay
  imports SL_Interfaces
begin

text \<open>
  The sliding-window replay guard (\<open>replay_guard.hpp\<close>). The bitmap has \<open>kWords\<close> words, the template
  parameter divided by 64; position \<open>p\<close> of the window is bit \<open>p mod 64\<close> of word \<open>p div 64\<close> and stands
  for the sequence number \<open>highest - p\<close>. The descending loops that move the window are recursions on
  the index.
\<close>

record ReplayGuard =
  rg_bitmap :: "u64 list"
  rg_highest :: u64
  rg_accepted :: u64
  rg_rejected_replay :: u64
  rg_rejected_too_old :: u64

definition rg_new :: "nat \<Rightarrow> ReplayGuard" where
  "rg_new kWords = \<lparr>rg_bitmap = replicate kWords 0, rg_highest = 0, rg_accepted = 0,
     rg_rejected_replay = 0, rg_rejected_too_old = 0\<rparr>"

definition kWindow :: "ReplayGuard \<Rightarrow> nat" where
  "kWindow g = 64 * length (rg_bitmap g)"

fun shift_words :: "nat \<Rightarrow> nat \<Rightarrow> u64 list \<Rightarrow> u64 list" where
  "shift_words word_shift 0 bm = bm"
| "shift_words word_shift (Suc i) bm =
     shift_words word_shift i (bm[i := (if word_shift \<le> i then bm ! (i - word_shift) else 0)])"

fun shift_bits :: "nat \<Rightarrow> nat \<Rightarrow> u64 list \<Rightarrow> u64 list" where
  "shift_bits bit_shift 0 bm = bm"
| "shift_bits bit_shift (Suc i) bm =
     shift_bits bit_shift i
       (bm[i := push_bit bit_shift (bm ! i) OR (if i > 0 then drop_bit (64 - bit_shift) (bm ! (i - 1)) else 0)])"

definition advance_to :: "u64 \<Rightarrow> ReplayGuard \<Rightarrow> ReplayGuard" where
  "advance_to new_high g =
     (let shift = unat (new_high - rg_highest g); kWords = length (rg_bitmap g) in
      if shift \<ge> kWindow g then g\<lparr>rg_bitmap := replicate kWords 0\<rparr>
      else
        let word_shift = shift div 64; bit_shift = shift mod 64;
            bm1 = (if word_shift > 0 then shift_words word_shift kWords (rg_bitmap g) else rg_bitmap g);
            bm2 = (if bit_shift > 0 then shift_bits bit_shift kWords bm1 else bm1)
        in g\<lparr>rg_bitmap := bm2\<rparr>)"

definition index_of :: "ReplayGuard \<Rightarrow> u64 \<Rightarrow> nat" where
  "index_of g seq =
     (let pos = (if rg_highest g \<ge> seq then rg_highest g - seq else of_nat (kWindow g) - 1)
      in unat (ucast (pos AND (of_nat (kWindow g) - 1)) :: u32))"

definition rg_test_bit :: "ReplayGuard \<Rightarrow> u64 \<Rightarrow> bool" where
  "rg_test_bit g seq =
     (let idx = index_of g seq in drop_bit (idx mod 64) (rg_bitmap g ! (idx div 64)) AND 1 \<noteq> 0)"

definition rg_set_bit :: "u64 \<Rightarrow> ReplayGuard \<Rightarrow> ReplayGuard" where
  "rg_set_bit seq g =
     (let idx = index_of g seq; w = idx div 64
      in g\<lparr>rg_bitmap := (rg_bitmap g)[w := rg_bitmap g ! w OR push_bit (idx mod 64) 1]\<rparr>)"

definition check_and_update :: "u64 \<Rightarrow> ReplayGuard \<Rightarrow> bool \<times> ReplayGuard" where
  "check_and_update seq g =
     (if seq = 0 then (False, g)
      else if seq > rg_highest g then
        let g1 = rg_set_bit seq ((advance_to seq g)\<lparr>rg_highest := seq\<rparr>)
        in (True, g1\<lparr>rg_accepted := rg_accepted g1 + 1\<rparr>)
      else if unat (rg_highest g - seq) \<ge> kWindow g then
        (False, g\<lparr>rg_rejected_too_old := rg_rejected_too_old g + 1\<rparr>)
      else if rg_test_bit g seq then
        (False, g\<lparr>rg_rejected_replay := rg_rejected_replay g + 1\<rparr>)
      else
        let g1 = rg_set_bit seq g in (True, g1\<lparr>rg_accepted := rg_accepted g1 + 1\<rparr>))"

definition would_accept :: "ReplayGuard \<Rightarrow> u64 \<Rightarrow> bool" where
  "would_accept g seq =
     (if seq = 0 then False
      else if seq > rg_highest g then True
      else if unat (rg_highest g - seq) \<ge> kWindow g then False
      else \<not> rg_test_bit g seq)"

definition rg_reset :: "ReplayGuard \<Rightarrow> ReplayGuard" where
  "rg_reset g = g\<lparr>rg_bitmap := replicate (length (rg_bitmap g)) 0, rg_highest := 0, rg_accepted := 0,
     rg_rejected_replay := 0, rg_rejected_too_old := 0\<rparr>"

subsection \<open>The window as a set of positions\<close>

definition wbit :: "u64 list \<Rightarrow> nat \<Rightarrow> bool" where
  "wbit bm p = bit (bm ! (p div 64)) (p mod 64)"

lemma length_shift_words [simp]: "length (shift_words w n bm) = length bm"
  by (induction w n bm rule: shift_words.induct) simp_all

lemma length_shift_bits [simp]: "length (shift_bits b n bm) = length bm"
  by (induction b n bm rule: shift_bits.induct) simp_all

lemma nth_shift_words:
  "n \<le> length bm \<Longrightarrow> j < length bm \<Longrightarrow>
   shift_words w n bm ! j = (if j < n then if w \<le> j then bm ! (j - w) else 0 else bm ! j)"
  by (induction w n bm rule: shift_words.induct) (auto simp: nth_list_update less_Suc_eq)

lemma nth_shift_bits:
  "n \<le> length bm \<Longrightarrow> j < length bm \<Longrightarrow>
   shift_bits b n bm ! j =
     (if j < n then push_bit b (bm ! j) OR (if j > 0 then drop_bit (64 - b) (bm ! (j - 1)) else 0) else bm ! j)"
  by (induction b n bm rule: shift_bits.induct) (auto simp: nth_list_update less_Suc_eq)

lemma wbit_split: "r < 64 \<Longrightarrow> wbit bm (64 * q + r) = bit (bm ! q) r"
  by (simp add: wbit_def)

lemma window_pos:
  fixes p :: nat
  obtains q r where "p = 64 * q + r" "r < 64"
  by (metis mod_less_divisor mult_div_mod_eq zero_less_numeral)

lemma wbit_shift_words:
  assumes "p < 64 * length bm"
  shows "wbit (shift_words w (length bm) bm) p \<longleftrightarrow> 64 * w \<le> p \<and> wbit bm (p - 64 * w)"
proof -
  obtain q r where p: "p = 64 * q + r" "r < 64" by (rule window_pos)
  with assms have q: "q < length bm" by auto
  show ?thesis
  proof (cases "w \<le> q")
    case True
    then have "p - 64 * w = 64 * (q - w) + r" "64 * w \<le> p" using p by auto
    with p q True show ?thesis by (simp add: wbit_split nth_shift_words)
  next
    case False
    with p q show ?thesis by (simp add: wbit_split nth_shift_words)
  qed
qed

lemma wbit_shift_bits:
  assumes "p < 64 * length bm" "0 < b" "b < 64"
  shows "wbit (shift_bits b (length bm) bm) p \<longleftrightarrow> b \<le> p \<and> wbit bm (p - b)"
proof -
  obtain q r where p: "p = 64 * q + r" "r < 64" by (rule window_pos)
  with assms have q: "q < length bm" by auto
  have w: "wbit (shift_bits b (length bm) bm) p \<longleftrightarrow>
      b \<le> r \<and> bit (bm ! q) (r - b) \<or> 0 < q \<and> bit (bm ! (q - 1)) (64 - b + r)"
    using p q by (auto simp: wbit_split nth_shift_bits bit_or_iff bit_push_bit_iff bit_drop_bit_eq)
  show ?thesis
  proof (cases "b \<le> r")
    case True
    then have "p - b = 64 * q + (r - b)" "64 \<le> 64 - b + r" using p assms by auto
    moreover have "\<not> bit (bm ! (q - 1)) (64 - b + r)"
      using calculation(2) by (simp add: impossible_bit)
    ultimately show ?thesis using w p True wbit_split [of "r - b" bm q] by simp
  next
    case False
    show ?thesis
    proof (cases q)
      case 0
      with False p w show ?thesis by simp
    next
      case (Suc k)
      with False p assms have "p - b = 64 * k + (64 - b + r)" "64 - b + r < 64" by auto
      with Suc False p(1) w assms(3) show ?thesis using wbit_split [of "64 - b + r" bm k] by simp
    qed
  qed
qed

lemma wbit_advance:
  assumes "p < kWindow g" "rg_highest g \<le> h"
  shows "wbit (rg_bitmap (advance_to h g)) p \<longleftrightarrow>
    unat h - unat (rg_highest g) \<le> p \<and> wbit (rg_bitmap g) (p - (unat h - unat (rg_highest g)))"
proof -
  define d where "d = unat h - unat (rg_highest g)"
  have d: "unat (h - rg_highest g) = d" using assms(2) by (simp add: d_def unat_sub)
  have p: "p < 64 * length (rg_bitmap g)" using assms(1) by (simp add: kWindow_def)
  show ?thesis
  proof (cases "kWindow g \<le> d")
    case True
    with assms(1) p d show ?thesis by (simp add: advance_to_def wbit_def flip: d_def)
  next
    case False
    define a c where "a = d div 64" and "c = d mod 64"
    define bm where "bm = (if a > 0 then shift_words a (length (rg_bitmap g)) (rg_bitmap g) else rg_bitmap g)"
    have l: "length bm = length (rg_bitmap g)" by (simp add: bm_def)
    have bm: "wbit bm x \<longleftrightarrow> 64 * a \<le> x \<and> wbit (rg_bitmap g) (x - 64 * a)" if "x \<le> p" for x
      using that p wbit_shift_words [of x "rg_bitmap g" a] by (simp add: bm_def)
    have adv: "rg_bitmap (advance_to h g) = (if c > 0 then shift_bits c (length bm) bm else bm)"
      using False d by (simp add: advance_to_def Let_def bm_def a_def c_def)
    have "c < 64" by (simp add: c_def)
    with p have "wbit (rg_bitmap (advance_to h g)) p \<longleftrightarrow> c \<le> p \<and> wbit bm (p - c)"
      using wbit_shift_bits [of p bm c] by (simp add: adv l)
    also have "\<dots> \<longleftrightarrow> 64 * a + c \<le> p \<and> wbit (rg_bitmap g) (p - (64 * a + c))"
      using bm [of "p - c"] by (auto simp: add.commute)
    also have "64 * a + c = d" by (simp add: a_def c_def)
    finally show ?thesis by (simp add: d_def)
  qed
qed

text \<open>The window size is a power of two that fits the \<open>uint32_t\<close> of the template parameter.\<close>

definition window_ok :: "ReplayGuard \<Rightarrow> bool" where
  "window_ok g \<longleftrightarrow> (\<exists>n < 32. kWindow g = 2 ^ n)"

lemma index_of_inside:
  assumes "window_ok g" "seq \<le> rg_highest g" "unat (rg_highest g) - unat seq < kWindow g"
  shows "index_of g seq = unat (rg_highest g) - unat seq"
proof -
  obtain n where n: "n < 32" "kWindow g = 2 ^ n" using assms(1) by (auto simp: window_ok_def)
  let ?d = "rg_highest g - seq"
  have d: "unat ?d = unat (rg_highest g) - unat seq" using assms(2) by (simp add: unat_sub)
  have "(2 :: nat) ^ n \<le> 2 ^ 31" using n(1) by (intro power_increasing) auto
  then have lt: "unat ?d < 2 ^ n" "unat ?d < 2 ^ 32" using assms(3) n d by auto
  have "?d AND (of_nat (kWindow g) - 1) = take_bit n ?d"
    by (simp add: n(2) take_bit_eq_mask mask_eq_exp_minus_1)
  also have "\<dots> = ?d" using lt(1) by (simp add: word_unat_eq_iff unsigned_take_bit_eq take_bit_nat_eq_self)
  finally have "index_of g seq = unat (ucast ?d :: u32)" using assms(2) by (simp add: index_of_def Let_def)
  also have "\<dots> = unat ?d" using lt(2) by (simp add: unat_u32_of_u64)
  finally show ?thesis by (simp add: d)
qed

lemma rg_test_bit_inside:
  assumes "window_ok g" "seq \<le> rg_highest g" "unat (rg_highest g) - unat seq < kWindow g"
  shows "rg_test_bit g seq = wbit (rg_bitmap g) (unat (rg_highest g) - unat seq)"
  by (simp add: rg_test_bit_def index_of_inside [OF assms] wbit_def Let_def and_one_eq bit_iff_odd_drop_bit odd_iff_mod_2_eq_one)

lemma wbit_set_bit:
  assumes "window_ok g" "seq \<le> rg_highest g" "unat (rg_highest g) - unat seq < kWindow g" "p < kWindow g"
  shows "wbit (rg_bitmap (rg_set_bit seq g)) p \<longleftrightarrow> p = unat (rg_highest g) - unat seq \<or> wbit (rg_bitmap g) p"
proof -
  let ?i = "unat (rg_highest g) - unat seq"
  have "?i div 64 < length (rg_bitmap g)" "p div 64 < length (rg_bitmap g)" using assms(3,4) by (auto simp: kWindow_def)
  moreover have "p = ?i \<longleftrightarrow> p div 64 = ?i div 64 \<and> p mod 64 = ?i mod 64" by (metis mult_div_mod_eq)
  ultimately show ?thesis
    by (auto simp: rg_set_bit_def index_of_inside [OF assms(1-3)] wbit_def Let_def nth_list_update bit_or_iff bit_exp_iff)
qed

subsection \<open>What the guard accepts\<close>

text \<open>\<open>S\<close> is the set of sequence numbers accepted so far.\<close>

definition rg_ok :: "u64 set \<Rightarrow> ReplayGuard \<Rightarrow> bool" where
  "rg_ok S g \<longleftrightarrow> window_ok g \<and> 0 \<notin> S \<and> (\<forall>s \<in> S. s \<le> rg_highest g) \<and> (rg_highest g = 0 \<or> rg_highest g \<in> S)
     \<and> (\<forall>p < kWindow g. wbit (rg_bitmap g) p \<longleftrightarrow> (\<exists>s \<in> S. unat s + p = unat (rg_highest g)))"

definition fresh :: "nat \<Rightarrow> u64 set \<Rightarrow> u64 \<Rightarrow> bool" where
  "fresh window S seq \<longleftrightarrow> seq \<noteq> 0 \<and> seq \<notin> S \<and> (\<forall>s \<in> S. unat s < unat seq + window)"

lemma kWindow_simps [simp]:
  "kWindow (advance_to h g) = kWindow g" "kWindow (rg_set_bit s g) = kWindow g"
  "kWindow (g\<lparr>rg_highest := h\<rparr>) = kWindow g" "kWindow (g\<lparr>rg_accepted := n\<rparr>) = kWindow g"
  by (simp_all add: kWindow_def advance_to_def rg_set_bit_def Let_def)

lemma rg_fields [simp]:
  "rg_highest (advance_to h g) = rg_highest g" "rg_highest (rg_set_bit s g) = rg_highest g"
  by (simp_all add: advance_to_def rg_set_bit_def Let_def)

lemma window_pos': "window_ok g \<Longrightarrow> 0 < kWindow g"
  by (auto simp: window_ok_def)

lemma rg_advance_ok:
  assumes "rg_ok S g" "rg_highest g < seq"
  shows "rg_ok (insert seq S) (rg_set_bit seq ((advance_to seq g)\<lparr>rg_highest := seq\<rparr>))" (is "rg_ok _ ?g2")
proof -
  let ?g1 = "(advance_to seq g)\<lparr>rg_highest := seq\<rparr>"
  have w: "window_ok ?g1" "window_ok ?g2" using assms(1) by (simp_all add: rg_ok_def window_ok_def)
  have lt: "unat (rg_highest g) < unat seq" using assms(2) by (simp add: word_less_nat_alt)
  have "wbit (rg_bitmap ?g2) p \<longleftrightarrow> (\<exists>s \<in> insert seq S. unat s + p = unat seq)" if "p < kWindow g" for p
  proof -
    have "wbit (rg_bitmap ?g2) p \<longleftrightarrow> p = 0 \<or> wbit (rg_bitmap (advance_to seq g)) p"
      using wbit_set_bit [OF w(1), of seq p] that window_pos' [OF w(1)] by simp
    also have "\<dots> \<longleftrightarrow> p = 0 \<or> (\<exists>s \<in> S. unat s + p = unat seq)"
    proof -
      let ?d = "unat seq - unat (rg_highest g)"
      have le: "\<forall>s \<in> S. unat s \<le> unat (rg_highest g)" using assms(1) by (auto simp: rg_ok_def word_le_nat_alt)
      have "wbit (rg_bitmap (advance_to seq g)) p \<longleftrightarrow> ?d \<le> p \<and> wbit (rg_bitmap g) (p - ?d)"
        using wbit_advance [OF that, of seq] assms(2) by simp
      also have "wbit (rg_bitmap g) (p - ?d) \<longleftrightarrow> (\<exists>s \<in> S. unat s + (p - ?d) = unat (rg_highest g))"
        using assms(1) that by (simp add: rg_ok_def)
      also have "?d \<le> p \<and> (\<exists>s \<in> S. unat s + (p - ?d) = unat (rg_highest g)) \<longleftrightarrow> (\<exists>s \<in> S. unat s + p = unat seq)"
      proof -
        have "?d \<le> p \<and> unat s + (p - ?d) = unat (rg_highest g) \<longleftrightarrow> unat s + p = unat seq" if "s \<in> S" for s
          using bspec [OF le that] lt by linarith
        then show ?thesis by blast
      qed
      finally show ?thesis by simp
    qed
    finally show ?thesis by auto
  qed
  moreover have "\<forall>s \<in> S. s \<le> seq" "seq \<noteq> 0" "0 \<notin> S"
    using assms by (auto simp: rg_ok_def)
  ultimately show ?thesis using w by (auto simp: rg_ok_def)
qed

lemma rg_inside_ok:
  assumes "rg_ok S g" "seq \<noteq> 0" "seq \<le> rg_highest g" "unat (rg_highest g) - unat seq < kWindow g"
  shows "rg_test_bit g seq \<longleftrightarrow> seq \<in> S" and "rg_ok (insert seq S) (rg_set_bit seq g)"
proof -
  have w: "window_ok g" using assms(1) by (simp add: rg_ok_def)
  have le: "unat seq \<le> unat (rg_highest g)" using assms(3) by (simp add: word_le_nat_alt)
  have "rg_test_bit g seq \<longleftrightarrow> (\<exists>s \<in> S. unat s + (unat (rg_highest g) - unat seq) = unat (rg_highest g))"
    using rg_test_bit_inside [OF w assms(3,4)] assms(1,4) by (simp add: rg_ok_def)
  also have "\<dots> \<longleftrightarrow> seq \<in> S"
  proof -
    have "unat s + (unat (rg_highest g) - unat seq) = unat (rg_highest g) \<longleftrightarrow> s = seq" for s
      using le by (auto simp: word_unat_eq_iff)
    then show ?thesis by auto
  qed
  finally show "rg_test_bit g seq \<longleftrightarrow> seq \<in> S" .
  have "wbit (rg_bitmap (rg_set_bit seq g)) p \<longleftrightarrow> (\<exists>s \<in> insert seq S. unat s + p = unat (rg_highest g))"
    if "p < kWindow g" for p
    using wbit_set_bit [OF w assms(3,4) that] assms(1) that le by (auto simp: rg_ok_def)
  moreover have "window_ok (rg_set_bit seq g)" using w by (simp add: window_ok_def)
  ultimately show "rg_ok (insert seq S) (rg_set_bit seq g)" using assms by (auto simp: rg_ok_def)
qed

lemma rg_ok_counters [simp]:
  "rg_ok S (g\<lparr>rg_accepted := n\<rparr>) = rg_ok S g" "rg_ok S (g\<lparr>rg_rejected_replay := n\<rparr>) = rg_ok S g"
  "rg_ok S (g\<lparr>rg_rejected_too_old := n\<rparr>) = rg_ok S g"
  by (simp_all add: rg_ok_def window_ok_def kWindow_def)

lemma fresh_iff:
  assumes "rg_ok S g"
  shows "fresh (kWindow g) S seq \<longleftrightarrow>
    seq \<noteq> 0 \<and> (rg_highest g < seq \<or> unat (rg_highest g) - unat seq < kWindow g \<and> seq \<notin> S)"
proof (cases "rg_highest g < seq")
  case True
  moreover have "\<forall>s \<in> S. unat s < unat seq + kWindow g" "seq \<notin> S"
    using assms True by (fastforce simp: rg_ok_def word_le_nat_alt word_less_nat_alt)+
  ultimately show ?thesis by (auto simp: fresh_def)
next
  case False
  then have le: "unat seq \<le> unat (rg_highest g)" by (simp add: word_less_nat_alt)
  show ?thesis
  proof (cases "seq = 0")
    case True
    then show ?thesis by (simp add: fresh_def)
  next
    case nz: False
    with False have "rg_highest g \<in> S" using assms by (auto simp: rg_ok_def word_gt_0)
    moreover have "\<forall>s \<in> S. unat s \<le> unat (rg_highest g)" using assms by (auto simp: rg_ok_def word_le_nat_alt)
    ultimately have "(\<forall>s \<in> S. unat s < unat seq + kWindow g) \<longleftrightarrow> unat (rg_highest g) < unat seq + kWindow g"
      by (meson order.strict_trans1)
    then show ?thesis using False nz le by (auto simp: fresh_def)
  qed
qed

lemma check_and_update_spec:
  assumes "rg_ok S g" "check_and_update seq g = (ok, g')"
  shows "(ok \<longleftrightarrow> fresh (kWindow g) S seq) \<and> rg_ok (if ok then insert seq S else S) g'
    \<and> kWindow g' = kWindow g \<and> would_accept g seq = ok"
proof -
  note fresh = fresh_iff [OF assms(1), of seq]
  consider (zero) "seq = 0" | (ahead) "seq \<noteq> 0" "rg_highest g < seq"
    | (old) "seq \<noteq> 0" "\<not> rg_highest g < seq" "kWindow g \<le> unat (rg_highest g) - unat seq"
    | (inside) "seq \<noteq> 0" "\<not> rg_highest g < seq" "unat (rg_highest g) - unat seq < kWindow g"
    by linarith
  then show ?thesis
  proof cases
    case zero
    with assms fresh show ?thesis by (auto simp: check_and_update_def would_accept_def)
  next
    case ahead
    then have "(ok, g') = check_and_update seq g" "rg_highest g < seq" "seq \<noteq> 0" using assms(2) by simp_all
    with fresh rg_advance_ok [OF assms(1) ahead(2)] show ?thesis
      by (simp add: check_and_update_def would_accept_def Let_def)
  next
    case old
    then have "unat (rg_highest g - seq) = unat (rg_highest g) - unat seq" by (simp add: unat_sub)
    with old assms fresh show ?thesis
      by (auto simp: check_and_update_def would_accept_def kWindow_def)
  next
    case inside
    then have d: "unat (rg_highest g - seq) = unat (rg_highest g) - unat seq" by (simp add: unat_sub)
    note t = rg_inside_ok [OF assms(1) inside(1) _ inside(3)]
    show ?thesis
    proof (cases "seq \<in> S")
      case True
      with t(1) inside d assms fresh show ?thesis
        by (auto simp: check_and_update_def would_accept_def kWindow_def)
    next
      case False
      have "(ok, g') = check_and_update seq g" using assms(2) by simp
      with False t inside d fresh show ?thesis
        by (simp add: check_and_update_def would_accept_def Let_def)
    qed
  qed
qed

text \<open>The sequence numbers that a run accepts.\<close>

fun rg_run :: "u64 list \<Rightarrow> ReplayGuard \<Rightarrow> u64 list \<times> ReplayGuard" where
  "rg_run [] g = ([], g)"
| "rg_run (s # ss) g =
     (let (ok, g1) = check_and_update s g; (acc, g2) = rg_run ss g1 in (if ok then s # acc else acc, g2))"

lemma rg_run_spec:
  "rg_ok S g \<Longrightarrow> rg_run ss g = (acc, g') \<Longrightarrow>
   rg_ok (S \<union> set acc) g' \<and> kWindow g' = kWindow g \<and> distinct acc \<and> S \<inter> set acc = {}"
proof (induction ss arbitrary: S g acc)
  case Nil
  then show ?case by simp
next
  case (Cons s ss)
  obtain ok g1 where c: "check_and_update s g = (ok, g1)" by fastforce
  obtain acc1 where r: "rg_run ss g1 = (acc1, g')" and acc: "acc = (if ok then s # acc1 else acc1)"
    using Cons.prems(2) c by (auto simp: Let_def split: prod.splits)
  note spec = check_and_update_spec [OF Cons.prems(1) c]
  from Cons.IH [OF _ r, of "if ok then insert s S else S"] spec acc show ?case
    by (auto simp: fresh_def split: if_splits)
qed

lemma rg_new_ok: "64 * kWords = 2 ^ n \<Longrightarrow> n < 32 \<Longrightarrow> rg_ok {} (rg_new kWords)"
  by (auto simp: rg_ok_def rg_new_def window_ok_def kWindow_def wbit_def)

text \<open>
  C32. The replay guard accepts a sequence number exactly when it is not zero, was not accepted
  before, and is less than a window behind every number accepted before. So no number is accepted
  twice, whatever the order of arrival, and the read-only test agrees with the update.
\<close>

theorem replay_guard_exact:
  assumes "64 * kWords = 2 ^ n" "n < 32" "rg_run ss (rg_new kWords) = (acc, g)"
  shows "distinct acc \<and>
    (fst (check_and_update seq g) \<longleftrightarrow> seq \<noteq> 0 \<and> seq \<notin> set acc \<and> (\<forall>a \<in> set acc. unat a < unat seq + 2 ^ n))
    \<and> (would_accept g seq \<longleftrightarrow> fst (check_and_update seq g))"
proof -
  have "kWindow (rg_new kWords) = 2 ^ n" using assms(1) by (simp add: rg_new_def kWindow_def)
  with rg_run_spec [OF rg_new_ok [OF assms(1,2)] assms(3)]
  have g: "rg_ok (set acc) g" "kWindow g = 2 ^ n" "distinct acc" by simp_all
  obtain ok g' where c: "check_and_update seq g = (ok, g')" by fastforce
  from check_and_update_spec [OF g(1) c] g c show ?thesis by (simp add: fresh_def)
qed

theorem replay_guard_exact_witness:
  "\<exists>acc g. rg_run [5, 3, 5, 70, 7, 6] (rg_new 1) = (acc, g) \<and> acc = [5, 3, 70, 7]
     \<and> \<not> fst (check_and_update 3 g) \<and> fst (check_and_update 8 g) \<and> would_accept g 8"
proof -
  have r: "rg_run [5, 3, 5, 70, 7, 6] (rg_new 1) = ([5, 3, 70, 7], snd (rg_run [5, 3, 5, 70, 7, 6] (rg_new 1)))"
    by code_simp
  from replay_guard_exact [of 1 6, OF _ _ r, of 3] replay_guard_exact [of 1 6, OF _ _ r, of 8] r
  show ?thesis by auto
qed

end
