(* ===== verification/SL_Table.thy ===== *)
theory SL_Table
  imports SL_Interfaces
begin

text \<open>
  The chained hash tables of \<open>sl_lockout.c\<close>, \<open>sl_dos_guard.c\<close> and \<open>sl_kvstore.c\<close>. Each
  has its own copy of the same code over its own entry type: an array of chains, indexed by the
  FNV-1a hash of the key, where a new entry becomes the head of its chain and an existing one is
  changed in place. The model has the chains once, for any entry type with a key.
\<close>

fun fnv1a_loop :: "bytes \<Rightarrow> u32 \<Rightarrow> u32" where
  "fnv1a_loop [] h = h"
| "fnv1a_loop (c # cs) h = fnv1a_loop cs ((h XOR ucast c) * 16777619)"

definition fnv1a :: "bytes \<Rightarrow> u32" where
  "fnv1a s = fnv1a_loop s 2166136261"

definition bucket_of :: "'e list list \<Rightarrow> bytes \<Rightarrow> nat" where
  "bucket_of bs k = unat (fnv1a k mod of_nat (length bs))"

fun chain_find :: "('e \<Rightarrow> bytes) \<Rightarrow> bytes \<Rightarrow> 'e list \<Rightarrow> 'e option" where
  "chain_find key k [] = None"
| "chain_find key k (e # es) = (if key e = k then Some e else chain_find key k es)"

definition tbl_find :: "('e \<Rightarrow> bytes) \<Rightarrow> 'e list list \<Rightarrow> bytes \<Rightarrow> 'e option" where
  "tbl_find key bs k = chain_find key k (bs ! bucket_of bs k)"

text \<open>A new entry at the head of its chain, and the entry with this key rewritten.\<close>

definition tbl_cons :: "('e \<Rightarrow> bytes) \<Rightarrow> 'e \<Rightarrow> 'e list list \<Rightarrow> 'e list list" where
  "tbl_cons key e bs = (let b = bucket_of bs (key e) in bs[b := e # bs ! b])"

fun chain_set :: "('e \<Rightarrow> bytes) \<Rightarrow> 'e \<Rightarrow> 'e list \<Rightarrow> 'e list" where
  "chain_set key e [] = []"
| "chain_set key e (x # xs) = (if key x = key e then e # xs else x # chain_set key e xs)"

definition tbl_set :: "('e \<Rightarrow> bytes) \<Rightarrow> 'e \<Rightarrow> 'e list list \<Rightarrow> 'e list list" where
  "tbl_set key e bs = (let b = bucket_of bs (key e) in bs[b := chain_set key e (bs ! b)])"

subsection \<open>The contract of a table\<close>

definition tbl_put :: "('e \<Rightarrow> bytes) \<Rightarrow> 'e \<Rightarrow> 'e list list \<Rightarrow> 'e list list" where
  "tbl_put key e bs = (if tbl_find key bs (key e) = None then tbl_cons key e bs else tbl_set key e bs)"

definition tbl_total :: "('e \<Rightarrow> nat) \<Rightarrow> 'e list list \<Rightarrow> nat" where
  "tbl_total f bs = sum_list (map f (concat bs))"

definition tbl_ok :: "nat \<Rightarrow> ('e \<Rightarrow> bytes) \<Rightarrow> 'e list list \<Rightarrow> bool" where
  "tbl_ok n key bs \<longleftrightarrow> length bs = n
     \<and> (\<forall>i < n. distinct (map key (bs ! i)) \<and> (\<forall>e \<in> set (bs ! i). bucket_of bs (key e) = i))"

locale map_table =
  fixes key :: "'e \<Rightarrow> bytes"
    and lookup :: "'t \<Rightarrow> bytes \<Rightarrow> 'e option"
    and put :: "'e \<Rightarrow> 't \<Rightarrow> 't"
    and total :: "('e \<Rightarrow> nat) \<Rightarrow> 't \<Rightarrow> nat"
    and invar :: "'t \<Rightarrow> bool"
  assumes lookup_key: "lookup t k = Some e \<Longrightarrow> key e = k"
    and put_invar: "invar t \<Longrightarrow> invar (put e t)"
    and lookup_put: "invar t \<Longrightarrow> lookup (put e t) k = (if k = key e then Some e else lookup t k)"
    and total_put: "invar t \<Longrightarrow>
      total f (put e t) + (case lookup t (key e) of None \<Rightarrow> 0 | Some old \<Rightarrow> f old) = total f t + f e"
    and total_ge: "invar t \<Longrightarrow> lookup t k = Some e \<Longrightarrow> f e \<le> total f t"
begin

lemma total_put_new: "invar t \<Longrightarrow> lookup t (key e) = None \<Longrightarrow> total f (put e t) = total f t + f e"
  using total_put [of t f e] by simp

lemma total_put_old:
  "invar t \<Longrightarrow> lookup t (key e) = Some old \<Longrightarrow> total f (put e t) = total f t - f old + f e"
  using total_put [of t f e] total_ge [of t "key e" old f] by simp

end

lemma bucket_of_less: "bs \<noteq> [] \<Longrightarrow> length bs < 2 ^ 32 \<Longrightarrow> bucket_of bs k < length bs"
  by (simp add: bucket_of_def unat_mod)

lemma chain_find_key: "chain_find key k es = Some e \<Longrightarrow> key e = k \<and> e \<in> set es"
  by (induction es) (auto split: if_splits)

lemma chain_find_None: "chain_find key k es = None \<longleftrightarrow> k \<notin> key ` set es"
  by (induction es) auto

lemma chain_find_set:
  "chain_find key (key e) es \<noteq> None \<Longrightarrow>
   chain_find key k (chain_set key e es) = (if k = key e then Some e else chain_find key k es)"
  by (induction es) (auto split: if_splits)

lemma map_chain_set: "map key (chain_set key e es) = map key es"
  by (induction es) auto

lemma chain_total_set:
  "chain_find key (key e) es = Some old \<Longrightarrow>
   sum_list (map f (chain_set key e es)) + f old = sum_list (map f es) + (f e :: nat)"
  by (induction es) (auto split: if_splits)

lemma tbl_total_update:
  "b < length bs \<Longrightarrow> tbl_total f (bs[b := es]) + sum_list (map f (bs ! b)) = tbl_total f bs + sum_list (map f es)"
proof (induction bs arbitrary: b)
  case (Cons x xs)
  then show ?case by (cases b) (auto simp: tbl_total_def)
qed simp

lemma bucket_of_update [simp]: "bucket_of (bs[i := es]) k = bucket_of bs k"
  by (simp add: bucket_of_def)

lemma tbl_okD:
  assumes "tbl_ok n key bs" "0 < n" "n < 2 ^ 32"
  shows "bucket_of bs k < length bs" "distinct (map key (bs ! bucket_of bs k))"
  using assms bucket_of_less [of bs k] by (auto simp: tbl_ok_def)

lemma tbl_ok_update:
  assumes "tbl_ok n key bs" "distinct (map key es)" "key ` set es \<subseteq> insert k (key ` set (bs ! b))" "bucket_of bs k = b" "b < length bs"
  shows "tbl_ok n key (bs[b := es])"
proof -
  have bn: "b < n" using assms(1,5) by (simp add: tbl_ok_def)
  have "bucket_of bs (key e) = b" if "e \<in> set es" for e
  proof -
    from that assms(3) have "key e = k \<or> key e \<in> key ` set (bs ! b)" by auto
    then show ?thesis using assms(1,4) bn by (auto simp: tbl_ok_def)
  qed
  then show ?thesis using assms(1,2) bn by (auto simp: tbl_ok_def nth_list_update)
qed

lemma tbl_put_eq:
  "tbl_put key e bs = (let b = bucket_of bs (key e); c = bs ! b in
     bs[b := if chain_find key (key e) c = None then e # c else chain_set key e c])"
  by (simp add: tbl_put_def tbl_find_def tbl_cons_def tbl_set_def Let_def)

lemma tbl_laws:
  assumes n: "0 < n" "n < 2 ^ 32"
  shows "map_table key (tbl_find key) (tbl_put key) tbl_total (tbl_ok n key)"
proof (unfold_locales, goal_cases)
  case (1 t k e)
  then show ?case by (auto simp: tbl_find_def dest: chain_find_key)
next
  case (2 t e)
  let ?c = "t ! bucket_of t (key e)"
  note ok = tbl_okD [OF 2 n, of "key e"]
  show ?case
  proof (cases "chain_find key (key e) ?c = None")
    case True
    with ok show ?thesis unfolding tbl_put_eq Let_def
      by (intro tbl_ok_update [OF 2, of _ "key e"]) (auto simp: chain_find_None)
  next
    case False
    have "key ` set (chain_set key e ?c) = key ` set ?c" by (metis list.set_map map_chain_set)
    with False ok show ?thesis unfolding tbl_put_eq Let_def
      by (intro tbl_ok_update [OF 2, of _ "key e"]) (auto simp: map_chain_set)
  qed
next
  case (3 t e k)
  note ok = tbl_okD(1) [OF 3 n]
  let ?c = "t ! bucket_of t (key e)"
  define c' where "c' = (if chain_find key (key e) ?c = None then e # ?c else chain_set key e ?c)"
  have find: "tbl_find key (tbl_put key e t) k = chain_find key k (t[bucket_of t (key e) := c'] ! bucket_of t k)"
    by (simp add: tbl_find_def tbl_put_eq c'_def Let_def)
  show ?case
  proof (cases "bucket_of t k = bucket_of t (key e)")
    case True
    have "chain_find key k c' = (if k = key e then Some e else chain_find key k ?c)"
      using chain_find_set [of key e ?c k] by (auto simp: c'_def)
    with True show ?thesis unfolding find using ok [of "key e"] by (simp add: tbl_find_def)
  next
    case False
    then have "k \<noteq> key e" by auto
    with False show ?thesis unfolding find using nth_list_update_neq [of "bucket_of t (key e)" "bucket_of t k" t c']
      by (simp add: tbl_find_def)
  qed
next
  case (4 t f e)
  let ?b = "bucket_of t (key e)"
  note ok = tbl_okD(1) [OF 4 n, of "key e"]
  show ?case
  proof (cases "chain_find key (key e) (t ! ?b)")
    case None
    then show ?thesis using tbl_total_update [OF ok, of f "e # t ! ?b"]
      by (simp add: tbl_find_def tbl_put_eq Let_def)
  next
    case (Some old)
    then show ?thesis
      using tbl_total_update [OF ok, of f "chain_set key e (t ! ?b)"] chain_total_set [OF Some, of f]
      by (simp add: tbl_find_def tbl_put_eq Let_def)
  qed
next
  case (5 t k e f)
  let ?c = "t ! bucket_of t k"
  have "e \<in> set ?c" using 5(2) by (auto simp: tbl_find_def dest: chain_find_key)
  moreover have "set ?c \<subseteq> set (concat t)" using tbl_okD(1) [OF 5(1) n, of k] by (auto intro!: bexI [OF _ nth_mem])
  ultimately have "f e \<in> set (map f (concat t))" by auto
  then show ?case unfolding tbl_total_def by (intro member_le_sum_list) simp_all
qed

lemma tbl_empty:
  fixes key :: "'e \<Rightarrow> bytes"
  shows "tbl_ok n key (replicate n [])"
    "0 < n \<Longrightarrow> n < 2 ^ 32 \<Longrightarrow> tbl_find key (replicate n []) k = None"
    "tbl_total f (replicate n []) = 0"
proof -
  show "tbl_ok n key (replicate n [])" by (simp add: tbl_ok_def)
  show "tbl_find key (replicate n []) k = None" if "0 < n" "n < 2 ^ 32"
    using bucket_of_less [of "replicate n [] :: 'e list list" k] that by (simp add: tbl_find_def)
  show "tbl_total f (replicate n []) = 0" by (induction n) (simp_all add: tbl_total_def)
qed

end
