(* ===== verification/SL_Time.thy ===== *)
theory SL_Time
  imports SL_Interfaces "HOL-Library.AList"
begin

text \<open>
  Clocks, deadlines and rate limits: \<open>sl_clock.c\<close>, \<open>sl_deadline.c\<close>, \<open>sl_token_bucket.c\<close> and
  \<open>rate_limiter.hpp\<close>. The reading of a clock is an argument: the seconds and nanoseconds that
  \<open>clock_gettime\<close> stores, or \<open>None\<close> when it fails; the steady clock of C++ is a number of
  nanoseconds.
\<close>

type_synonym clock_reading = "(u64 \<times> u64) option"

subsection \<open>Clocks\<close>

definition sl_clock_wall_ms :: "clock_reading \<Rightarrow> u64" where
  "sl_clock_wall_ms ts = (case ts of None \<Rightarrow> 0 | Some (sec, nsec) \<Rightarrow> sec * 1000 + nsec div 1000000)"

definition sl_clock_mono_ms :: "clock_reading \<Rightarrow> u64" where
  "sl_clock_mono_ms ts = (case ts of None \<Rightarrow> 0 | Some (sec, nsec) \<Rightarrow> sec * 1000 + nsec div 1000000)"

text \<open>
  The results of the successive calls of \<open>nanosleep\<close>; the loop gives the status and what it asked
  for in each call, or \<open>None\<close> while there is no further result.
\<close>

datatype nanosleep_result = Slept | Interrupted "u64 \<times> u64" | SleepError

fun sleep_loop :: "nanosleep_result list \<Rightarrow> u64 \<times> u64 \<Rightarrow> (int \<times> (u64 \<times> u64) list) option" where
  "sleep_loop [] req = None"
| "sleep_loop (Slept # rs) req = Some (0, [req])"
| "sleep_loop (Interrupted rem # rs) req = map_option (\<lambda>(rc, asked). (rc, req # asked)) (sleep_loop rs rem)"
| "sleep_loop (SleepError # rs) req = Some (- 1, [req])"

definition sl_clock_sleep_ms :: "nanosleep_result list \<Rightarrow> u32 \<Rightarrow> (int \<times> (u64 \<times> u64) list) option" where
  "sl_clock_sleep_ms rs ms = sleep_loop rs (ucast (ms div 1000), ucast (ms mod 1000) * 1000000)"

subsection \<open>Deadlines\<close>

definition sl_deadline_now_ms :: "clock_reading \<Rightarrow> u64" where
  "sl_deadline_now_ms ts = (case ts of None \<Rightarrow> 0 | Some (sec, nsec) \<Rightarrow> sec * 1000 + nsec div 1000000)"

definition sl_deadline_in_ms :: "clock_reading \<Rightarrow> u32 \<Rightarrow> u64" where
  "sl_deadline_in_ms ts timeout_ms = sl_deadline_now_ms ts + ucast timeout_ms"

definition sl_deadline_expired :: "clock_reading \<Rightarrow> u64 \<Rightarrow> bool" where
  "sl_deadline_expired ts deadline_ms = (sl_deadline_now_ms ts \<ge> deadline_ms)"

definition sl_deadline_remaining_ms :: "clock_reading \<Rightarrow> u64 \<Rightarrow> u32" where
  "sl_deadline_remaining_ms ts deadline_ms =
     (let now = sl_deadline_now_ms ts in
      if now \<ge> deadline_ms then 0
      else let r = deadline_ms - now in if r > 0xFFFFFFFF then 0xFFFFFFFF else ucast r)"

subsection \<open>The token bucket\<close>

record sl_token_bucket_t =
  tb_capacity_bytes :: u64
  tb_rate_bps :: u64
  tb_tokens :: u64
  tb_last_refill_us :: u64

definition now_us :: "clock_reading \<Rightarrow> u64" where
  "now_us ts = (case ts of None \<Rightarrow> 0 | Some (sec, nsec) \<Rightarrow> sec * 1000000 + nsec div 1000)"

definition tb_refill :: "clock_reading \<Rightarrow> sl_token_bucket_t \<Rightarrow> sl_token_bucket_t" where
  "tb_refill ts tb =
     (let now = now_us ts in
      if tb_last_refill_us tb = 0 then tb\<lparr>tb_last_refill_us := now\<rparr>
      else if now \<le> tb_last_refill_us tb then tb
      else
        let elapsed_us = now - tb_last_refill_us tb; add = (tb_rate_bps tb * elapsed_us) div 1000000 in
        if add = 0 then tb
        else
          let sum = tb_tokens tb + add in
          tb\<lparr>tb_tokens := (if sum > tb_capacity_bytes tb then tb_capacity_bytes tb else sum), tb_last_refill_us := now\<rparr>)"

definition sl_token_bucket_init :: "sl_token_bucket_t ptr \<Rightarrow> u64 \<Rightarrow> u64 \<Rightarrow> sl_token_bucket_t ptr" where
  "sl_token_bucket_init tb capacity_bytes rate_bps =
     (case tb of
        None \<Rightarrow> NULL
      | Some _ \<Rightarrow> Some \<lparr>tb_capacity_bytes = capacity_bytes, tb_rate_bps = rate_bps,
                        tb_tokens = capacity_bytes, tb_last_refill_us = 0\<rparr>)"

definition sl_token_bucket_try_take ::
  "clock_reading \<Rightarrow> sl_token_bucket_t ptr \<Rightarrow> u64 \<Rightarrow> int \<times> sl_token_bucket_t ptr" where
  "sl_token_bucket_try_take ts tb bytes =
     (case tb of
        None \<Rightarrow> (- 1, NULL)
      | Some b0 \<Rightarrow>
          let b = tb_refill ts b0 in
          if tb_tokens b < bytes then (- 1, Some b)
          else (0, Some (b\<lparr>tb_tokens := tb_tokens b - bytes\<rparr>)))"

definition sl_token_bucket_wait_ms ::
  "clock_reading \<Rightarrow> sl_token_bucket_t ptr \<Rightarrow> u64 \<Rightarrow> u32 \<times> sl_token_bucket_t ptr" where
  "sl_token_bucket_wait_ms ts tb bytes =
     (case tb of
        None \<Rightarrow> (0, NULL)
      | Some b0 \<Rightarrow>
          if tb_rate_bps b0 = 0 then (0, tb)
          else
            let b = tb_refill ts b0 in
            if tb_tokens b \<ge> bytes then (0, Some b)
            else
              let deficit = bytes - tb_tokens b;
                  ms = (deficit * 1000 + tb_rate_bps b - 1) div tb_rate_bps b
              in (if ms > 0xFFFFFFFF then 0xFFFFFFFF else ucast ms, Some b))"

definition sl_token_bucket_set_rate ::
  "clock_reading \<Rightarrow> sl_token_bucket_t ptr \<Rightarrow> u64 \<Rightarrow> sl_token_bucket_t ptr" where
  "sl_token_bucket_set_rate ts tb rate_bps =
     (case tb of None \<Rightarrow> NULL | Some b \<Rightarrow> Some ((tb_refill ts b)\<lparr>tb_rate_bps := rate_bps\<rparr>))"

definition sl_token_bucket_tokens :: "sl_token_bucket_t ptr \<Rightarrow> u64" where
  "sl_token_bucket_tokens tb = (case tb of None \<Rightarrow> 0 | Some b \<Rightarrow> tb_tokens b)"

subsection \<open>The rate limiter\<close>

record Bucket =
  rb_tokens :: u32
  rb_dropped :: u64
  rb_last :: int

record RateLimiter =
  rl_refill_per_sec :: u32
  rl_burst :: u32
  rl_buckets :: "(bytes \<times> Bucket) list"

definition bucket_zero :: Bucket where
  "bucket_zero = \<lparr>rb_tokens = 0, rb_dropped = 0, rb_last = 0\<rparr>"

definition rl_new :: "u32 \<Rightarrow> u32 \<Rightarrow> RateLimiter" where
  "rl_new tokens_per_sec burst = \<lparr>rl_refill_per_sec = tokens_per_sec, rl_burst = burst, rl_buckets = []\<rparr>"

text \<open>A duration is truncated towards zero to milliseconds; only a positive one counts.\<close>

definition rl_refill :: "RateLimiter \<Rightarrow> int \<Rightarrow> Bucket \<Rightarrow> Bucket" where
  "rl_refill L now b =
     (let elapsed = (now - rb_last b) div 1000000 in
      if elapsed \<le> 0 then b
      else
        let add = (ucast (rl_refill_per_sec L) * word_of_int elapsed :: u64) div 1000 in
        if add > 0 then
          let sum = ucast (rb_tokens b) + add in
          b\<lparr>rb_tokens := ucast (if sum > ucast (rl_burst L) then ucast (rl_burst L) else sum), rb_last := now\<rparr>
        else b)"

definition bucket_take :: "RateLimiter \<Rightarrow> int \<Rightarrow> u32 \<Rightarrow> Bucket \<Rightarrow> bool \<times> Bucket" where
  "bucket_take L now cost b0 =
     (let b = (if rb_last b0 = 0 then b0\<lparr>rb_tokens := rl_burst L, rb_last := now\<rparr> else rl_refill L now b0) in
      if rb_tokens b \<ge> cost then (True, b\<lparr>rb_tokens := rb_tokens b - cost\<rparr>)
      else (False, b\<lparr>rb_dropped := rb_dropped b + 1\<rparr>))"

definition rl_allow :: "int \<Rightarrow> bytes \<Rightarrow> u32 \<Rightarrow> RateLimiter \<Rightarrow> bool \<times> RateLimiter" where
  "rl_allow now key cost L =
     (let b0 = (case map_of (rl_buckets L) key of None \<Rightarrow> bucket_zero | Some b \<Rightarrow> b);
          (ok, b) = bucket_take L now cost b0
      in (ok, L\<lparr>rl_buckets := AList.update key b (rl_buckets L)\<rparr>))"

definition rl_tokens :: "int \<Rightarrow> bytes \<Rightarrow> RateLimiter \<Rightarrow> u32 \<times> RateLimiter" where
  "rl_tokens now key L =
     (case map_of (rl_buckets L) key of
        None \<Rightarrow> (rl_burst L, L)
      | Some b0 \<Rightarrow> let b = rl_refill L now b0 in (rb_tokens b, L\<lparr>rl_buckets := AList.update key b (rl_buckets L)\<rparr>))"

definition rl_dropped :: "RateLimiter \<Rightarrow> bytes \<Rightarrow> u64" where
  "rl_dropped L key = (case map_of (rl_buckets L) key of None \<Rightarrow> 0 | Some b \<Rightarrow> rb_dropped b)"

definition rl_evict_idle :: "int \<Rightarrow> int \<Rightarrow> RateLimiter \<Rightarrow> nat \<times> RateLimiter" where
  "rl_evict_idle now max_age L =
     (let cutoff = now - max_age * 1000000000; kept = filter (\<lambda>kb. \<not> rb_last (snd kb) < cutoff) (rl_buckets L)
      in (length (rl_buckets L) - length kept, L\<lparr>rl_buckets := kept\<rparr>))"

definition rl_bucket_count :: "RateLimiter \<Rightarrow> nat" where
  "rl_bucket_count L = length (rl_buckets L)"

definition rl_reset :: "RateLimiter \<Rightarrow> RateLimiter" where
  "rl_reset L = L\<lparr>rl_buckets := []\<rparr>"

subsection \<open>What a limiter lets through\<close>

text \<open>
  A limiter holds a level and the time of its last refill (0 before the first one). A request may
  take from the level; a refill adds at most \<open>rate\<close> for each \<open>unit\<close> of time that has passed.
\<close>

fun granted :: "('s \<Rightarrow> 'c \<Rightarrow> 'x \<Rightarrow> 's \<times> nat) \<Rightarrow> 's \<Rightarrow> ('c \<times> 'x) list \<Rightarrow> nat" where
  "granted grant s [] = 0"
| "granted grant s ((c, x) # rs) = (let (s1, n) = grant s c x in n + granted grant s1 rs)"

locale paced =
  fixes grant :: "'s \<Rightarrow> 'c \<Rightarrow> 'x \<Rightarrow> 's \<times> nat"
    and invar :: "'s \<Rightarrow> bool"
    and time :: "'c \<Rightarrow> nat"
    and reading :: "'c \<Rightarrow> bool"
    and level :: "'s \<Rightarrow> nat"
    and mark :: "'s \<Rightarrow> nat"
    and rate :: nat
    and unit :: nat
  assumes grant_invar: "invar s \<Longrightarrow> reading c \<Longrightarrow> grant s c x = (s', n) \<Longrightarrow> invar s'"
    and grant_law: "invar s \<Longrightarrow> reading c \<Longrightarrow> grant s c x = (s', n) \<Longrightarrow>
      mark s' = mark s \<and> level s' + n \<le> level s
      \<or> mark s = 0 \<and> mark s' = time c \<and> level s' + n \<le> level s
      \<or> mark s \<noteq> 0 \<and> mark s < time c \<and> mark s' = time c
          \<and> unit * (level s' + n) \<le> unit * level s + rate * (time c - mark s)"
begin

lemma granted_marked:
  "invar s \<Longrightarrow> mark s \<noteq> 0 \<Longrightarrow> mark s \<le> T \<Longrightarrow> \<forall>(c, x) \<in> set rs. reading c \<and> time c \<le> T \<Longrightarrow>
   unit * granted grant s rs \<le> unit * level s + rate * (T - mark s)"
proof (induction rs arbitrary: s)
  case Nil
  then show ?case by simp
next
  case (Cons cx rs)
  obtain c x where cx: "cx = (c, x)" by fastforce
  obtain s1 n where g: "grant s c x = (s1, n)" by fastforce
  have c: "reading c" "time c \<le> T" using Cons.prems(4) cx by auto
  note inv1 = grant_invar [OF Cons.prems(1) c(1) g]
  have rest: "\<forall>(c, x) \<in> set rs. reading c \<and> time c \<le> T" using Cons.prems(4) by auto
  from grant_law [OF Cons.prems(1) c(1) g] Cons.prems(2) consider
      (same) "mark s1 = mark s" "level s1 + n \<le> level s"
    | (later) "mark s < time c" "mark s1 = time c"
        "unit * (level s1 + n) \<le> unit * level s + rate * (time c - mark s)" by auto
  then show ?case
  proof cases
    case same
    then have "unit * (level s1 + n) \<le> unit * level s" by simp
    moreover have "unit * granted grant s1 rs \<le> unit * level s1 + rate * (T - mark s)"
      using Cons.IH [OF inv1 _ _ rest] same Cons.prems(2,3) by simp
    ultimately show ?thesis using cx g by (simp add: distrib_left)
  next
    case later
    then have "unit * granted grant s1 rs \<le> unit * level s1 + rate * (T - time c)"
      using Cons.IH [OF inv1 _ _ rest] c(2) by simp
    moreover have "rate * (T - mark s) = rate * (T - time c) + rate * (time c - mark s)"
      using later(1) c(2) by (simp flip: distrib_left)
    ultimately show ?thesis using later(3) cx g by (simp add: distrib_left)
  qed
qed

lemma granted_from_start:
  "invar s \<Longrightarrow> mark s = 0 \<Longrightarrow> t0 \<le> T \<Longrightarrow>
   \<forall>(c, x) \<in> set rs. reading c \<and> (time c = 0 \<or> t0 \<le> time c) \<and> time c \<le> T \<Longrightarrow>
   unit * granted grant s rs \<le> unit * level s + rate * (T - t0)"
proof (induction rs arbitrary: s)
  case Nil
  then show ?case by simp
next
  case (Cons cx rs)
  obtain c x where cx: "cx = (c, x)" by fastforce
  obtain s1 n where g: "grant s c x = (s1, n)" by fastforce
  have c: "reading c" "time c = 0 \<or> t0 \<le> time c" "time c \<le> T" using Cons.prems(4) cx by auto
  note inv1 = grant_invar [OF Cons.prems(1) c(1) g]
  have rest: "\<forall>(c, x) \<in> set rs. reading c \<and> (time c = 0 \<or> t0 \<le> time c) \<and> time c \<le> T"
    using Cons.prems(4) by auto
  from grant_law [OF Cons.prems(1) c(1) g] Cons.prems(2)
  have lv: "level s1 + n \<le> level s" and m: "mark s1 = 0 \<or> mark s1 = time c" by auto
  from lv have "unit * level s1 + unit * n \<le> unit * level s" by (simp flip: distrib_left)
  moreover have "unit * granted grant s1 rs \<le> unit * level s1 + rate * (T - t0)"
  proof (cases "mark s1 = 0")
    case True
    with Cons.IH [OF inv1 _ Cons.prems(3) rest] show ?thesis by simp
  next
    case False
    with m c have "t0 \<le> mark s1" "mark s1 \<le> T" by auto
    have "\<forall>(c, x) \<in> set rs. reading c \<and> time c \<le> T" using rest by auto
    with granted_marked [OF inv1 False \<open>mark s1 \<le> T\<close>]
    have "unit * granted grant s1 rs \<le> unit * level s1 + rate * (T - mark s1)" by blast
    also have "\<dots> \<le> unit * level s1 + rate * (T - t0)" using \<open>t0 \<le> mark s1\<close> by (simp add: diff_le_mono2)
    finally show ?thesis .
  qed
  ultimately show ?case using cx g by (simp add: distrib_left)
qed

end

text \<open>Products and sums of words never exceed those of the numbers.\<close>

lemma unat_mult_le: "unat (a * b :: u64) \<le> unat a * unat b"
  by (simp add: unat_word_ariths)

lemma unat_add_le: "unat (a + b :: u64) \<le> unat a + unat b"
  by (simp add: unat_word_ariths)

lemma scaled_div_le: "unit * (unat (a * b :: u64) div unit) \<le> unat a * unat b"
  by (rule order_trans [OF _ unat_mult_le]) simp

definition tb_grant :: "sl_token_bucket_t \<Rightarrow> clock_reading \<Rightarrow> u64 \<Rightarrow> sl_token_bucket_t \<times> nat" where
  "tb_grant b ts bytes =
     (case sl_token_bucket_try_take ts (Some b) bytes of
        (rc, b') \<Rightarrow> (the b', if rc = 0 then unat bytes else 0))"

lemma tb_refill_law:
  "tb_rate_bps (tb_refill ts b) = tb_rate_bps b"
  "tb_last_refill_us (tb_refill ts b) = tb_last_refill_us b \<and> tb_tokens (tb_refill ts b) = tb_tokens b
   \<or> tb_last_refill_us b = 0 \<and> tb_last_refill_us (tb_refill ts b) = now_us ts \<and> tb_tokens (tb_refill ts b) = tb_tokens b
   \<or> tb_last_refill_us b \<noteq> 0 \<and> tb_last_refill_us b < now_us ts \<and> tb_last_refill_us (tb_refill ts b) = now_us ts
      \<and> 1000000 * unat (tb_tokens (tb_refill ts b)) \<le> 1000000 * unat (tb_tokens b)
          + unat (tb_rate_bps b) * (unat (now_us ts) - unat (tb_last_refill_us b))"
proof -
  show "tb_rate_bps (tb_refill ts b) = tb_rate_bps b" by (simp add: tb_refill_def Let_def)
  let ?e = "now_us ts - tb_last_refill_us b"
  let ?add = "(tb_rate_bps b * ?e) div 1000000"
  have add: "1000000 * unat ?add \<le> unat (tb_rate_bps b) * unat ?e"
    using scaled_div_le [of 1000000] by (simp add: unat_div)
  consider "tb_last_refill_us b = 0" | "tb_last_refill_us b \<noteq> 0" "now_us ts \<le> tb_last_refill_us b"
    | "tb_last_refill_us b \<noteq> 0" "\<not> now_us ts \<le> tb_last_refill_us b" "?add = 0"
    | (add) "tb_last_refill_us b \<noteq> 0" "\<not> now_us ts \<le> tb_last_refill_us b" "?add \<noteq> 0" by blast
  then show "tb_last_refill_us (tb_refill ts b) = tb_last_refill_us b \<and> tb_tokens (tb_refill ts b) = tb_tokens b
   \<or> tb_last_refill_us b = 0 \<and> tb_last_refill_us (tb_refill ts b) = now_us ts \<and> tb_tokens (tb_refill ts b) = tb_tokens b
   \<or> tb_last_refill_us b \<noteq> 0 \<and> tb_last_refill_us b < now_us ts \<and> tb_last_refill_us (tb_refill ts b) = now_us ts
      \<and> 1000000 * unat (tb_tokens (tb_refill ts b)) \<le> 1000000 * unat (tb_tokens b)
          + unat (tb_rate_bps b) * (unat (now_us ts) - unat (tb_last_refill_us b))"
  proof cases
    case add
    then have e: "unat ?e = unat (now_us ts) - unat (tb_last_refill_us b)" by (simp add: unat_sub)
    have "tb_tokens (tb_refill ts b) \<le> tb_tokens b + ?add" "tb_last_refill_us (tb_refill ts b) = now_us ts"
      using add by (auto simp: tb_refill_def Let_def)
    then have "unat (tb_tokens (tb_refill ts b)) \<le> unat (tb_tokens b) + unat ?add"
      using unat_add_le order_trans by (fastforce simp: word_le_nat_alt)
    then have "1000000 * unat (tb_tokens (tb_refill ts b)) \<le> 1000000 * unat (tb_tokens b) + unat (tb_rate_bps b) * unat ?e"
      using \<open>1000000 * unat ?add \<le> unat (tb_rate_bps b) * unat ?e\<close> by linarith
    with add e \<open>tb_last_refill_us (tb_refill ts b) = now_us ts\<close> show ?thesis by auto
  qed (auto simp: tb_refill_def Let_def)
qed

interpretation tb: paced tb_grant "\<lambda>b. unat (tb_rate_bps b) = R" "\<lambda>ts. unat (now_us ts)" "\<lambda>ts. True"
  "\<lambda>b. unat (tb_tokens b)" "\<lambda>b. unat (tb_last_refill_us b)" R 1000000 for R
proof (unfold_locales, goal_cases)
  case (1 s c x s' n)
  then show ?case
    using tb_refill_law(1) [of c s]
    by (auto simp: tb_grant_def sl_token_bucket_try_take_def Let_def split: if_splits)
next
  case (2 s c x s' n)
  have l: "unat (tb_tokens s') + n \<le> unat (tb_tokens (tb_refill c s))"
    "tb_last_refill_us s' = tb_last_refill_us (tb_refill c s)"
    using 2(3) by (auto simp: tb_grant_def sl_token_bucket_try_take_def Let_def unat_sub word_le_nat_alt not_less split: if_splits)
  then have u: "1000000 * (unat (tb_tokens s') + n) \<le> 1000000 * unat (tb_tokens (tb_refill c s))" by simp
  from tb_refill_law(2) [where b = s and ts = c] show ?case
  proof (elim disjE conjE, goal_cases)
    case 1
    with l show ?thesis by simp
  next
    case 2
    with l show ?thesis by simp
  next
    case c: 3
    with l u 2(1) show ?thesis by (simp add: word_less_nat_alt unat_eq_zero)
  qed
qed

text \<open>The limiter as seen by one key, whatever requests other keys make in between.\<close>

definition rl_bucket :: "bytes \<Rightarrow> RateLimiter \<Rightarrow> Bucket" where
  "rl_bucket key L = (case map_of (rl_buckets L) key of None \<Rightarrow> bucket_zero | Some b \<Rightarrow> b)"

definition rl_grant :: "bytes \<Rightarrow> RateLimiter \<Rightarrow> nat \<Rightarrow> bytes \<times> u32 \<Rightarrow> RateLimiter \<times> nat" where
  "rl_grant key L t x =
     (case rl_allow (int t) (fst x) (snd x) L of
        (ok, L') \<Rightarrow> (L', if ok \<and> fst x = key then unat (snd x) else 0))"

definition bucket_level :: "RateLimiter \<Rightarrow> Bucket \<Rightarrow> nat" where
  "bucket_level L b = (if rb_last b = 0 then unat (rl_burst L) else unat (rb_tokens b))"

lemma rl_allow_key:
  assumes "rl_allow now k cost L = (ok, L')"
  shows "rl_refill_per_sec L' = rl_refill_per_sec L" "rl_burst L' = rl_burst L"
    and "k \<noteq> key \<Longrightarrow> rl_bucket key L' = rl_bucket key L"
    and "k = key \<Longrightarrow> bucket_take L now cost (rl_bucket key L) = (ok, rl_bucket key L')"
  using assms by (auto simp: rl_allow_def rl_bucket_def update_conv' Let_def split: prod.splits)

lemma rl_refill_law:
  assumes "0 \<le> rb_last b" "0 < now"
  shows "rl_refill L now b = b
   \<or> rb_last b < now \<and> rb_last (rl_refill L now b) = now
      \<and> 1000000000 * unat (rb_tokens (rl_refill L now b)) \<le> 1000000000 * unat (rb_tokens b)
          + unat (rl_refill_per_sec L) * nat (now - rb_last b)"
proof -
  let ?e = "(now - rb_last b) div 1000000"
  let ?add = "(ucast (rl_refill_per_sec L) * word_of_int ?e :: u64) div 1000"
  show ?thesis
  proof (cases "0 < ?e \<and> 0 < ?add")
    case True
    have "unat (word_of_int ?e :: u64) \<le> nat ?e"
      using True by (simp add: unat_eq_nat_uint uint_word_of_int nat_mono zmod_le_nonneg_dividend)
    then have "unat (rl_refill_per_sec L) * unat (word_of_int ?e :: u64) \<le> unat (rl_refill_per_sec L) * nat ?e"
      by (rule mult_le_mono2)
    moreover have "1000 * unat ?add \<le> unat (rl_refill_per_sec L) * unat (word_of_int ?e :: u64)"
      using scaled_div_le [of 1000 "ucast (rl_refill_per_sec L)" "word_of_int ?e"] by (simp add: unat_div)
    ultimately have add: "1000 * unat ?add \<le> unat (rl_refill_per_sec L) * nat ?e" by (rule order_trans [rotated])
    have "1000000 * nat ?e \<le> nat (now - rb_last b)" using True by (simp add: nat_div_distrib)
    then have "unat (rl_refill_per_sec L) * (1000000 * nat ?e) \<le> unat (rl_refill_per_sec L) * nat (now - rb_last b)"
      by (rule mult_le_mono2)
    with add have add': "1000000000 * unat ?add \<le> unat (rl_refill_per_sec L) * nat (now - rb_last b)" by linarith
    let ?sum = "ucast (rb_tokens b) + ?add"
    have "unat (rb_tokens (rl_refill L now b)) \<le> unat ?sum" "rb_last (rl_refill L now b) = now"
      using True by (auto simp: rl_refill_def Let_def unat_u32_of_u64 word_less_nat_alt not_less)
    then have "unat (rb_tokens (rl_refill L now b)) \<le> unat (rb_tokens b) + unat ?add"
      using unat_add_le [of "ucast (rb_tokens b)" ?add] by simp
    with add' True \<open>rb_last (rl_refill L now b) = now\<close> show ?thesis by auto
  next
    case False
    then have "rl_refill L now b = b" by (auto simp: rl_refill_def Let_def)
    then show ?thesis by blast
  qed
qed

lemma bucket_take_law:
  fixes L :: RateLimiter and now :: int and cost :: u32 and b :: Bucket
  defines "r \<equiv> if rb_last b = 0 then b\<lparr>rb_tokens := rl_burst L, rb_last := now\<rparr> else rl_refill L now b"
  assumes "bucket_take L now cost b = (ok, b')"
  shows "rb_last b' = rb_last r" "unat (rb_tokens b') + (if ok then unat cost else 0) = unat (rb_tokens r)"
proof -
  have b': "b' = snd (bucket_take L now cost b)" "ok = fst (bucket_take L now cost b)" using assms(2) by simp_all
  show "rb_last b' = rb_last r" "unat (rb_tokens b') + (if ok then unat cost else 0) = unat (rb_tokens r)"
    unfolding b' bucket_take_def r_def [symmetric] Let_def by (simp_all add: unat_sub word_le_nat_alt)
qed

interpretation rl: paced "rl_grant key"
  "\<lambda>L. unat (rl_refill_per_sec L) = R \<and> 0 \<le> rb_last (rl_bucket key L)" id "\<lambda>t. 0 < t"
  "\<lambda>L. bucket_level L (rl_bucket key L)" "\<lambda>L. nat (rb_last (rl_bucket key L))" R 1000000000 for key R
proof (unfold_locales, goal_cases)
  case (1 L t x L' n)
  obtain ok where a: "rl_allow (int t) (fst x) (snd x) L = (ok, L')" using 1(3) by (auto simp: rl_grant_def split: prod.splits)
  show ?case
  proof (cases "fst x = key")
    case True
    then have "rb_last (rl_bucket key L') = int t \<or> rb_last (rl_bucket key L') = rb_last (rl_bucket key L)"
      using bucket_take_law(1) [OF rl_allow_key(4) [OF a True]] rl_refill_law [of "rl_bucket key L" "int t" L] 1(1,2)
      by (auto split: if_splits)
    with 1 rl_allow_key(1) [OF a] show ?thesis by auto
  next
    case False
    with 1 rl_allow_key [OF a] show ?thesis by simp
  qed
next
  case (2 L t x L' n)
  obtain ok where a: "rl_allow (int t) (fst x) (snd x) L = (ok, L')" and n: "n = (if ok \<and> fst x = key then unat (snd x) else 0)"
    using 2(3) by (auto simp: rl_grant_def split: prod.splits)
  show ?case
  proof (cases "fst x = key")
    case True
    let ?b = "rl_bucket key L" let ?r = "if rb_last ?b = 0 then ?b\<lparr>rb_tokens := rl_burst L, rb_last := int t\<rparr> else rl_refill L (int t) ?b"
    note b' = bucket_take_law [OF rl_allow_key(4) [OF a True]]
    have b'': "unat (rb_tokens (rl_bucket key L')) + n = unat (rb_tokens ?r)" using b'(2) n True by simp
    show ?thesis
    proof (cases "rb_last ?b = 0")
      case fresh: True
      with b'(1) b'' 2(2) show ?thesis by (simp add: bucket_level_def)
    next
      case False
      with b'(1) b'' rl_refill_law [of ?b "int t" L] 2(1,2) show ?thesis
        by (auto simp: bucket_level_def nat_diff_distrib)
    qed
  next
    case False
    with n rl_allow_key [OF a] show ?thesis by (simp add: bucket_level_def)
  qed
qed



text \<open>The waiting time of a large request wraps: nothing to wait for, though the bucket can never pay.\<close>

lemma token_bucket_wait_wraps:
  "fst (sl_token_bucket_wait_ms (Some (1, 0)) (Some \<lparr>tb_capacity_bytes = 0, tb_rate_bps = 1, tb_tokens = 0,
     tb_last_refill_us = 0\<rparr>) 2305843009213693952) = 0"
  by (simp add: sl_token_bucket_wait_ms_def tb_refill_def Let_def)

end
