(* ===== verification/SL_Guard.thy ===== *)
theory SL_Guard
  imports SL_Table SL_Time
begin

text \<open>
  Protection against abuse: failure lockout (\<open>sl_lockout.c\<close>) and connection limits (\<open>sl_dos_guard.c\<close>),
  both on the chained table of SL_Table. Keys are C strings without their terminator; whether the
  allocations of a new entry succeed is an argument.
\<close>

definition now_ms :: "clock_reading \<Rightarrow> u64" where
  "now_ms ts = (case ts of None \<Rightarrow> 0 | Some (sec, nsec) \<Rightarrow> sec * 1000 + nsec div 1000000)"

subsection \<open>Lockout\<close>

type_synonym sl_lockout_status_t = int

abbreviation (input) SL_LOCKOUT_ALLOW :: sl_lockout_status_t where "SL_LOCKOUT_ALLOW \<equiv> 0"
abbreviation (input) SL_LOCKOUT_BLOCKED :: sl_lockout_status_t where "SL_LOCKOUT_BLOCKED \<equiv> 1"

record lo_entry =
  le_key :: bytes
  le_fails :: u32
  le_locked_until_ms :: u64

record sl_lockout =
  lo_base_lockout_ms :: u32
  lo_cap_lockout_ms :: u32
  lo_fail_threshold :: u32
  lo_buckets :: "lo_entry list list"
  lo_count :: nat

definition lo_find_or_create :: "bool \<Rightarrow> sl_lockout \<Rightarrow> bytes \<Rightarrow> bool \<Rightarrow> lo_entry ptr \<times> sl_lockout" where
  "lo_find_or_create alloc_ok L key create =
     (case tbl_find le_key (lo_buckets L) key of
        Some e \<Rightarrow> (Some e, L)
      | None \<Rightarrow>
          if \<not> create then (NULL, L)
          else if \<not> alloc_ok then (NULL, L)
          else let ne = \<lparr>le_key = key, le_fails = 0, le_locked_until_ms = 0\<rparr>
               in (Some ne, L\<lparr>lo_buckets := tbl_cons le_key ne (lo_buckets L), lo_count := lo_count L + 1\<rparr>))"

definition lo_write :: "lo_entry \<Rightarrow> sl_lockout \<Rightarrow> sl_lockout" where
  "lo_write e L = L\<lparr>lo_buckets := tbl_set le_key e (lo_buckets L)\<rparr>"

definition sl_lockout_new :: "bool \<Rightarrow> u32 \<Rightarrow> u32 \<Rightarrow> u32 \<Rightarrow> sl_lockout ptr" where
  "sl_lockout_new alloc_ok base_lockout_ms cap_lockout_ms fail_threshold =
     (if base_lockout_ms = 0 \<or> cap_lockout_ms < base_lockout_ms \<or> fail_threshold = 0 then NULL
      else if \<not> alloc_ok then NULL
      else Some \<lparr>lo_base_lockout_ms = base_lockout_ms, lo_cap_lockout_ms = cap_lockout_ms,
                 lo_fail_threshold = fail_threshold, lo_buckets = replicate 1024 [], lo_count = 0\<rparr>)"

definition sl_lockout_check :: "clock_reading \<Rightarrow> sl_lockout ptr \<Rightarrow> bytes ptr \<Rightarrow> sl_lockout_status_t" where
  "sl_lockout_check ts L key =
     (case (L, key) of
        (Some l, Some k) \<Rightarrow>
          (case lo_find_or_create False l k False of
             (None, _) \<Rightarrow> SL_LOCKOUT_ALLOW
           | (Some e, _) \<Rightarrow> if now_ms ts < le_locked_until_ms e then SL_LOCKOUT_BLOCKED else SL_LOCKOUT_ALLOW)
      | _ \<Rightarrow> SL_LOCKOUT_BLOCKED)"

definition lockout_window :: "sl_lockout \<Rightarrow> u32 \<Rightarrow> u64" where
  "lockout_window L fails =
     (let over = fails - lo_fail_threshold L;
          dur = push_bit (if over < 16 then unat over else 16) (ucast (lo_base_lockout_ms L) :: u64)
      in if dur > ucast (lo_cap_lockout_ms L) then ucast (lo_cap_lockout_ms L) else dur)"

definition sl_lockout_fail ::
  "bool \<Rightarrow> clock_reading \<Rightarrow> sl_lockout ptr \<Rightarrow> bytes ptr \<Rightarrow> sl_lockout_status_t \<times> sl_lockout ptr" where
  "sl_lockout_fail alloc_ok ts L key =
     (case (L, key) of
        (Some l, Some k) \<Rightarrow>
          (case lo_find_or_create alloc_ok l k True of
             (None, l1) \<Rightarrow> (SL_LOCKOUT_BLOCKED, Some l1)
           | (Some e, l1) \<Rightarrow>
               let e1 = e\<lparr>le_fails := le_fails e + 1\<rparr> in
               if le_fails e1 \<ge> lo_fail_threshold l1 then
                 (SL_LOCKOUT_BLOCKED,
                  Some (lo_write (e1\<lparr>le_locked_until_ms := now_ms ts + lockout_window l1 (le_fails e1)\<rparr>) l1))
               else (SL_LOCKOUT_ALLOW, Some (lo_write e1 l1)))
      | _ \<Rightarrow> (SL_LOCKOUT_BLOCKED, L))"

definition sl_lockout_succeed :: "sl_lockout ptr \<Rightarrow> bytes ptr \<Rightarrow> sl_lockout ptr" where
  "sl_lockout_succeed L key =
     (case (L, key) of
        (Some l, Some k) \<Rightarrow>
          (case lo_find_or_create False l k False of
             (None, _) \<Rightarrow> L
           | (Some e, l1) \<Rightarrow> Some (lo_write (e\<lparr>le_fails := 0, le_locked_until_ms := 0\<rparr>) l1))
      | _ \<Rightarrow> L)"

definition sl_lockout_size :: "sl_lockout ptr \<Rightarrow> nat" where
  "sl_lockout_size L = (case L of None \<Rightarrow> 0 | Some l \<Rightarrow> lo_count l)"

subsection \<open>Connection limits\<close>

record ip_entry =
  ie_ip :: bytes
  ie_half_open :: u32
  ie_established :: u32
  ie_oldest_half_open_ms :: u64

record sl_dos_guard =
  dg_max_per_ip :: u32
  dg_max_global :: u32
  dg_half_open_timeout_ms :: u32
  dg_global_half_open :: u32
  dg_global_established :: u32
  dg_buckets :: "ip_entry list list"

definition dg_find_or_create :: "bool \<Rightarrow> sl_dos_guard \<Rightarrow> bytes \<Rightarrow> bool \<Rightarrow> ip_entry ptr \<times> sl_dos_guard" where
  "dg_find_or_create alloc_ok g ip create =
     (case tbl_find ie_ip (dg_buckets g) ip of
        Some e \<Rightarrow> (Some e, g)
      | None \<Rightarrow>
          if \<not> create then (NULL, g)
          else if \<not> alloc_ok then (NULL, g)
          else let ne = \<lparr>ie_ip = ip, ie_half_open = 0, ie_established = 0, ie_oldest_half_open_ms = 0\<rparr>
               in (Some ne, g\<lparr>dg_buckets := tbl_cons ie_ip ne (dg_buckets g)\<rparr>))"

definition dg_write :: "ip_entry \<Rightarrow> sl_dos_guard \<Rightarrow> sl_dos_guard" where
  "dg_write e g = g\<lparr>dg_buckets := tbl_set ie_ip e (dg_buckets g)\<rparr>"

definition sl_dos_guard_new :: "bool \<Rightarrow> u32 \<Rightarrow> u32 \<Rightarrow> u32 \<Rightarrow> sl_dos_guard ptr" where
  "sl_dos_guard_new alloc_ok max_per_ip max_global half_open_timeout_ms =
     (if max_per_ip = 0 \<or> max_global = 0 \<or> half_open_timeout_ms = 0 then NULL
      else if \<not> alloc_ok then NULL
      else Some \<lparr>dg_max_per_ip = max_per_ip, dg_max_global = max_global,
                 dg_half_open_timeout_ms = half_open_timeout_ms, dg_global_half_open = 0,
                 dg_global_established = 0, dg_buckets = replicate 1024 []\<rparr>)"

definition sl_dos_guard_admit ::
  "bool \<Rightarrow> clock_reading \<Rightarrow> sl_dos_guard ptr \<Rightarrow> bytes ptr \<Rightarrow> bool \<times> sl_dos_guard ptr" where
  "sl_dos_guard_admit alloc_ok ts gp peer_ip =
     (case (gp, peer_ip) of
        (Some g, Some ip) \<Rightarrow>
          if dg_global_half_open g + dg_global_established g \<ge> dg_max_global g then (False, gp)
          else
            (case dg_find_or_create alloc_ok g ip True of
               (None, g1) \<Rightarrow> (False, Some g1)
             | (Some e, g1) \<Rightarrow>
                 if ie_half_open e + ie_established e \<ge> dg_max_per_ip g1 then (False, Some g1)
                 else
                   let e1 = (if ie_half_open e = 0 then e\<lparr>ie_oldest_half_open_ms := now_ms ts\<rparr> else e);
                       e2 = e1\<lparr>ie_half_open := ie_half_open e1 + 1\<rparr>
                   in (True, Some ((dg_write e2 g1)\<lparr>dg_global_half_open := dg_global_half_open g1 + 1\<rparr>)))
      | _ \<Rightarrow> (False, gp))"

definition sl_dos_guard_promote :: "sl_dos_guard ptr \<Rightarrow> bytes ptr \<Rightarrow> sl_dos_guard ptr" where
  "sl_dos_guard_promote gp peer_ip =
     (case (gp, peer_ip) of
        (Some g, Some ip) \<Rightarrow>
          (case dg_find_or_create False g ip False of
             (None, _) \<Rightarrow> gp
           | (Some e, g1) \<Rightarrow>
               if ie_half_open e = 0 then gp
               else Some ((dg_write (e\<lparr>ie_half_open := ie_half_open e - 1, ie_established := ie_established e + 1\<rparr>) g1)
                      \<lparr>dg_global_half_open := dg_global_half_open g1 - 1,
                       dg_global_established := dg_global_established g1 + 1\<rparr>))
      | _ \<Rightarrow> gp)"

definition sl_dos_guard_release :: "sl_dos_guard ptr \<Rightarrow> bytes ptr \<Rightarrow> sl_dos_guard ptr" where
  "sl_dos_guard_release gp peer_ip =
     (case (gp, peer_ip) of
        (Some g, Some ip) \<Rightarrow>
          (case dg_find_or_create False g ip False of
             (None, _) \<Rightarrow> gp
           | (Some e, g1) \<Rightarrow>
               if ie_established e > 0 then
                 Some ((dg_write (e\<lparr>ie_established := ie_established e - 1\<rparr>) g1)
                   \<lparr>dg_global_established := dg_global_established g1 - 1\<rparr>)
               else if ie_half_open e > 0 then
                 Some ((dg_write (e\<lparr>ie_half_open := ie_half_open e - 1\<rparr>) g1)
                   \<lparr>dg_global_half_open := dg_global_half_open g1 - 1\<rparr>)
               else gp)
      | _ \<Rightarrow> gp)"

text \<open>One chain of the sweep: the new chain, the global count and the number reaped.\<close>

fun sweep_chain :: "u64 \<Rightarrow> u32 \<Rightarrow> ip_entry list \<Rightarrow> u32 \<Rightarrow> nat \<Rightarrow> ip_entry list \<times> u32 \<times> nat" where
  "sweep_chain cutoff timeout [] global reaped = ([], global, reaped)"
| "sweep_chain cutoff timeout (e # es) global reaped =
     (if ie_half_open e = 0 then
        let (es', r) = sweep_chain cutoff timeout es global reaped in (e # es', r)
      else if cutoff - ie_oldest_half_open_ms e > ucast timeout then
        let global' = (if ie_half_open e > global then 0 else global - ie_half_open e);
            (es', r) = sweep_chain cutoff timeout es global' (reaped + unat (ie_half_open e))
        in (e\<lparr>ie_half_open := 0\<rparr> # es', r)
      else let (es', r) = sweep_chain cutoff timeout es global reaped in (e # es', r))"

fun sweep_buckets :: "u64 \<Rightarrow> u32 \<Rightarrow> ip_entry list list \<Rightarrow> u32 \<Rightarrow> nat \<Rightarrow> ip_entry list list \<times> u32 \<times> nat" where
  "sweep_buckets cutoff timeout [] global reaped = ([], global, reaped)"
| "sweep_buckets cutoff timeout (b # bs) global reaped =
     (let (b', global', reaped') = sweep_chain cutoff timeout b global reaped;
          (bs', r) = sweep_buckets cutoff timeout bs global' reaped'
      in (b' # bs', r))"

definition sl_dos_guard_sweep :: "clock_reading \<Rightarrow> sl_dos_guard ptr \<Rightarrow> nat \<times> sl_dos_guard ptr" where
  "sl_dos_guard_sweep ts gp =
     (case gp of
        None \<Rightarrow> (0, NULL)
      | Some g \<Rightarrow>
          let (bs, global, reaped) =
                sweep_buckets (now_ms ts) (dg_half_open_timeout_ms g) (dg_buckets g) (dg_global_half_open g) 0
          in (reaped, Some (g\<lparr>dg_buckets := bs, dg_global_half_open := global\<rparr>)))"

definition sl_dos_guard_global_inflight :: "sl_dos_guard ptr \<Rightarrow> u32" where
  "sl_dos_guard_global_inflight gp = (case gp of None \<Rightarrow> 0 | Some g \<Rightarrow> dg_global_half_open g + dg_global_established g)"

definition sl_dos_guard_per_ip :: "sl_dos_guard ptr \<Rightarrow> bytes ptr \<Rightarrow> u32" where
  "sl_dos_guard_per_ip gp peer_ip =
     (case (gp, peer_ip) of
        (Some g, Some ip) \<Rightarrow>
          (case dg_find_or_create False g ip False of
             (None, _) \<Rightarrow> 0 | (Some e, _) \<Rightarrow> ie_half_open e + ie_established e)
      | _ \<Rightarrow> 0)"

subsection \<open>How long a key is locked out\<close>

interpretation lo: map_table le_key "tbl_find le_key" "tbl_put le_key" tbl_total "tbl_ok 1024 le_key"
  by (rule tbl_laws) simp_all

lemma tbl_set_cons:
  assumes "tbl_ok n key bs" "0 < n" "n < 2 ^ 32" "key e = key ne"
  shows "tbl_set key e (tbl_cons key ne bs) = tbl_cons key e bs"
  using tbl_okD(1) [OF assms(1-3), of "key ne"] assms(4) by (simp add: tbl_set_def tbl_cons_def Let_def)

definition lo_view :: "sl_lockout \<Rightarrow> bytes \<Rightarrow> u32 \<times> u64" where
  "lo_view L k =
     (case tbl_find le_key (lo_buckets L) k of None \<Rightarrow> (0, 0) | Some e \<Rightarrow> (le_fails e, le_locked_until_ms e))"

definition lo_ok :: "sl_lockout \<Rightarrow> bool" where
  "lo_ok L \<longleftrightarrow> tbl_ok 1024 le_key (lo_buckets L)"

lemma lo_find_or_create_cases:
  assumes "lo_ok L" "lo_find_or_create a L k c = (Some e, L1)"
  shows "le_key e = k" "(le_fails e, le_locked_until_ms e) = lo_view L k"
    and "le_key e' = k \<Longrightarrow> lo_buckets (lo_write e' L1) = tbl_put le_key e' (lo_buckets L)"
    and "lo_base_lockout_ms L1 = lo_base_lockout_ms L" "lo_cap_lockout_ms L1 = lo_cap_lockout_ms L"
      "lo_fail_threshold L1 = lo_fail_threshold L"
  using assms tbl_set_cons [of 1024 le_key "lo_buckets L" e' e]
  by (auto simp: lo_find_or_create_def lo_view_def lo_write_def lo_ok_def tbl_put_def Let_def
      split: option.splits if_splits dest: lo.lookup_key)

definition fail_view :: "sl_lockout \<Rightarrow> clock_reading \<Rightarrow> u32 \<times> u64 \<Rightarrow> u32 \<times> u64" where
  "fail_view L ts v =
     (let f = fst v + 1 in (f, if f \<ge> lo_fail_threshold L then now_ms ts + lockout_window L f else snd v))"

lemma lo_write_params [simp]:
  "lo_base_lockout_ms (lo_write e L) = lo_base_lockout_ms L" "lo_cap_lockout_ms (lo_write e L) = lo_cap_lockout_ms L"
  "lo_fail_threshold (lo_write e L) = lo_fail_threshold L"
  by (simp_all add: lo_write_def)

lemma lo_put_view:
  assumes "lo_ok L" "lo_buckets L' = tbl_put le_key e (lo_buckets L)"
  shows "lo_ok L'" "lo_view L' k = (if k = le_key e then (le_fails e, le_locked_until_ms e) else lo_view L k)"
  using assms lo.put_invar [of "lo_buckets L" e] lo.lookup_put [of "lo_buckets L" e k]
  by (simp_all add: lo_ok_def lo_view_def)

text \<open>The parameters of a lockout do not change.\<close>

definition lo_same :: "sl_lockout \<Rightarrow> sl_lockout \<Rightarrow> bool" where
  "lo_same L L' \<longleftrightarrow> lo_base_lockout_ms L' = lo_base_lockout_ms L \<and> lo_cap_lockout_ms L' = lo_cap_lockout_ms L
     \<and> lo_fail_threshold L' = lo_fail_threshold L"

lemma lo_same_window: "lo_same L L' \<Longrightarrow> lockout_window L' f = lockout_window L f"
  by (simp add: lo_same_def lockout_window_def Let_def)

lemma sl_lockout_fail_view:
  assumes "lo_ok L" "sl_lockout_fail True ts (Some L) (Some k) = (st, Some L')"
  shows "lo_ok L' \<and> lo_same L L' \<and> (\<forall>k'. lo_view L' k' = (if k' = k then fail_view L ts (lo_view L k) else lo_view L k'))"
proof -
  obtain e L1 where c: "lo_find_or_create True L k True = (Some e, L1)"
    by (cases "tbl_find le_key (lo_buckets L) k") (simp_all add: lo_find_or_create_def Let_def)
  note f = lo_find_or_create_cases [OF assms(1) c]
  have same: "lo_same L L1" using f(4-6) by (simp add: lo_same_def)
  define e1 where "e1 = e\<lparr>le_fails := le_fails e + 1\<rparr>"
  define e2 where "e2 = (if le_fails e1 \<ge> lo_fail_threshold L then e1\<lparr>le_locked_until_ms := now_ms ts + lockout_window L (le_fails e1)\<rparr> else e1)"
  have L': "L' = lo_write e2 L1"
    using assms(2) c same by (auto simp: sl_lockout_fail_def e1_def e2_def Let_def f(6) lo_same_window split: if_splits)
  have e2: "le_key e2 = k" "(le_fails e2, le_locked_until_ms e2) = fail_view L ts (lo_view L k)"
    using f(1) by (simp_all add: e2_def e1_def fail_view_def Let_def f(2) [symmetric])
  note v = lo_put_view [OF assms(1) f(3) [OF e2(1)], folded L']
  from same L' have "lo_same L L'" by (simp add: lo_same_def)
  with v e2 show ?thesis by simp
qed

lemma sl_lockout_succeed_view:
  assumes "lo_ok L" "sl_lockout_succeed (Some L) (Some k) = Some L'"
  shows "lo_ok L' \<and> lo_same L L' \<and> (\<forall>k'. lo_view L' k' = (if k' = k then (0, 0) else lo_view L k'))"
proof (cases "lo_find_or_create False L k False")
  case (Pair r L1)
  show ?thesis
  proof (cases r)
    case None
    with Pair assms have "L' = L" "lo_view L k = (0, 0)"
      by (auto simp: sl_lockout_succeed_def lo_find_or_create_def lo_view_def split: option.splits)
    with assms(1) show ?thesis by (simp add: lo_same_def)
  next
    case (Some e)
    note f = lo_find_or_create_cases [OF assms(1) Pair [unfolded Some]]
    have L': "L' = lo_write (e\<lparr>le_fails := 0, le_locked_until_ms := 0\<rparr>) L1"
      using assms(2) Pair Some by (simp add: sl_lockout_succeed_def)
    note v = lo_put_view [OF assms(1) f(3), of "e\<lparr>le_fails := 0, le_locked_until_ms := 0\<rparr>", folded L']
    with f(1,4-6) L' show ?thesis by (simp add: lo_same_def)
  qed
qed

datatype lo_op = LoFail clock_reading bytes | LoSucceed bytes

fun lo_key :: "lo_op \<Rightarrow> bytes" where
  "lo_key (LoFail ts k) = k"
| "lo_key (LoSucceed k) = k"

fun lo_step :: "lo_op \<Rightarrow> sl_lockout \<Rightarrow> sl_lockout" where
  "lo_step (LoFail ts k) L = the (snd (sl_lockout_fail True ts (Some L) (Some k)))"
| "lo_step (LoSucceed k) L = the (sl_lockout_succeed (Some L) (Some k))"

text \<open>
  The history of one key in numbers: the failures since the last success, and the time until
  which the key is locked out.
\<close>

fun lo_hist :: "nat \<Rightarrow> nat \<Rightarrow> nat \<Rightarrow> lo_op \<Rightarrow> nat \<times> nat \<Rightarrow> nat \<times> nat" where
  "lo_hist base cap threshold (LoFail ts k) (n, until) =
     (n + 1, if n + 1 \<ge> threshold then unat (now_ms ts) + min cap (base * 2 ^ min 16 (n + 1 - threshold)) else until)"
| "lo_hist base cap threshold (LoSucceed k) (n, until) = (0, 0)"

lemma lockout_window_unat:
  assumes "lo_fail_threshold L \<le> f"
  shows "unat (lockout_window L f) = min (unat (lo_cap_lockout_ms L))
    (unat (lo_base_lockout_ms L) * 2 ^ min 16 (unat f - unat (lo_fail_threshold L)))"
proof -
  define over where "over = f - lo_fail_threshold L"
  define s where "s = (if over < 16 then unat over else 16)"
  have o: "unat over = unat f - unat (lo_fail_threshold L)" using assms by (simp add: over_def unat_sub)
  have s: "s = min 16 (unat over)" by (auto simp: s_def word_less_nat_alt)
  then have "(2 :: nat) ^ s \<le> 2 ^ 16" by (intro power_increasing) auto
  then have lt: "unat (lo_base_lockout_ms L) * 2 ^ s < 2 ^ 64"
    using u32_less [of "lo_base_lockout_ms L"] mult_le_mono [of "unat (lo_base_lockout_ms L)" 4294967295 "2 ^ s" "2 ^ 16"] by simp
  have "unat (push_bit s (ucast (lo_base_lockout_ms L)) :: u64) = unat (lo_base_lockout_ms L) * 2 ^ s"
    unfolding unsigned_push_bit_eq using lt by (simp add: push_bit_eq_mult take_bit_nat_eq_self)
  moreover have "lockout_window L f =
      (let dur = push_bit s (ucast (lo_base_lockout_ms L) :: u64)
       in if dur > ucast (lo_cap_lockout_ms L) then ucast (lo_cap_lockout_ms L) else dur)"
    by (simp add: lockout_window_def Let_def s_def over_def)
  ultimately have "unat (lockout_window L f) = min (unat (lo_cap_lockout_ms L)) (unat (lo_base_lockout_ms L) * 2 ^ s)"
    by (simp add: Let_def word_less_nat_alt min_def)
  then show ?thesis by (simp only: s o)
qed

lemma unat_plus_small: "unat a + unat b < 2 ^ 64 \<Longrightarrow> unat (a + b :: u64) = unat a + unat b"
  by (simp add: unat_word_ariths)

definition lo_rep :: "u32 \<times> u64 \<Rightarrow> nat \<times> nat \<Rightarrow> bool" where
  "lo_rep v h \<longleftrightarrow> unat (fst v) = fst h \<and> unat (snd v) = snd h"

lemma fail_view_rep:
  assumes "lo_rep v h" "fst h + 1 < 2 ^ 32" "unat (now_ms ts) + unat (lo_cap_lockout_ms L) < 2 ^ 64"
  shows "lo_rep (fail_view L ts v)
    (lo_hist (unat (lo_base_lockout_ms L)) (unat (lo_cap_lockout_ms L)) (unat (lo_fail_threshold L)) (LoFail ts k) h)"
proof -
  obtain n u where h: "h = (n, u)" by fastforce
  have f: "unat (fst v + 1) = n + 1" using assms(1,2) h by (simp add: lo_rep_def unat_word_ariths)
  have thr: "lo_fail_threshold L \<le> fst v + 1 \<longleftrightarrow> unat (lo_fail_threshold L) \<le> n + 1" by (simp add: word_le_nat_alt f)
  have "unat (now_ms ts + lockout_window L (fst v + 1)) =
      unat (now_ms ts) + min (unat (lo_cap_lockout_ms L)) (unat (lo_base_lockout_ms L) * 2 ^ min 16 (n + 1 - unat (lo_fail_threshold L)))"
    if "lo_fail_threshold L \<le> fst v + 1"
  proof -
    note w = lockout_window_unat [OF that, unfolded f]
    then have "unat (now_ms ts) + unat (lockout_window L (fst v + 1)) < 2 ^ 64" using assms(3) by linarith
    with w show ?thesis by (simp add: unat_plus_small del: power_numeral)
  qed
  with assms(1) f thr h show ?thesis by (auto simp: lo_rep_def fail_view_def Let_def)
qed

lemma sl_lockout_total:
  "\<exists>st L'. sl_lockout_fail a ts (Some L) (Some k) = (st, Some L')"
  "\<exists>L'. sl_lockout_succeed (Some L) (Some k) = Some L'"
  by (auto simp: sl_lockout_fail_def sl_lockout_succeed_def Let_def split: prod.split option.split)

lemma lo_run_rep:
  assumes "lo_ok L" "\<forall>k. lo_rep (lo_view L k) (hs k) \<and> fst (hs k) + length ops < 2 ^ 32"
    and "\<forall>op \<in> set ops. \<forall>ts k. op = LoFail ts k \<longrightarrow> unat (now_ms ts) + unat (lo_cap_lockout_ms L) < 2 ^ 64"
  shows "lo_rep (lo_view (fold lo_step ops L) k)
    (fold (lo_hist (unat (lo_base_lockout_ms L)) (unat (lo_cap_lockout_ms L)) (unat (lo_fail_threshold L)))
      (filter (\<lambda>op. lo_key op = k) ops) (hs k))"
  using assms
proof (induction ops arbitrary: L hs)
  case Nil
  then show ?case by simp
next
  case (Cons op ops)
  let ?h = "lo_hist (unat (lo_base_lockout_ms L)) (unat (lo_cap_lockout_ms L)) (unat (lo_fail_threshold L))"
  define L1 where "L1 = lo_step op L"
  define hs1 where "hs1 = hs(lo_key op := ?h op (hs (lo_key op)))"
  have 1: "lo_ok L1 \<and> lo_same L L1 \<and> (\<forall>k. lo_rep (lo_view L1 k) (hs1 k))"
  proof (cases op)
    case (LoFail ts k)
    obtain st L' where f: "sl_lockout_fail True ts (Some L) (Some k) = (st, Some L')"
      using sl_lockout_total(1) by blast
    then have "L1 = L'" by (simp add: L1_def LoFail)
    moreover have "lo_rep (fail_view L ts (lo_view L k)) (?h op (hs k))"
    proof -
      have "lo_rep (lo_view L k) (hs k)" "fst (hs k) + 1 < 2 ^ 32" using Cons.prems(2) [rule_format, of k] by simp_all
      moreover have "unat (now_ms ts) + unat (lo_cap_lockout_ms L) < 2 ^ 64" using Cons.prems(3) LoFail by simp
      ultimately show ?thesis unfolding LoFail by (rule fail_view_rep)
    qed
    ultimately show ?thesis using sl_lockout_fail_view [OF Cons.prems(1) f] Cons.prems(2) LoFail by (simp add: hs1_def)
  next
    case (LoSucceed k)
    obtain L' where f: "sl_lockout_succeed (Some L) (Some k) = Some L'"
      using sl_lockout_total(2) by blast
    then have "L1 = L'" by (simp add: L1_def LoSucceed)
    then show ?thesis using sl_lockout_succeed_view [OF Cons.prems(1) f] Cons.prems(2) LoSucceed
      by (cases "hs k") (simp add: hs1_def lo_rep_def)
  qed
  have len: "fst (hs1 k) + length ops < 2 ^ 32" for k
    using Cons.prems(2) [rule_format, of k] by (cases op; cases "hs k") (auto simp: hs1_def)
  have p: "lo_base_lockout_ms L1 = lo_base_lockout_ms L" "lo_cap_lockout_ms L1 = lo_cap_lockout_ms L"
    "lo_fail_threshold L1 = lo_fail_threshold L" using 1 by (simp_all add: lo_same_def)
  have "lo_rep (lo_view (fold lo_step ops L1) k) (fold ?h (filter (\<lambda>op. lo_key op = k) ops) (hs1 k))"
    using Cons.IH [of L1 hs1] 1 len Cons.prems(3) by (simp add: p)
  then show ?case by (cases "lo_key op = k") (auto simp: hs1_def simp flip: L1_def)
qed

text \<open>
  C38. The lockout of a key depends on its own history alone, hash collisions and all: after any
  failures and successes of any keys, a key is blocked exactly until the time of its last failure
  plus the base window doubled for each failure beyond the threshold, at most 16 times and at most
  the cap, counting the failures since its last success; below the threshold it is not blocked.
\<close>

theorem lockout_backoff:
  assumes "sl_lockout_new True base cap threshold = Some L" "length ops < 2 ^ 32"
    and "\<forall>op \<in> set ops. \<forall>ts k. op = LoFail ts k \<longrightarrow> unat (now_ms ts) + unat cap < 2 ^ 64"
  shows "sl_lockout_check ts (Some (fold lo_step ops L)) (Some k) =
    (if unat (now_ms ts) < snd (fold (lo_hist (unat base) (unat cap) (unat threshold)) (filter (\<lambda>op. lo_key op = k) ops) (0, 0))
     then SL_LOCKOUT_BLOCKED else SL_LOCKOUT_ALLOW)"
proof -
  have L: "lo_ok L" "\<And>k. lo_view L k = (0, 0)" "lo_base_lockout_ms L = base" "lo_cap_lockout_ms L = cap"
      "lo_fail_threshold L = threshold"
    using assms(1) tbl_empty(1) [of 1024 le_key]
    by (auto simp: sl_lockout_new_def lo_ok_def lo_view_def tbl_empty(2) split: if_splits)
  have "lo_rep (lo_view (fold lo_step ops L) k)
      (fold (lo_hist (unat base) (unat cap) (unat threshold)) (filter (\<lambda>op. lo_key op = k) ops) (0, 0))"
    using lo_run_rep [of L "\<lambda>_. (0, 0)" ops k] L assms(2,3) by (simp add: lo_rep_def)
  then show ?thesis
    by (auto simp: sl_lockout_check_def lo_find_or_create_def lo_view_def lo_rep_def word_less_nat_alt split: option.splits)
qed

theorem lockout_backoff_witness:
  "\<exists>L. sl_lockout_new True 100 1000 2 = Some L
     \<and> sl_lockout_check (Some (5, 0)) (Some (fold lo_step [LoFail (Some (4, 0)) [65], LoFail (Some (4, 900000000)) [65], LoFail None [66]] L)) (Some [65]) = SL_LOCKOUT_ALLOW
     \<and> sl_lockout_check (Some (5, 0)) (Some (fold lo_step [LoFail (Some (4, 0)) [65], LoFail (Some (4, 900000000)) [65], LoFail (Some (4, 950000000)) [65]] L)) (Some [65]) = SL_LOCKOUT_BLOCKED"
proof -
  obtain L where n: "sl_lockout_new True 100 1000 2 = Some L" by (simp add: sl_lockout_new_def)
  show ?thesis
    using n lockout_backoff [OF n, of "[LoFail (Some (4, 0)) [65], LoFail (Some (4, 900000000)) [65], LoFail None [66]]" "Some (5, 0)" "[65]"]
      lockout_backoff [OF n, of "[LoFail (Some (4, 0)) [65], LoFail (Some (4, 900000000)) [65], LoFail (Some (4, 950000000)) [65]]" "Some (5, 0)" "[65]"]
    by (auto simp: now_ms_def)
qed

subsection \<open>The connection limits hold\<close>

interpretation dg: map_table ie_ip "tbl_find ie_ip" "tbl_put ie_ip" tbl_total "tbl_ok 1024 ie_ip"
  by (rule tbl_laws) simp_all

abbreviation (input) half :: "ip_entry \<Rightarrow> nat" where "half e \<equiv> unat (ie_half_open e)"
abbreviation (input) estab :: "ip_entry \<Rightarrow> nat" where "estab e \<equiv> unat (ie_established e)"

definition dg_entry :: "sl_dos_guard \<Rightarrow> bytes \<Rightarrow> ip_entry" where
  "dg_entry g ip =
     (case tbl_find ie_ip (dg_buckets g) ip of
        None \<Rightarrow> \<lparr>ie_ip = ip, ie_half_open = 0, ie_established = 0, ie_oldest_half_open_ms = 0\<rparr> | Some e \<Rightarrow> e)"

definition dg_inv :: "sl_dos_guard \<Rightarrow> bool" where
  "dg_inv g \<longleftrightarrow> tbl_ok 1024 ie_ip (dg_buckets g)
     \<and> tbl_total (\<lambda>e. half e) (dg_buckets g) = unat (dg_global_half_open g)
     \<and> tbl_total (\<lambda>e. estab e) (dg_buckets g) = unat (dg_global_established g)
     \<and> unat (dg_global_half_open g) + unat (dg_global_established g) \<le> unat (dg_max_global g)
     \<and> (\<forall>ip. half (dg_entry g ip) + estab (dg_entry g ip) \<le> unat (dg_max_per_ip g))"

definition dg_same :: "sl_dos_guard \<Rightarrow> sl_dos_guard \<Rightarrow> bool" where
  "dg_same g g' \<longleftrightarrow> dg_max_per_ip g' = dg_max_per_ip g \<and> dg_max_global g' = dg_max_global g
     \<and> dg_half_open_timeout_ms g' = dg_half_open_timeout_ms g"

lemma dg_entry_ip: "ie_ip (dg_entry g ip) = ip"
  by (auto simp: dg_entry_def split: option.split dest: dg.lookup_key)

lemma dg_put_inv:
  assumes "dg_inv g" "dg_buckets g' = tbl_put ie_ip e (dg_buckets g)" "dg_same g g'"
    and "unat (dg_global_half_open g') + half (dg_entry g (ie_ip e)) = unat (dg_global_half_open g) + half e"
    and "unat (dg_global_established g') + estab (dg_entry g (ie_ip e)) = unat (dg_global_established g) + estab e"
    and "unat (dg_global_half_open g') + unat (dg_global_established g') \<le> unat (dg_max_global g)"
    and "half e + estab e \<le> unat (dg_max_per_ip g)"
  shows "dg_inv g'"
proof -
  let ?bs = "dg_buckets g"
  have ok: "tbl_ok 1024 ie_ip ?bs" using assms(1) by (simp add: dg_inv_def)
  have "tbl_total (\<lambda>e. half e) (dg_buckets g') + half (dg_entry g (ie_ip e)) = tbl_total (\<lambda>e. half e) ?bs + half e"
    "tbl_total (\<lambda>e. estab e) (dg_buckets g') + estab (dg_entry g (ie_ip e)) = tbl_total (\<lambda>e. estab e) ?bs + estab e"
    using dg.total_put [OF ok, of "\<lambda>e. half e" e] dg.total_put [OF ok, of "\<lambda>e. estab e" e]
    by (simp_all add: assms(2) dg_entry_def split: option.splits)
  moreover have "dg_entry g' ip = (if ip = ie_ip e then e else dg_entry g ip)" for ip
    using dg.lookup_put [OF ok, of e ip] by (simp add: dg_entry_def assms(2))
  moreover have "tbl_ok 1024 ie_ip (dg_buckets g')" using dg.put_invar [OF ok] assms(2) by simp
  ultimately show ?thesis using assms by (auto simp: dg_inv_def dg_same_def)
qed

lemma dg_find_cases:
  assumes "dg_inv g" "dg_find_or_create a g ip c = (r, g1)"
  shows "r = None \<and> g1 = g \<or> (\<exists>e. r = Some e \<and> e = dg_entry g ip \<and> dg_same g g1
      \<and> dg_global_half_open g1 = dg_global_half_open g \<and> dg_global_established g1 = dg_global_established g
      \<and> (g1 = g \<or> c \<and> dg_buckets g1 = tbl_put ie_ip e (dg_buckets g))
      \<and> (\<forall>e'. ie_ip e' = ip \<longrightarrow> dg_buckets (dg_write e' g1) = tbl_put ie_ip e' (dg_buckets g)))"
proof (cases "tbl_find ie_ip (dg_buckets g) ip")
  case None
  then show ?thesis
    using assms tbl_set_cons [of 1024 ie_ip "dg_buckets g"]
    by (auto simp: dg_find_or_create_def dg_entry_def dg_inv_def dg_write_def dg_same_def tbl_put_def Let_def split: if_splits)
next
  case (Some e)
  then show ?thesis
    using assms dg.lookup_key [OF Some]
    by (auto simp: dg_find_or_create_def dg_entry_def dg_write_def dg_same_def tbl_put_def)
qed

lemma dg_counts_less:
  assumes "dg_inv g"
  shows "half (dg_entry g ip) \<le> unat (dg_global_half_open g)" "estab (dg_entry g ip) \<le> unat (dg_global_established g)"
  using assms dg.total_ge [of "dg_buckets g" ip _ "\<lambda>e. half e"] dg.total_ge [of "dg_buckets g" ip _ "\<lambda>e. estab e"]
  by (auto simp: dg_inv_def dg_entry_def split: option.split)

lemma unat_plus_u32: "unat a + unat b < 2 ^ 32 \<Longrightarrow> unat (a + b :: u32) = unat a + unat b"
  by (simp add: unat_word_ariths)

lemma dg_sums:
  assumes "dg_inv g"
  shows "unat (sl_dos_guard_global_inflight (Some g)) = unat (dg_global_half_open g) + unat (dg_global_established g)"
    and "unat (sl_dos_guard_per_ip (Some g) (Some ip)) = half (dg_entry g ip) + estab (dg_entry g ip)"
proof -
  from assms have "unat (dg_global_half_open g) + unat (dg_global_established g) < 2 ^ 32"
    using u32_less [of "dg_max_global g"] by (simp add: dg_inv_def)
  then show "unat (sl_dos_guard_global_inflight (Some g)) = unat (dg_global_half_open g) + unat (dg_global_established g)"
    by (simp add: sl_dos_guard_global_inflight_def unat_plus_u32 del: power_numeral)
  from assms have "half (dg_entry g ip) + estab (dg_entry g ip) < 2 ^ 32"
    using u32_less [of "dg_max_per_ip g"] by (auto simp: dg_inv_def intro: order_le_less_trans)
  then show "unat (sl_dos_guard_per_ip (Some g) (Some ip)) = half (dg_entry g ip) + estab (dg_entry g ip)"
    by (cases "tbl_find ie_ip (dg_buckets g) ip")
      (simp_all add: sl_dos_guard_per_ip_def dg_find_or_create_def dg_entry_def unat_plus_u32 del: power_numeral)
qed

lemma dg_same_refl [simp]: "dg_same g g"
  by (simp add: dg_same_def)

lemma sl_dos_guard_admit_inv:
  assumes inv: "dg_inv g" and a: "sl_dos_guard_admit alloc ts (Some g) (Some ip) = (ok, gp)"
  shows "\<exists>g'. gp = Some g' \<and> dg_inv g' \<and> dg_same g g' \<and>
    (ok \<longrightarrow> unat (sl_dos_guard_global_inflight (Some g)) < unat (dg_max_global g)
        \<and> unat (sl_dos_guard_per_ip (Some g) (Some ip)) < unat (dg_max_per_ip g)
        \<and> half (dg_entry g' ip) = half (dg_entry g ip) + 1) \<and>
    (\<not> ok \<longrightarrow> \<not> alloc \<or> unat (sl_dos_guard_global_inflight (Some g)) \<ge> unat (dg_max_global g)
        \<or> unat (sl_dos_guard_per_ip (Some g) (Some ip)) \<ge> unat (dg_max_per_ip g))"
proof (cases "dg_global_half_open g + dg_global_established g \<ge> dg_max_global g")
  case True
  with inv a dg_sums(1) [OF inv] show ?thesis
    by (auto simp: sl_dos_guard_admit_def sl_dos_guard_global_inflight_def word_le_nat_alt)
next
  case room: False
  obtain r g1 where f: "dg_find_or_create alloc g ip True = (r, g1)" by fastforce
  from room have glob: "unat (sl_dos_guard_global_inflight (Some g)) < unat (dg_max_global g)"
    by (simp add: sl_dos_guard_global_inflight_def word_less_nat_alt not_le)
  show ?thesis
  proof (cases r)
    case None
    with a f room have "ok = False" "gp = Some g1" "\<not> alloc" "g1 = g"
      by (auto simp: sl_dos_guard_admit_def dg_find_or_create_def Let_def split: option.splits if_splits)
    with inv show ?thesis by simp
  next
    case (Some e)
    with dg_find_cases [OF inv f] have e: "e = dg_entry g ip" "dg_same g g1"
        "dg_global_half_open g1 = dg_global_half_open g" "dg_global_established g1 = dg_global_established g"
        "g1 = g \<or> dg_buckets g1 = tbl_put ie_ip e (dg_buckets g)"
        "\<And>e'. ie_ip e' = ip \<Longrightarrow> dg_buckets (dg_write e' g1) = tbl_put ie_ip e' (dg_buckets g)" by auto
    have per: "unat (ie_half_open e + ie_established e) = unat (sl_dos_guard_per_ip (Some g) (Some ip))"
      by (simp add: e(1) sl_dos_guard_per_ip_def dg_find_or_create_def dg_entry_def split: option.split)
    show ?thesis
    proof (cases "ie_half_open e + ie_established e \<ge> dg_max_per_ip g1")
      case True
      with a f room Some have "ok = False" "gp = Some g1" by (auto simp: sl_dos_guard_admit_def)
      moreover have "dg_inv g1"
        using e(5) dg_put_inv [OF inv _ e(2), of e] inv e(1,3,4) by (auto simp: dg_entry_ip dg_inv_def)
      ultimately show ?thesis using True per e(2) by (simp add: word_le_nat_alt dg_same_def)
    next
      case False
      define e1 where "e1 = (if ie_half_open e = 0 then e\<lparr>ie_oldest_half_open_ms := now_ms ts\<rparr> else e)"
      define e2 where "e2 = e1\<lparr>ie_half_open := ie_half_open e1 + 1\<rparr>"
      define g' where "g' = (dg_write e2 g1)\<lparr>dg_global_half_open := dg_global_half_open g1 + 1\<rparr>"
      have ok: "ok" "gp = Some g'" using a f room Some False by (auto simp: sl_dos_guard_admit_def e1_def e2_def g'_def Let_def)
      have lt: "half e + estab e < unat (dg_max_per_ip g)"
        using False per e(1,2) dg_sums(2) [OF inv, of ip] by (simp add: word_le_nat_alt dg_same_def)
      have h: "half e2 = half e + 1" "estab e2 = estab e" "ie_ip e2 = ip"
        using lt u32_less [of "dg_max_per_ip g"] by (auto simp: e2_def e1_def e(1) dg_entry_ip unat_word_ariths)
      have gl: "unat (dg_global_half_open g') = unat (dg_global_half_open g) + 1" "dg_global_established g' = dg_global_established g"
        using glob dg_sums(1) [OF inv] u32_less [of "dg_max_global g"] by (simp_all add: g'_def e(3,4) unat_word_ariths dg_write_def)
      have b: "dg_buckets g' = tbl_put ie_ip e2 (dg_buckets g)" using e(6) [OF h(3)] by (simp add: g'_def)
      have same: "dg_same g g'" using e(2) by (simp add: g'_def dg_same_def dg_write_def)
      have "dg_inv g'"
        using gl h lt glob dg_sums(1) [OF inv] by (intro dg_put_inv [OF inv b same]) (simp_all add: e(1))
      moreover have "dg_entry g' ip = e2"
        using b h(3) dg.lookup_put [of "dg_buckets g" e2 ip] inv by (simp add: dg_entry_def dg_inv_def)
      ultimately show ?thesis using ok same glob lt h dg_sums(2) [OF inv, of ip] e(1) by simp
    qed
  qed
qed

lemma unat_pred_u32: "(a :: u32) \<noteq> 0 \<Longrightarrow> unat (a - 1) = unat a - 1"
  by (simp add: unat_minus_one)

lemma unat_u32_pos: "(a :: u32) \<noteq> 0 \<Longrightarrow> 0 < unat a"
  by (simp add: unat_gt_0)

lemma sl_dos_guard_promote_inv:
  assumes inv: "dg_inv g"
  shows "\<exists>g'. sl_dos_guard_promote (Some g) (Some ip) = Some g' \<and> dg_inv g' \<and> dg_same g g'"
proof -
  obtain r g1 where f: "dg_find_or_create False g ip False = (r, g1)" by fastforce
  show ?thesis
  proof (cases "\<exists>e. r = Some e \<and> ie_half_open e \<noteq> 0")
    case True
    then obtain e where r: "r = Some e" "ie_half_open e \<noteq> 0" by blast
    with dg_find_cases [OF inv f] have e: "e = dg_entry g ip" "g1 = g"
        "\<And>e'. ie_ip e' = ip \<Longrightarrow> dg_buckets (dg_write e' g) = tbl_put ie_ip e' (dg_buckets g)" by auto
    define e2 where "e2 = e\<lparr>ie_half_open := ie_half_open e - 1, ie_established := ie_established e + 1\<rparr>"
    define g' where "g' = (dg_write e2 g)\<lparr>dg_global_half_open := dg_global_half_open g - 1,
      dg_global_established := dg_global_established g + 1\<rparr>"
    have g': "sl_dos_guard_promote (Some g) (Some ip) = Some g'"
      using f r e(2) by (simp add: sl_dos_guard_promote_def e2_def g'_def)
    note c = dg_counts_less [OF inv, of ip] and pos = unat_u32_pos [OF r(2)]
    have m: "unat (dg_global_half_open g) + unat (dg_global_established g) \<le> unat (dg_max_global g)"
      "half e + estab e \<le> unat (dg_max_per_ip g)" using inv by (auto simp: dg_inv_def e(1))
    have gnz: "dg_global_half_open g \<noteq> 0" using c(1) pos e(1) by auto
    have h: "half e2 = half e - 1" "estab e2 = estab e + 1" "ie_ip e2 = ip"
      using m(2) pos u32_less [of "dg_max_per_ip g"] r(2)
      by (auto simp: e2_def unat_pred_u32 unat_word_ariths e(1) dg_entry_ip)
    have gl: "unat (dg_global_half_open g') = unat (dg_global_half_open g) - 1"
      "unat (dg_global_established g') = unat (dg_global_established g) + 1"
      using m(1) unat_u32_pos [OF gnz] u32_less [of "dg_max_global g"] gnz by (auto simp: g'_def unat_pred_u32 unat_word_ariths)
    have b: "dg_buckets g' = tbl_put ie_ip e2 (dg_buckets g)" "dg_same g g'"
      using e(3) [OF h(3)] by (simp_all add: g'_def dg_same_def dg_write_def)
    have "dg_inv g'"
      using gl h m pos unat_u32_pos [OF gnz] c by (intro dg_put_inv [OF inv b]) (auto simp: e(1))
    with g' b(2) show ?thesis by blast
  next
    case False
    with f have "sl_dos_guard_promote (Some g) (Some ip) = Some g"
      by (auto simp: sl_dos_guard_promote_def split: option.split)
    with inv show ?thesis by auto
  qed
qed

lemma sl_dos_guard_release_inv:
  assumes inv: "dg_inv g"
  shows "\<exists>g'. sl_dos_guard_release (Some g) (Some ip) = Some g' \<and> dg_inv g' \<and> dg_same g g'"
proof -
  obtain r g1 where f: "dg_find_or_create False g ip False = (r, g1)" by fastforce
  note c = dg_counts_less [OF inv, of ip]
  have m: "unat (dg_global_half_open g) + unat (dg_global_established g) \<le> unat (dg_max_global g)"
      "half (dg_entry g ip) + estab (dg_entry g ip) \<le> unat (dg_max_per_ip g)" using inv by (auto simp: dg_inv_def)
  from dg_find_cases [OF inv f] consider (none) "r = None" "g1 = g"
    | (some) e where "r = Some e" "e = dg_entry g ip" "g1 = g"
        "\<And>e'. ie_ip e' = ip \<Longrightarrow> dg_buckets (dg_write e' g) = tbl_put ie_ip e' (dg_buckets g)" by auto
  then show ?thesis
  proof cases
    case none
    with f inv show ?thesis by (simp add: sl_dos_guard_release_def)
  next
    case (some e)
    consider (est) "ie_established e \<noteq> 0" | (half) "ie_established e = 0" "ie_half_open e \<noteq> 0"
      | (zero) "ie_established e = 0" "ie_half_open e = 0" by blast
    then show ?thesis
    proof cases
      case est
      define e2 where "e2 = e\<lparr>ie_established := ie_established e - 1\<rparr>"
      define g' where "g' = (dg_write e2 g)\<lparr>dg_global_established := dg_global_established g - 1\<rparr>"
      have gnz: "dg_global_established g \<noteq> 0" using c(2) unat_u32_pos [OF est] some(2) by auto
      have g': "sl_dos_guard_release (Some g) (Some ip) = Some g'"
        using f some est by (simp add: sl_dos_guard_release_def e2_def g'_def word_gt_0)
      have b: "dg_buckets g' = tbl_put ie_ip e2 (dg_buckets g)" "dg_same g g'" "ie_ip e2 = ip"
        using some(4) [of e2] by (simp_all add: g'_def dg_same_def dg_write_def e2_def some(2) dg_entry_ip)
      have "dg_inv g'"
        using m c unat_u32_pos [OF est] unat_u32_pos [OF gnz] some(2) est gnz b(3)
        by (intro dg_put_inv [OF inv b(1,2)]) (auto simp: g'_def e2_def unat_pred_u32 dg_write_def dg_entry_ip)
      with g' b(2) show ?thesis by blast
    next
      case half
      define e2 where "e2 = e\<lparr>ie_half_open := ie_half_open e - 1\<rparr>"
      define g' where "g' = (dg_write e2 g)\<lparr>dg_global_half_open := dg_global_half_open g - 1\<rparr>"
      have gnz: "dg_global_half_open g \<noteq> 0" using c(1) unat_u32_pos [OF half(2)] some(2) by auto
      have g': "sl_dos_guard_release (Some g) (Some ip) = Some g'"
        using f some half by (simp add: sl_dos_guard_release_def e2_def g'_def word_gt_0)
      have b: "dg_buckets g' = tbl_put ie_ip e2 (dg_buckets g)" "dg_same g g'" "ie_ip e2 = ip"
        using some(4) [of e2] by (simp_all add: g'_def dg_same_def dg_write_def e2_def some(2) dg_entry_ip)
      have "dg_inv g'"
        using m c unat_u32_pos [OF half(2)] unat_u32_pos [OF gnz] some(2) half gnz b(3)
        by (intro dg_put_inv [OF inv b(1,2)]) (auto simp: g'_def e2_def unat_pred_u32 dg_write_def dg_entry_ip)
      with g' b(2) show ?thesis by blast
    next
      case zero
      with f some inv show ?thesis by (simp add: sl_dos_guard_release_def)
    qed
  qed
qed

text \<open>A sweep keeps every entry but the half-open counts it clears.\<close>

definition swept :: "ip_entry \<Rightarrow> ip_entry \<Rightarrow> bool" where
  "swept e e' \<longleftrightarrow> e' = e \<or> e' = e\<lparr>ie_half_open := 0\<rparr>"

lemma sweep_chain_spec:
  "sweep_chain cutoff timeout es gl n = (es', gl', n') \<Longrightarrow> sum_list (map half es) \<le> unat gl \<Longrightarrow>
   list_all2 swept es es' \<and> unat gl' + sum_list (map half es) = unat gl + sum_list (map half es')
   \<and> n' + sum_list (map half es') = n + sum_list (map half es)"
proof (induction es arbitrary: gl n es' gl' n')
  case Nil
  then show ?case by simp
next
  case (Cons e es)
  define reap where "reap \<longleftrightarrow> ie_half_open e \<noteq> 0 \<and> cutoff - ie_oldest_half_open_ms e > ucast timeout"
  define gl1 where "gl1 = (if reap then gl - ie_half_open e else gl)"
  define n1 where "n1 = (if reap then n + half e else n)"
  define e1 where "e1 = (if reap then e\<lparr>ie_half_open := 0\<rparr> else e)"
  have le: "half e + sum_list (map half es) \<le> unat gl" using Cons.prems(2) by simp
  then have "\<not> ie_half_open e > gl" by (simp add: word_less_nat_alt)
  then obtain es1 where r: "sweep_chain cutoff timeout es gl1 n1 = (es1, gl', n')" "es' = e1 # es1"
    using Cons.prems(1) by (auto simp: gl1_def n1_def e1_def reap_def Let_def split: prod.splits if_splits)
  have u: "unat gl1 + half e = unat gl + half e1" "n1 + half e1 = n + half e"
    using le by (auto simp: gl1_def n1_def e1_def unat_sub word_le_nat_alt)
  then have "sum_list (map half es) \<le> unat gl1" using le by linarith
  from Cons.IH [OF r(1) this] u r(2) show ?case by (auto simp: swept_def e1_def)
qed

lemma sweep_buckets_spec:
  "sweep_buckets cutoff timeout bs gl n = (bs', gl', n') \<Longrightarrow> tbl_total (\<lambda>e. half e) bs \<le> unat gl \<Longrightarrow>
   list_all2 (list_all2 swept) bs bs' \<and> unat gl' + tbl_total (\<lambda>e. half e) bs = unat gl + tbl_total (\<lambda>e. half e) bs'
   \<and> n' + tbl_total (\<lambda>e. half e) bs' = n + tbl_total (\<lambda>e. half e) bs"
proof (induction bs arbitrary: gl n bs' gl' n')
  case Nil
  then show ?case by simp
next
  case (Cons b bs)
  obtain b1 gl1 n1 where c: "sweep_chain cutoff timeout b gl n = (b1, gl1, n1)" by (cases "sweep_chain cutoff timeout b gl n")
  obtain bs1 where r: "sweep_buckets cutoff timeout bs gl1 n1 = (bs1, gl', n')" "bs' = b1 # bs1"
    using Cons.prems(1) c by (auto split: prod.splits)
  have t: "tbl_total (\<lambda>e. half e) (b # bs) = sum_list (map half b) + tbl_total (\<lambda>e. half e) bs"
    "tbl_total (\<lambda>e. half e) bs' = sum_list (map half b1) + tbl_total (\<lambda>e. half e) bs1"
    by (simp_all add: tbl_total_def r(2))
  from sweep_chain_spec [OF c] Cons.prems(2) t have s: "list_all2 swept b b1"
      "unat gl1 + sum_list (map half b) = unat gl + sum_list (map half b1)" "n1 + sum_list (map half b1) = n + sum_list (map half b)"
    by auto
  then have "tbl_total (\<lambda>e. half e) bs \<le> unat gl1" using Cons.prems(2) t by linarith
  from Cons.IH [OF r(1) this] s t r(2) show ?case by auto
qed

lemma chain_find_swept:
  "list_all2 swept es es' \<Longrightarrow>
   rel_option swept (chain_find ie_ip ip es) (chain_find ie_ip ip es')"
  by (induction rule: list_all2_induct) (auto simp: swept_def)

lemma swept_keys: "list_all2 swept es es' \<Longrightarrow> map ie_ip es' = map ie_ip es \<and> map estab es' = map estab es"
  by (induction rule: list_all2_induct) (auto simp: swept_def)

lemma swept_table:
  assumes "list_all2 (list_all2 swept) bs bs'" "tbl_ok 1024 ie_ip bs"
  shows "tbl_ok 1024 ie_ip bs'" "tbl_total (\<lambda>e. estab e) bs' = tbl_total (\<lambda>e. estab e) bs"
    and "rel_option swept (tbl_find ie_ip bs ip) (tbl_find ie_ip bs' ip)"
proof -
  have len: "length bs' = length bs" using assms(1) by (simp add: list_all2_lengthD)
  have nth: "list_all2 swept (bs ! i) (bs' ! i)" if "i < length bs" for i using assms(1) that by (simp add: list_all2_nthD)
  have b: "bucket_of bs' k = bucket_of bs k" for k by (simp add: bucket_of_def len)
  have "(\<forall>e \<in> set (bs' ! i). bucket_of bs (ie_ip e) = i) \<longleftrightarrow> (\<forall>e \<in> set (bs ! i). bucket_of bs (ie_ip e) = i)"
    if "i < length bs" for i
  proof -
    have "ie_ip ` set (bs' ! i) = ie_ip ` set (bs ! i)" using swept_keys [OF nth [OF that]] by (metis list.set_map)
    then have "(\<forall>k \<in> ie_ip ` set (bs' ! i). bucket_of bs k = i) \<longleftrightarrow> (\<forall>k \<in> ie_ip ` set (bs ! i). bucket_of bs k = i)" by simp
    then show ?thesis by simp
  qed
  then show "tbl_ok 1024 ie_ip bs'"
    using assms(2) swept_keys [OF nth] by (simp add: tbl_ok_def len b)
  show "tbl_total (\<lambda>e. estab e) bs' = tbl_total (\<lambda>e. estab e) bs"
    using assms(1) by (induction rule: list_all2_induct) (auto simp: tbl_total_def dest: swept_keys)
  show "rel_option swept (tbl_find ie_ip bs ip) (tbl_find ie_ip bs' ip)"
    unfolding tbl_find_def b using tbl_okD(1) [OF assms(2), of ip] nth chain_find_swept by simp
qed

lemma sl_dos_guard_sweep_inv:
  assumes "dg_inv g" "sl_dos_guard_sweep ts (Some g) = (n, gp)"
  shows "\<exists>g'. gp = Some g' \<and> dg_inv g' \<and> dg_same g g'
    \<and> n + unat (dg_global_half_open g') = unat (dg_global_half_open g)"
proof -
  obtain bs gl n' where s: "sweep_buckets (now_ms ts) (dg_half_open_timeout_ms g) (dg_buckets g) (dg_global_half_open g) 0 = (bs, gl, n')"
    by (cases "sweep_buckets (now_ms ts) (dg_half_open_timeout_ms g) (dg_buckets g) (dg_global_half_open g) 0")
  define g' where "g' = g\<lparr>dg_buckets := bs, dg_global_half_open := gl\<rparr>"
  have g': "gp = Some g'" "n = n'" using assms(2) s by (simp_all add: sl_dos_guard_sweep_def g'_def)
  have tot: "tbl_total (\<lambda>e. half e) (dg_buckets g) = unat (dg_global_half_open g)" and ok: "tbl_ok 1024 ie_ip (dg_buckets g)"
    using assms(1) by (simp_all add: dg_inv_def)
  from sweep_buckets_spec [OF s] tot have sw: "list_all2 (list_all2 swept) (dg_buckets g) bs"
      "tbl_total (\<lambda>e. half e) bs = unat gl" "n' + unat gl = unat (dg_global_half_open g)" by auto
  note t = swept_table [OF sw(1) ok]
  have "half (dg_entry g' ip) + estab (dg_entry g' ip) \<le> unat (dg_max_per_ip g')" for ip
  proof -
    have "half (dg_entry g' ip) \<le> half (dg_entry g ip)" "estab (dg_entry g' ip) = estab (dg_entry g ip)"
      using t(3) [of ip] by (auto simp: dg_entry_def g'_def swept_def rel_option_iff split: option.splits)
    moreover have "half (dg_entry g ip) + estab (dg_entry g ip) \<le> unat (dg_max_per_ip g')"
      using assms(1) by (simp add: dg_inv_def g'_def)
    ultimately show ?thesis by linarith
  qed
  moreover have "unat (dg_global_half_open g') + unat (dg_global_established g') \<le> unat (dg_max_global g')"
    using assms(1) sw(3) by (simp add: dg_inv_def g'_def)
  ultimately have "dg_inv g'" using t sw(2) assms(1) by (simp add: dg_inv_def g'_def)
  then show ?thesis using g' sw(3) by (simp add: g'_def dg_same_def)
qed

datatype dg_op = DgAdmit bool clock_reading bytes | DgPromote bytes | DgRelease bytes | DgSweep clock_reading

fun dg_step :: "dg_op \<Rightarrow> sl_dos_guard ptr \<Rightarrow> sl_dos_guard ptr" where
  "dg_step (DgAdmit alloc ts ip) g = snd (sl_dos_guard_admit alloc ts g (Some ip))"
| "dg_step (DgPromote ip) g = sl_dos_guard_promote g (Some ip)"
| "dg_step (DgRelease ip) g = sl_dos_guard_release g (Some ip)"
| "dg_step (DgSweep ts) g = snd (sl_dos_guard_sweep ts g)"

lemma dg_step_inv: "dg_inv g \<Longrightarrow> \<exists>g'. dg_step op (Some g) = Some g' \<and> dg_inv g' \<and> dg_same g g'"
proof (cases op)
  case (DgAdmit alloc ts ip)
  assume inv: "dg_inv g"
  obtain ok gp where "sl_dos_guard_admit alloc ts (Some g) (Some ip) = (ok, gp)" by fastforce
  with sl_dos_guard_admit_inv [OF inv this] show ?thesis using DgAdmit by auto
next
  case (DgSweep ts)
  assume inv: "dg_inv g"
  obtain n gp where "sl_dos_guard_sweep ts (Some g) = (n, gp)" by fastforce
  with sl_dos_guard_sweep_inv [OF inv this] show ?thesis using DgSweep by auto
qed (use sl_dos_guard_promote_inv sl_dos_guard_release_inv in auto)

lemma dg_run_inv: "dg_inv g \<Longrightarrow> \<exists>g'. fold dg_step ops (Some g) = Some g' \<and> dg_inv g' \<and> dg_same g g'"
proof (induction ops arbitrary: g)
  case (Cons op ops)
  from dg_step_inv [OF Cons.prems, of op] obtain g1 where g1: "dg_step op (Some g) = Some g1" "dg_inv g1" "dg_same g g1" by blast
  with Cons.IH [of g1] show ?case by (auto simp: dg_same_def)
qed simp

text \<open>
  C39. The caps of the connection guard hold whatever sequence of calls is made and however the
  clock runs: connections in flight are counted exactly by the entries of the table, never more than
  the global cap, never more than the cap of an address for one address, and no counter wraps. A
  new connection is admitted exactly when both counts are below their caps.
\<close>

theorem dos_guard_caps:
  assumes "sl_dos_guard_new True max_per_ip max_global timeout = Some g0" "fold dg_step ops (Some g0) = Some g"
  shows "unat (sl_dos_guard_global_inflight (Some g)) = tbl_total (\<lambda>e. unat (ie_half_open e) + unat (ie_established e)) (dg_buckets g)
    \<and> unat (sl_dos_guard_global_inflight (Some g)) \<le> unat max_global
    \<and> unat (sl_dos_guard_per_ip (Some g) (Some ip)) \<le> unat max_per_ip
    \<and> (fst (sl_dos_guard_admit True ts (Some g) (Some ip)) \<longleftrightarrow>
         sl_dos_guard_global_inflight (Some g) < max_global \<and> sl_dos_guard_per_ip (Some g) (Some ip) < max_per_ip)"
proof -
  have g0: "dg_inv g0" "dg_max_per_ip g0 = max_per_ip" "dg_max_global g0 = max_global"
    using assms(1) by (auto simp: sl_dos_guard_new_def dg_inv_def dg_entry_def tbl_empty split: if_splits)
  from dg_run_inv [OF g0(1), of ops] assms(2) g0
  have inv: "dg_inv g" and p: "dg_max_per_ip g = max_per_ip" "dg_max_global g = max_global"
    by (auto simp: dg_same_def)
  have "tbl_total (\<lambda>e. half e + estab e) bs = tbl_total (\<lambda>e. half e) bs + tbl_total (\<lambda>e. estab e) bs" for bs
    by (simp add: tbl_total_def sum_list_addf)
  moreover obtain ok gp where a: "sl_dos_guard_admit True ts (Some g) (Some ip) = (ok, gp)" by fastforce
  moreover have "ok \<longleftrightarrow> sl_dos_guard_global_inflight (Some g) < max_global \<and> sl_dos_guard_per_ip (Some g) (Some ip) < max_per_ip"
    using sl_dos_guard_admit_inv [OF inv a] p by (auto simp: word_less_nat_alt)
  ultimately show ?thesis using inv dg_sums [OF inv] p by (simp add: dg_inv_def)
qed

definition dos_example :: "dg_op list" where
  "dos_example = [DgAdmit True (Some (1, 0)) [49], DgPromote [49], DgAdmit True (Some (1, 0)) [50], DgRelease [49]]"

theorem dos_guard_caps_witness:
  "\<exists>g0 g. sl_dos_guard_new True 1 2 100 = Some g0 \<and> fold dg_step dos_example (Some g0) = Some g
     \<and> unat (sl_dos_guard_global_inflight (Some g)) \<le> 2 \<and> unat (sl_dos_guard_per_ip (Some g) (Some [50])) \<le> 1"
proof -
  obtain g0 where g0: "sl_dos_guard_new True 1 2 100 = Some g0" by (simp add: sl_dos_guard_new_def)
  moreover have "dg_inv g0" using g0 by (auto simp: sl_dos_guard_new_def dg_inv_def dg_entry_def tbl_empty split: if_splits)
  then obtain g where g: "fold dg_step dos_example (Some g0) = Some g" using dg_run_inv by blast
  note caps = dos_guard_caps [OF g0 g, of "[50]" None]
  ultimately show ?thesis using g caps [THEN conjunct2, THEN conjunct1] caps [THEN conjunct2, THEN conjunct2, THEN conjunct1] by auto
qed

text \<open>
  A connection whose handshake outlives the sweep is forgotten: promoting it does nothing, and an
  address with a cap of one gets a second connection.
\<close>

lemma swept_connection_uncounted:
  "case fold dg_step [DgAdmit True (Some (1, 0)) [], DgSweep (Some (2, 0)), DgPromote []] (sl_dos_guard_new True 1 2 100) of
     None \<Rightarrow> False
   | Some g \<Rightarrow> sl_dos_guard_per_ip (Some g) (Some []) = 0 \<and> fst (sl_dos_guard_admit True (Some (3, 0)) (Some g) (Some []))"
  by code_simp

end
