(* ===== verification/SL_Puzzle.thy ===== *)
theory SL_Puzzle
  imports SL_Time SL_Keys SL_Rng
begin

text \<open>
  Client puzzles (\<open>sl_pow.c\<close>) and timing padding (\<open>sl_timing_defense.c\<close>): both hash with OpenSSL's SHA-256 and
  draw from the generator, which are parameters.
\<close>


subsection \<open>Client puzzles\<close>

definition sl_pow_make_challenge :: "'g rand_bytes \<Rightarrow> 'g \<Rightarrow> out_ref \<Rightarrow> bytes option \<times> 'g" where
  "sl_pow_make_challenge R g challenge_out = sl_rng_bytes R g (case challenge_out of None \<Rightarrow> NULL | Some _ \<Rightarrow> Some 16)"

text \<open>The shifting loop ends only on a byte that is not zero; \<open>None\<close> is not returning.\<close>

partial_function (option) shift_zeros :: "u32 \<Rightarrow> u8 \<Rightarrow> u32 option" where
  "shift_zeros zeros b = (if b AND 0x80 = 0 then shift_zeros (zeros + 1) (push_bit 1 b) else Some zeros)"

fun zeros_loop :: "u32 \<Rightarrow> bytes \<Rightarrow> u32 option" where
  "zeros_loop zeros [] = Some zeros"
| "zeros_loop zeros (d # digest) = (if d = 0 then zeros_loop (zeros + 8) digest else shift_zeros zeros d)"

definition leading_zero_bits :: "bytes \<Rightarrow> u32 option" where
  "leading_zero_bits digest = zeros_loop 0 digest"

definition sl_pow_verify :: "hash_api \<Rightarrow> bytes ptr \<Rightarrow> bytes ptr \<Rightarrow> u32 \<Rightarrow> bool option" where
  "sl_pow_verify H challenge nonce difficulty_bits =
     (case (challenge, nonce) of
        (Some c, Some n) \<Rightarrow>
          if difficulty_bits > 256 then Some False
          else map_option (\<lambda>zeros. zeros \<ge> difficulty_bits) (leading_zero_bits (sha256 H (take 16 c @ take 8 n)))
      | _ \<Rightarrow> Some False)"

fun pow_loop :: "hash_api \<Rightarrow> bytes \<Rightarrow> u32 \<Rightarrow> u64 \<Rightarrow> u64 \<Rightarrow> nat \<Rightarrow> bytes option option" where
  "pow_loop H c difficulty_bits counter i 0 = Some None"
| "pow_loop H c difficulty_bits counter i (Suc left) =
     (let nonce = pack_u64 (counter + i)
      in case leading_zero_bits (sha256 H (c @ nonce)) of
           None \<Rightarrow> None
         | Some zeros \<Rightarrow>
             if zeros \<ge> difficulty_bits then Some (Some nonce)
             else pow_loop H c difficulty_bits counter (i + 1) left)"

definition sl_pow_solve ::
  "hash_api \<Rightarrow> 'g rand_bytes \<Rightarrow> 'g \<Rightarrow> bytes ptr \<Rightarrow> u32 \<Rightarrow> u64 \<Rightarrow> out_ref \<Rightarrow> (bytes option \<times> 'g) option" where
  "sl_pow_solve H R g challenge difficulty_bits max_iters nonce_out =
     (case challenge of
        None \<Rightarrow> Some (None, g)
      | Some c \<Rightarrow>
          if nonce_out = NULL then Some (None, g)
          else let (r, g') = sl_rng_u64 R g OUT; counter = (case r of None \<Rightarrow> 0 | Some v \<Rightarrow> v)
               in map_option (\<lambda>res. (res, g')) (pow_loop H (take 16 c) difficulty_bits counter 0 (unat max_iters)))"

subsection \<open>Timing padding\<close>

text \<open>Sleeping is the request handed to \<open>nanosleep\<close>, whose result the code ignores.\<close>

definition sl_timing_now_us :: "clock_reading \<Rightarrow> u64" where
  "sl_timing_now_us ts = (case ts of None \<Rightarrow> 0 | Some (sec, nsec) \<Rightarrow> sec * 1000000 + nsec div 1000)"

definition sleep_us :: "u64 \<Rightarrow> (u64 \<times> u64) option" where
  "sleep_us us = (if us = 0 then None else Some (us div 1000000, us mod 1000000 * 1000))"

definition sl_timing_pad_to_floor :: "clock_reading \<Rightarrow> u64 \<Rightarrow> u32 \<Rightarrow> (u64 \<times> u64) option" where
  "sl_timing_pad_to_floor ts start_us floor_us =
     (let now = sl_timing_now_us ts
      in if now \<ge> start_us + ucast floor_us then None else sleep_us (start_us + ucast floor_us - now))"

definition sl_timing_random_jitter :: "'g rand_bytes \<Rightarrow> 'g \<Rightarrow> u32 \<Rightarrow> ((u64 \<times> u64) option \<times> 'g) option" where
  "sl_timing_random_jitter R g max_us =
     (if max_us = 0 then Some (None, g)
      else case sl_rng_uniform R g (ucast max_us + 1) OUT of
             None \<Rightarrow> None
           | Some (None, g') \<Rightarrow> Some (None, g')
           | Some (Some r, g') \<Rightarrow> Some (sleep_us r, g'))"

definition mix_digest :: "bytes \<Rightarrow> bytes \<Rightarrow> bytes" where
  "mix_digest block digest = map (\<lambda>j. block ! j XOR digest ! (j mod 32)) [0..<length block]"

text \<open>The value is the byte the code reads at the end to keep the loop alive.\<close>

definition sl_timing_dummy_work :: "hash_api \<Rightarrow> u32 \<Rightarrow> u8" where
  "sl_timing_dummy_work H iterations =
     ((\<lambda>block. mix_digest block (sha256 H block)) ^^ unat iterations) (replicate 64 0) ! 0"

subsection \<open>Puzzles are prefix bounds on the digest\<close>

fun be_value :: "bytes \<Rightarrow> nat" where
  "be_value [] = 0"
| "be_value (b # bs) = unat b * 256 ^ length bs + be_value bs"

lemma be_value_less: "be_value bs < 256 ^ length bs"
proof (induction bs)
  case (Cons b bs)
  have "unat b \<le> 255" using unsigned_less [of b, where 'a = nat] by simp
  then have "unat b * 256 ^ length bs \<le> 255 * 256 ^ length bs" by (rule mult_le_mono1)
  moreover have "256 ^ length (b # bs) = 255 * 256 ^ length bs + (256 :: nat) ^ length bs" by simp
  ultimately show ?case using Cons unfolding be_value.simps by linarith
qed simp

lemma byte_top_bit: "(b :: u8) AND 0x80 = 0 \<longleftrightarrow> unat b < 128"
proof -
  have "b AND 2 ^ 7 = 0 \<longleftrightarrow> \<not> bit (unat b) 7" by (simp only: and_exp_eq_0_iff_not_bit bit_unsigned_iff) simp
  also have "\<dots> \<longleftrightarrow> even (unat b div 128)" by (simp add: bit_iff_odd)
  also have "\<dots> \<longleftrightarrow> unat b < 128"
  proof -
    have "unat b div 128 = 0 \<or> unat b div 128 = 1" using unsigned_less [of b, where 'a = nat] by simp linarith
    then show ?thesis by auto
  qed
  finally show ?thesis by simp
qed

lemma unat_shift_byte: "unat (b :: u8) < 128 \<Longrightarrow> unat (push_bit 1 b) = 2 * unat b"
  unfolding unsigned_push_bit_eq by (simp add: take_bit_nat_eq_self)

lemma shift_zeros_spec:
  "128 \<le> unat b * 2 ^ j \<Longrightarrow> unat b * 2 ^ j < 256 \<Longrightarrow> shift_zeros zeros b = Some (zeros + of_nat j)"
proof (induction j arbitrary: b zeros)
  case 0
  then show ?case by (subst shift_zeros.simps) (simp add: byte_top_bit)
next
  case (Suc j)
  have small: "unat b < 128"
  proof (rule ccontr)
    assume "\<not> unat b < 128"
    then have "128 * 2 ^ Suc j \<le> unat b * 2 ^ Suc j" by (intro mult_le_mono1) simp
    moreover have "(256 :: nat) \<le> 128 * 2 ^ Suc j" by simp
    ultimately show False using Suc.prems(2) by linarith
  qed
  then have "shift_zeros zeros b = shift_zeros (zeros + 1) (push_bit 1 b)"
    by (subst shift_zeros.simps) (simp add: byte_top_bit)
  with Suc.IH [of "push_bit 1 b" "zeros + 1"] Suc.prems unat_shift_byte [OF small] show ?case
    by (simp add: ac_simps)
qed

lemma byte_scale: "(b :: u8) \<noteq> 0 \<Longrightarrow> \<exists>j\<le>7. 128 \<le> unat b * 2 ^ j \<and> unat b * 2 ^ j < 256"
proof -
  assume "b \<noteq> 0"
  then have n: "0 < unat b" "unat b < 256" using unsigned_less [of b, where 'a = nat] by (simp_all add: unat_gt_0)
  obtain j where j: "unat b < 2 ^ (8 - j)" "2 ^ (7 - j) \<le> unat b" "j \<le> 7"
  proof -
    consider "unat b < 2" | "2 \<le> unat b" "unat b < 4" | "4 \<le> unat b" "unat b < 8" | "8 \<le> unat b" "unat b < 16"
      | "16 \<le> unat b" "unat b < 32" | "32 \<le> unat b" "unat b < 64" | "64 \<le> unat b" "unat b < 128" | "128 \<le> unat b"
      by linarith
    then show ?thesis using n that [of 0] that [of 1] that [of 2] that [of 3] that [of 4] that [of 5] that [of 6] that [of 7]
      by cases simp_all
  qed
  have "2 ^ (7 - j) * 2 ^ j \<le> unat b * 2 ^ j" using j(2) by (rule mult_le_mono1)
  moreover have "unat b * 2 ^ j < 2 ^ (8 - j) * 2 ^ j" using j(1) by simp
  ultimately show ?thesis using j(3) by (auto simp flip: power_add)
qed

text \<open>The count is the largest prefix of zero bits: it reaches \<open>d\<close> exactly below \<open>2 ^ (8 n - d)\<close>.\<close>

lemma zeros_loop_spec:
  "\<exists>m. zeros_loop zeros digest = Some (zeros + of_nat m) \<and> m \<le> 8 * length digest
     \<and> (\<forall>d \<le> 8 * length digest. d \<le> m \<longleftrightarrow> be_value digest < 2 ^ (8 * length digest - d))"
proof (induction digest arbitrary: zeros)
  case (Cons b digest)
  let ?n = "8 * length digest"
  have pow: "(256 :: nat) ^ length digest = 2 ^ ?n" by (simp add: power_mult)
  have low: "be_value digest < 2 ^ ?n" using be_value_less [of digest] pow by simp
  show ?case
  proof (cases "b = 0")
    case True
    from Cons.IH [of "zeros + 8"] obtain m where m: "zeros_loop (zeros + 8) digest = Some (zeros + 8 + of_nat m)" "m \<le> ?n"
      "\<forall>d \<le> ?n. d \<le> m \<longleftrightarrow> be_value digest < 2 ^ (?n - d)" by blast
    have "d \<le> 8 + m \<longleftrightarrow> be_value digest < 2 ^ (8 + ?n - d)" if "d \<le> 8 + ?n" for d
    proof (cases "d \<le> 8")
      case True
      then have "(2::nat) ^ ?n \<le> 2 ^ (8 + ?n - d)" by (intro power_increasing) auto
      with low have "be_value digest < 2 ^ (8 + ?n - d)" by (rule order.strict_trans2)
      with True show ?thesis by simp
    next
      case False
      then have "?n - (d - 8) = 8 + ?n - d" "d - 8 \<le> m \<longleftrightarrow> d \<le> 8 + m" by auto
      with m(3) [rule_format, of "d - 8"] that show ?thesis by simp
    qed
    with m True show ?thesis by (intro exI [of _ "8 + m"]) (simp add: ac_simps)
  next
    case False
    then obtain j where j: "j \<le> 7" "128 \<le> unat b * 2 ^ j" "unat b * 2 ^ j < 256" using byte_scale by blast
    let ?v = "unat b * 2 ^ ?n + be_value digest"
    have top: "2 ^ (8 + ?n - d) \<le> ?v" if "j < d" "d \<le> 8 + ?n" for d
    proof -
      have "(2::nat) ^ (7 + ?n) = 128 * 2 ^ ?n" by (simp add: power_add)
      also have "\<dots> \<le> unat b * 2 ^ j * 2 ^ ?n" using j(2) by (rule mult_le_mono1)
      also have "\<dots> \<le> ?v * 2 ^ j" by (simp add: algebra_simps)
      also have "7 + ?n = (7 - j + ?n) + j" using j(1) by simp
      finally have "2 ^ (7 - j + ?n) \<le> ?v" by (simp only: power_add mult_le_cancel2) simp
      have "(2::nat) ^ (8 + ?n - d) \<le> 2 ^ (7 - j + ?n)" using that j(1) by (intro power_increasing) auto
      then show ?thesis using \<open>2 ^ (7 - j + ?n) \<le> ?v\<close> by (rule order.trans)
    qed
    have bot: "?v < 2 ^ (8 + ?n - d)" if "d \<le> j" for d
    proof -
      have "(unat b + 1) * 2 ^ j \<le> 256"
      proof -
        have "unat b * 2 ^ j < 2 ^ (8 - j) * 2 ^ j" using j by (simp flip: power_add)
        then have "unat b + 1 \<le> 2 ^ (8 - j)" by simp
        then have "(unat b + 1) * 2 ^ j \<le> 2 ^ (8 - j) * 2 ^ j" by (rule mult_le_mono1)
        then show ?thesis using j(1) by (simp flip: power_add)
      qed
      then have "(unat b + 1) * 2 ^ j * 2 ^ ?n \<le> 2 ^ 8 * 2 ^ ?n" by (intro mult_le_mono1) simp
      moreover have "?v * 2 ^ j < (unat b + 1) * 2 ^ j * 2 ^ ?n" using low by (simp add: algebra_simps)
      ultimately have "?v * 2 ^ j < 2 ^ 8 * 2 ^ ?n" by (rule order.strict_trans2 [rotated])
      then have "?v * 2 ^ j < 2 ^ (8 + ?n)" by (simp only: power_add)
      also have "8 + ?n = (8 + ?n - j) + j" using j(1) by simp
      finally have "?v < 2 ^ (8 + ?n - j)" by (simp only: power_add) simp
      moreover have "(2::nat) ^ (8 + ?n - j) \<le> 2 ^ (8 + ?n - d)" using that by (intro power_increasing) auto
      ultimately show ?thesis by (rule order.strict_trans2)
    qed
    have "d \<le> j \<longleftrightarrow> ?v < 2 ^ (8 + ?n - d)" if "d \<le> 8 + ?n" for d
      using top [of d] bot [of d] that by (cases "d \<le> j") auto
    then show ?thesis using False shift_zeros_spec [OF j(2,3), of zeros] j(1) pow
      by (intro exI [of _ j]) simp
  qed
qed simp

definition solves :: "hash_api \<Rightarrow> bytes \<Rightarrow> u32 \<Rightarrow> bytes \<Rightarrow> bool" where
  "solves H c d nonce \<longleftrightarrow> unat d \<le> 256 \<and> be_value (sha256 H (c @ nonce)) < 2 ^ (256 - unat d)"

lemma leading_zero_bits_spec:
  assumes "length digest = 32"
  shows "\<exists>m. leading_zero_bits digest = Some m
    \<and> (\<forall>d. d \<le> m \<longleftrightarrow> unat d \<le> 256 \<and> be_value digest < 2 ^ (256 - unat d))"
proof -
  from zeros_loop_spec [of 0 digest] assms obtain m where m: "zeros_loop 0 digest = Some (of_nat m)" "m \<le> 256"
    "\<forall>d \<le> 256. d \<le> m \<longleftrightarrow> be_value digest < 2 ^ (256 - d)" by auto
  have "unat (of_nat m :: u32) = m" using m(2) by (simp add: unat_of_nat)
  then have "d \<le> of_nat m \<longleftrightarrow> unat d \<le> 256 \<and> be_value digest < 2 ^ (256 - unat d)" for d :: u32
    using m(2) m(3) [rule_format, of "unat d"] by (cases "unat d \<le> 256") (simp_all add: word_le_nat_alt)
  with m(1) show ?thesis by (auto simp: leading_zero_bits_def)
qed

lemma pow_loop_spec:
  assumes "hash_law H"
  shows "\<exists>r. pow_loop H c d counter i k = Some r
    \<and> (case r of None \<Rightarrow> \<forall>n<k. \<not> solves H c d (pack_u64 (counter + i + of_nat n))
       | Some nonce \<Rightarrow> solves H c d nonce \<and> (\<exists>n<k. nonce = pack_u64 (counter + i + of_nat n)))"
proof (induction k arbitrary: i)
  case (Suc k)
  let ?nonce = "pack_u64 (counter + i)"
  have "length (sha256 H (c @ ?nonce)) = 32" using assms by (simp add: hash_law_def)
  from leading_zero_bits_spec [OF this] obtain m where m: "leading_zero_bits (sha256 H (c @ ?nonce)) = Some m"
    "\<And>d. d \<le> m \<longleftrightarrow> solves H c d ?nonce" by (auto simp: solves_def)
  show ?case
  proof (cases "solves H c d ?nonce")
    case True
    then show ?thesis using m by (auto intro!: exI [of _ 0])
  next
    case False
    from Suc.IH [of "i + 1"] obtain r where r: "pow_loop H c d counter (i + 1) k = Some r"
      "case r of None \<Rightarrow> \<forall>n<k. \<not> solves H c d (pack_u64 (counter + (i + 1) + of_nat n))
       | Some nonce \<Rightarrow> solves H c d nonce \<and> (\<exists>n<k. nonce = pack_u64 (counter + (i + 1) + of_nat n))" by blast
    have step: "counter + (i + 1) + of_nat n = counter + i + of_nat (Suc n)" for n by simp
    show ?thesis
    proof (cases r)
      case None
      have "\<not> solves H c d (pack_u64 (counter + i + of_nat n))" if "n < Suc k" for n
        using that False r(2) None step by (cases n) (auto simp del: of_nat_Suc)
      then show ?thesis using m r(1) False None by simp
    next
      case (Some nonce)
      with r(2) step have "\<exists>n<Suc k. nonce = pack_u64 (counter + i + of_nat n)" by (auto simp del: of_nat_Suc)
      then show ?thesis using m r False Some by simp
    qed
  qed
qed simp

text \<open>
  C40. A client puzzle is exactly a bound on the digest: verification always returns, and accepts a nonce
  for a difficulty of \<open>d\<close> bits when the SHA-256 of challenge and nonce, read as a number, is below
  \<open>2 ^ (256 - d)\<close>, and no difficulty above 256. The solver always returns; a nonce it gives is
  accepted by the verifier, and when it gives up, none of the nonces it was allowed to try is accepted.
\<close>

theorem pow_sound_and_complete:
  assumes "hash_law H" "length c = 16"
  shows "(length n = 8 \<longrightarrow> sl_pow_verify H (Some c) (Some n) d
            = Some (unat d \<le> 256 \<and> be_value (sha256 H (c @ n)) < 2 ^ (256 - unat d)))
    \<and> (\<exists>res g'. sl_pow_solve H R g (Some c) d max_iters OUT = Some (res, g')
        \<and> (case res of
             Some nonce \<Rightarrow> sl_pow_verify H (Some c) (Some nonce) d = Some True
           | None \<Rightarrow> \<exists>counter. \<forall>i < unat max_iters.
               sl_pow_verify H (Some c) (Some (pack_u64 (counter + of_nat i))) d = Some False))"
proof -
  have ver: "sl_pow_verify H (Some c) (Some n) d = Some (solves H c d n)" if "length n = 8" for n
  proof -
    have "length (sha256 H (c @ n)) = 32" using assms(1) by (simp add: hash_law_def)
    from leading_zero_bits_spec [OF this] that assms(2) show ?thesis
      by (auto simp: sl_pow_verify_def solves_def word_less_nat_alt)
  qed
  obtain r g' where u: "sl_rng_u64 R g OUT = (r, g')" by fastforce
  define counter where "counter = (case r of None \<Rightarrow> 0 | Some v \<Rightarrow> v)"
  from pow_loop_spec [OF assms(1), of c d counter 0 "unat max_iters"] obtain res where
    res: "pow_loop H c d counter 0 (unat max_iters) = Some res"
    "case res of None \<Rightarrow> \<forall>n<unat max_iters. \<not> solves H c d (pack_u64 (counter + 0 + of_nat n))
       | Some nonce \<Rightarrow> solves H c d nonce \<and> (\<exists>n<unat max_iters. nonce = pack_u64 (counter + 0 + of_nat n))" by blast
  have run: "sl_pow_solve H R g (Some c) d max_iters OUT = Some (res, g')"
    using u res(1) assms(2) by (simp add: sl_pow_solve_def counter_def)
  have "case res of
             Some nonce \<Rightarrow> sl_pow_verify H (Some c) (Some nonce) d = Some True
           | None \<Rightarrow> \<exists>counter. \<forall>i < unat max_iters.
               sl_pow_verify H (Some c) (Some (pack_u64 (counter + of_nat i))) d = Some False"
    using res(2) ver by (cases res) auto
  with run ver show ?thesis unfolding solves_def by blast
qed

theorem pow_sound_and_complete_witness:
  "sl_pow_verify toy_hash (Some (replicate 16 1)) (Some (replicate 8 0)) 7 = Some True
   \<and> sl_pow_verify toy_hash (Some (replicate 16 1)) (Some (replicate 8 0)) 8 = Some False"
proof -
  have "sha256 toy_hash (replicate 16 1 @ replicate 8 0) = replicate 32 1" by (simp add: toy_hash_def)
  moreover have "be_value (replicate 32 1) = 256 ^ 31 + be_value (replicate 31 1)"
    using be_value.simps(2) [of 1 "replicate 31 1"] by (simp flip: replicate_Suc)
  moreover have "be_value (replicate 31 1) < 256 ^ 31" using be_value_less [of "replicate 31 1"] by simp
  ultimately show ?thesis
    using pow_sound_and_complete [of toy_hash "replicate 16 1" "replicate 8 0" 7 "\<lambda>g n. (None, g)" "()" 0]
      pow_sound_and_complete [of toy_hash "replicate 16 1" "replicate 8 0" 8 "\<lambda>g n. (None, g)" "()" 0] toy_hash_law
    by simp
qed

lemma sleep_us_amount:
  "sleep_us us = Some (sec, nsec) \<Longrightarrow> sec * 1000000 + nsec div 1000 = us"
proof -
  assume "sleep_us us = Some (sec, nsec)"
  then have d: "sec = us div 1000000" "nsec = us mod 1000000 * 1000" by (auto simp: sleep_us_def split: if_splits)
  have "unat (us mod 1000000) < 1000000" by (simp add: unat_mod_distrib)
  then have "unat nsec = unat (us mod 1000000) * 1000" unfolding d by (subst unat_mult_lem [THEN iffD1]) simp_all
  then have "nsec div 1000 = us mod 1000000" by (simp add: word_unat_eq_iff unat_div_distrib)
  then show ?thesis unfolding d(1) by (simp only: div_mult_mod_eq)
qed

text \<open>Padding asks for exactly the time missing to the floor, and jitter never exceeds its bound.\<close>

lemma pad_reaches_floor:
  "sl_timing_pad_to_floor ts start_us floor_us = Some (sec, nsec) \<Longrightarrow>
   sl_timing_now_us ts + (sec * 1000000 + nsec div 1000) = start_us + ucast floor_us"
  by (auto simp: sl_timing_pad_to_floor_def Let_def split: if_splits dest: sleep_us_amount)

lemma jitter_bounded:
  assumes "sl_timing_random_jitter R g max_us = Some (Some (sec, nsec), g')"
  shows "sec * 1000000 + nsec div 1000 \<le> ucast max_us"
proof -
  from assms obtain r g1 where "sl_rng_uniform R g (ucast max_us + 1) OUT = Some (Some r, g1)" "sleep_us r = Some (sec, nsec)"
    by (auto simp: sl_timing_random_jitter_def split: if_splits option.splits)
  then have "r < ucast max_us + 1" "sec * 1000000 + nsec div 1000 = r" by (simp_all add: sl_rng_uniform_below sleep_us_amount)
  moreover have "unat (ucast max_us + 1 :: u64) = unat max_us + 1"
    using unsigned_less [of max_us, where 'a = nat] by (subst unat_add_lem [THEN iffD1]) simp_all
  ultimately show ?thesis by (simp add: word_le_nat_alt word_less_nat_alt)
qed

end
