(* ===== verification/SL_Rpc.thy ===== *)
theory SL_Rpc
  imports SL_Time "HOL-Library.Multiset" "HOL-Library.AList"
begin

text \<open>
  Remote calls: wire messages (\<open>sl_rpc_msg.c\<close>), request ids (\<open>sl_rpc_id.c\<close>), method names
  (\<open>sl_rpc_method.c\<close>), the server's dispatcher (\<open>rpc_dispatcher.cpp\<close>) and the client
  (\<open>rpc_client.cpp\<close>). Registered handlers are application code: values of any type, run by a
  parameter that may throw and may change a world of any type. A promise is a name given by the
  caller; \<open>set_value\<close> on it is the pair of name and reply in the result of an operation.
\<close>

subsection \<open>Messages\<close>

abbreviation (input) SL_RPC_METHOD_MAX :: nat where "SL_RPC_METHOD_MAX \<equiv> 128"
abbreviation (input) SL_RPC_BODY_MAX :: nat where "SL_RPC_BODY_MAX \<equiv> 16384"
abbreviation (input) SL_RPC_REQUEST :: u8 where "SL_RPC_REQUEST \<equiv> 1"
abbreviation (input) SL_RPC_RESPONSE :: u8 where "SL_RPC_RESPONSE \<equiv> 2"

type_synonym sl_rpc_status_t = int

abbreviation (input) SL_RPC_OK :: sl_rpc_status_t where "SL_RPC_OK \<equiv> 0"
abbreviation (input) SL_RPC_BAD_REQUEST :: sl_rpc_status_t where "SL_RPC_BAD_REQUEST \<equiv> 1"
abbreviation (input) SL_RPC_NOT_FOUND :: sl_rpc_status_t where "SL_RPC_NOT_FOUND \<equiv> 2"
abbreviation (input) SL_RPC_NOT_PERMITTED :: sl_rpc_status_t where "SL_RPC_NOT_PERMITTED \<equiv> 3"
abbreviation (input) SL_RPC_INTERNAL :: sl_rpc_status_t where "SL_RPC_INTERNAL \<equiv> 4"
abbreviation (input) SL_RPC_RATE_LIMITED :: sl_rpc_status_t where "SL_RPC_RATE_LIMITED \<equiv> 5"
abbreviation (input) SL_RPC_UNAVAILABLE :: sl_rpc_status_t where "SL_RPC_UNAVAILABLE \<equiv> 6"

record sl_rpc_request_t =
  rq_request_id :: u32
  rq_method :: bytes
  rq_method_len :: u16
  rq_body :: "bytes ptr"
  rq_body_len :: u32

record sl_rpc_response_t =
  rs_request_id :: u32
  rs_status :: sl_rpc_status_t
  rs_body :: "bytes ptr"
  rs_body_len :: u32

definition rpc_request_zero :: sl_rpc_request_t where
  "rpc_request_zero = \<lparr>rq_request_id = 0, rq_method = replicate (SL_RPC_METHOD_MAX + 1) 0, rq_method_len = 0,
     rq_body = NULL, rq_body_len = 0\<rparr>"

definition rpc_response_zero :: sl_rpc_response_t where
  "rpc_response_zero = \<lparr>rs_request_id = 0, rs_status = SL_RPC_OK, rs_body = NULL, rs_body_len = 0\<rparr>"

definition sl_rpc_request_pack :: "sl_rpc_request_t ptr \<Rightarrow> out_buf \<Rightarrow> bytes option" where
  "sl_rpc_request_pack rp out =
     (case (rp, out) of
        (Some r, Some out_cap) \<Rightarrow>
          let n = unat (rq_method_len r); bn = unat (rq_body_len r) in
          if n = 0 \<or> n > SL_RPC_METHOD_MAX then None
          else if bn > SL_RPC_BODY_MAX then None
          else if bn > 0 \<and> rq_body r = NULL then None
          else if out_cap < 1 + 1 + 4 + 2 + n + 4 + bn then None
          else Some ([SL_RPC_REQUEST, 0] @ pack_u32 (rq_request_id r) @ pack_u16 (rq_method_len r)
                     @ take n (rq_method r) @ pack_u32 (rq_body_len r)
                     @ (if bn > 0 then take bn (the (rq_body r)) else []))
      | _ \<Rightarrow> None)"

definition sl_rpc_request_unpack :: "bytes ptr \<Rightarrow> sl_rpc_request_t ptr \<Rightarrow> int \<times> sl_rpc_request_t ptr" where
  "sl_rpc_request_unpack inp out =
     (case (inp, out) of
        (Some p, Some r0) \<Rightarrow>
          if length p < 12 then (- 1, out)
          else if p ! 0 \<noteq> SL_RPC_REQUEST then (- 1, out)
          else
            let r1 = r0\<lparr>rq_request_id := unpack_u32 (drop 2 p), rq_method_len := unpack_u16 (drop 6 p)\<rparr>;
                n = unat (rq_method_len r1)
            in if n = 0 \<or> n > SL_RPC_METHOD_MAX then (- 1, Some r1)
               else if length p < 8 + n + 4 then (- 1, Some r1)
               else
                 let r2 = r1\<lparr>rq_method := (write_at 0 (take n (drop 8 p)) (rq_method r1))[n := 0]\<rparr>;
                     body_len = unpack_u32 (drop (8 + n) p); bn = unat body_len
                 in if bn > SL_RPC_BODY_MAX then (- 1, Some r2)
                    else if length p < 8 + n + 4 + bn then (- 1, Some r2)
                    else (0, Some (r2\<lparr>rq_body_len := body_len,
                                       rq_body := (if bn > 0 then Some (drop (8 + n + 4) p) else NULL)\<rparr>))
      | _ \<Rightarrow> (- 1, out))"

definition sl_rpc_response_pack :: "sl_rpc_response_t ptr \<Rightarrow> out_buf \<Rightarrow> bytes option" where
  "sl_rpc_response_pack rp out =
     (case (rp, out) of
        (Some r, Some out_cap) \<Rightarrow>
          let bn = unat (rs_body_len r) in
          if bn > SL_RPC_BODY_MAX then None
          else if bn > 0 \<and> rs_body r = NULL then None
          else if out_cap < 1 + 1 + 4 + 2 + 4 + bn then None
          else Some ([SL_RPC_RESPONSE, word_of_int (rs_status r)] @ pack_u32 (rs_request_id r) @ pack_u16 0
                     @ pack_u32 (rs_body_len r) @ (if bn > 0 then take bn (the (rs_body r)) else []))
      | _ \<Rightarrow> None)"

definition sl_rpc_response_unpack :: "bytes ptr \<Rightarrow> sl_rpc_response_t ptr \<Rightarrow> int \<times> sl_rpc_response_t ptr" where
  "sl_rpc_response_unpack inp out =
     (case (inp, out) of
        (Some p, Some r0) \<Rightarrow>
          if length p < 12 then (- 1, out)
          else if p ! 0 \<noteq> SL_RPC_RESPONSE then (- 1, out)
          else
            let r1 = r0\<lparr>rs_status := uint (p ! 1), rs_request_id := unpack_u32 (drop 2 p)\<rparr>
            in if unpack_u16 (drop 6 p) \<noteq> 0 then (- 1, Some r1)
               else
                 let r2 = r1\<lparr>rs_body_len := unpack_u32 (drop 8 p)\<rparr>; bn = unat (rs_body_len r2)
                 in if bn > SL_RPC_BODY_MAX then (- 1, Some r2)
                    else if length p < 12 + bn then (- 1, Some r2)
                    else (0, Some (r2\<lparr>rs_body := (if bn > 0 then Some (drop 12 p) else NULL)\<rparr>))
      | _ \<Rightarrow> (- 1, out))"

definition sl_rpc_status_name :: "sl_rpc_status_t \<Rightarrow> string" where
  "sl_rpc_status_name s =
     (if s = SL_RPC_OK then ''ok''
      else if s = SL_RPC_BAD_REQUEST then ''bad_request''
      else if s = SL_RPC_NOT_FOUND then ''not_found''
      else if s = SL_RPC_NOT_PERMITTED then ''not_permitted''
      else if s = SL_RPC_INTERNAL then ''internal''
      else if s = SL_RPC_RATE_LIMITED then ''rate_limited''
      else if s = SL_RPC_UNAVAILABLE then ''unavailable''
      else ''?'')"

subsection \<open>Request ids\<close>

record sl_rpc_id_alloc_t =
  ri_next :: u32
  ri_allocated :: u32
  ri_exhausted :: bool

definition sl_rpc_id_init :: "sl_rpc_id_alloc_t ptr \<Rightarrow> sl_rpc_id_alloc_t ptr" where
  "sl_rpc_id_init ap =
     (case ap of
        None \<Rightarrow> NULL
      | Some _ \<Rightarrow> Some \<lparr>ri_next = 1, ri_allocated = 0, ri_exhausted = False\<rparr>)"

definition sl_rpc_id_next :: "sl_rpc_id_alloc_t ptr \<Rightarrow> u32 \<times> sl_rpc_id_alloc_t ptr" where
  "sl_rpc_id_next ap =
     (case ap of
        None \<Rightarrow> (0, NULL)
      | Some a \<Rightarrow>
          if ri_exhausted a then (0, ap)
          else let i = ri_next a
               in if i = - 1 then (i, Some (a\<lparr>ri_exhausted := True, ri_allocated := ri_allocated a + 1\<rparr>))
                  else (i, Some (a\<lparr>ri_next := ri_next a + 1, ri_allocated := ri_allocated a + 1\<rparr>)))"

definition sl_rpc_id_is_exhausted :: "sl_rpc_id_alloc_t ptr \<Rightarrow> bool" where
  "sl_rpc_id_is_exhausted ap = (case ap of None \<Rightarrow> True | Some a \<Rightarrow> ri_exhausted a)"

definition sl_rpc_id_allocated_count :: "sl_rpc_id_alloc_t ptr \<Rightarrow> u32" where
  "sl_rpc_id_allocated_count ap = (case ap of None \<Rightarrow> 0 | Some a \<Rightarrow> ri_allocated a)"

subsection \<open>Method names\<close>

fun method_loop :: "bytes \<Rightarrow> nat \<Rightarrow> bool" where
  "method_loop [] segment_len = (segment_len > 0)"
| "method_loop (c # cs) segment_len =
     (if c = 46 then (if segment_len = 0 then False else method_loop cs 0)
      else if \<not> (c_isalnum c \<or> c = 95) then False
      else method_loop cs (segment_len + 1))"

definition sl_rpc_method_is_valid :: "bytes ptr \<Rightarrow> bool" where
  "sl_rpc_method_is_valid mp =
     (case mp of
        None \<Rightarrow> False
      | Some m \<Rightarrow>
          if m = [] \<or> length m > 128 then False
          else if m ! 0 = 46 \<or> m ! (length m - 1) = 46 then False
          else method_loop m 0)"

fun last_dot_loop :: "bytes \<Rightarrow> nat \<Rightarrow> nat option \<Rightarrow> nat option" where
  "last_dot_loop [] i last_dot = last_dot"
| "last_dot_loop (c # cs) i last_dot = last_dot_loop cs (i + 1) (if c = 46 then Some i else last_dot)"

definition sl_rpc_method_split :: "bytes ptr \<Rightarrow> out_ref \<Rightarrow> out_ref \<Rightarrow> (bytes \<times> bytes) option" where
  "sl_rpc_method_split mp ns_out leaf_out =
     (if \<not> sl_rpc_method_is_valid mp \<or> ns_out = NULL \<or> leaf_out = NULL then None
      else let m = the mp
           in case last_dot_loop m 0 None of
                None \<Rightarrow> Some ([], m)
              | Some ns_len \<Rightarrow> Some (take ns_len m, take (length m - ns_len - 1) (drop (ns_len + 1) m)))"

subsection \<open>The dispatcher\<close>

record RpcResponse =
  rr_status :: sl_rpc_status_t
  rr_body :: bytes

record rd_stats =
  requests_total :: u64
  responses_ok :: u64
  responses_error :: u64
  method_not_found :: u64
  handler_threw :: u64

record 'h RpcDispatcher =
  rd_methods :: "(bytes \<times> 'h) list"
  rd_stats :: rd_stats

type_synonym ('h, 'w) invoke = "'h \<Rightarrow> bytes \<Rightarrow> 'w \<Rightarrow> RpcResponse option \<times> 'w"

definition rd_stats_zero :: rd_stats where
  "rd_stats_zero = \<lparr>requests_total = 0, responses_ok = 0, responses_error = 0, method_not_found = 0, handler_threw = 0\<rparr>"

definition rd_new :: "'h RpcDispatcher" where
  "rd_new = \<lparr>rd_methods = [], rd_stats = rd_stats_zero\<rparr>"

definition register_method :: "bytes \<Rightarrow> 'h \<Rightarrow> 'h RpcDispatcher \<Rightarrow> 'h RpcDispatcher" where
  "register_method method h d = d\<lparr>rd_methods := AList.update method h (rd_methods d)\<rparr>"

definition unregister_method :: "bytes \<Rightarrow> 'h RpcDispatcher \<Rightarrow> 'h RpcDispatcher" where
  "unregister_method method d = d\<lparr>rd_methods := AList.delete method (rd_methods d)\<rparr>"

definition method_count :: "'h RpcDispatcher \<Rightarrow> nat" where
  "method_count d = length (rd_methods d)"

definition make_response :: "u32 \<Rightarrow> RpcResponse \<Rightarrow> bytes" where
  "make_response req_id r =
     (let resp = \<lparr>rs_request_id = req_id, rs_status = rr_status r,
                  rs_body = (if rr_body r = [] then NULL else Some (rr_body r)),
                  rs_body_len = of_nat (length (rr_body r))\<rparr>
      in case sl_rpc_response_pack (Some resp) (Some (12 + length (rr_body r))) of
           None \<Rightarrow> []
         | Some out \<Rightarrow> out)"

definition request_body :: "sl_rpc_request_t \<Rightarrow> bytes" where
  "request_body req = (if unat (rq_body_len req) > 0 then take (unat (rq_body_len req)) (the (rq_body req)) else [])"

definition count_result :: "RpcResponse option \<Rightarrow> rd_stats \<Rightarrow> rd_stats" where
  "count_result res s =
     (let s1 = (if res = None then s\<lparr>handler_threw := handler_threw s + 1, responses_error := responses_error s + 1\<rparr> else s);
          status = (case res of None \<Rightarrow> SL_RPC_INTERNAL | Some r \<Rightarrow> rr_status r)
      in if status = SL_RPC_OK then s1\<lparr>responses_ok := responses_ok s1 + 1\<rparr>
         else s1\<lparr>responses_error := responses_error s1 + 1\<rparr>)"

definition rd_handle :: "('h, 'w) invoke \<Rightarrow> bytes \<Rightarrow> 'h RpcDispatcher \<Rightarrow> 'w \<Rightarrow> bytes \<times> 'h RpcDispatcher \<times> 'w" where
  "rd_handle invoke request_bytes d w =
     (let s = rd_stats d; (rc, rp) = sl_rpc_request_unpack (Some request_bytes) (Some rpc_request_zero)
      in if rc \<noteq> 0 then
           (make_response 0 \<lparr>rr_status = SL_RPC_BAD_REQUEST, rr_body = []\<rparr>,
            d\<lparr>rd_stats := s\<lparr>requests_total := requests_total s + 1, responses_error := responses_error s + 1\<rparr>\<rparr>, w)
         else
           let req = the rp; s1 = s\<lparr>requests_total := requests_total s + 1\<rparr>
           in case map_of (rd_methods d) (c_string (rq_method req)) of
                None \<Rightarrow>
                  (make_response (rq_request_id req) \<lparr>rr_status = SL_RPC_NOT_FOUND, rr_body = []\<rparr>,
                   d\<lparr>rd_stats := s1\<lparr>method_not_found := method_not_found s1 + 1, responses_error := responses_error s1 + 1\<rparr>\<rparr>, w)
              | Some handler \<Rightarrow>
                  let (res, w') = invoke handler (request_body req) w;
                      result = (case res of None \<Rightarrow> \<lparr>rr_status = SL_RPC_INTERNAL, rr_body = []\<rparr> | Some r \<Rightarrow> r)
                  in (make_response (rq_request_id req) result, d\<lparr>rd_stats := count_result res s1\<rparr>, w'))"

subsection \<open>The client\<close>

record RpcReply =
  rp_status :: sl_rpc_status_t
  rp_body :: bytes
  rp_timed_out :: bool

record 'p Pending =
  pd_promise :: 'p
  pd_deadline_ms :: u64

record rc_stats =
  calls_started :: u64
  responses_matched :: u64
  timeouts :: u64
  cancellations :: u64
  send_failures :: u64
  unmatched :: u64

record 'p RpcClient =
  rc_ids :: sl_rpc_id_alloc_t
  rc_pending :: "(u32 \<times> 'p Pending) list"
  rc_stats :: rc_stats

definition rc_new :: "'p RpcClient" where
  "rc_new = \<lparr>rc_ids = the (sl_rpc_id_init (Some \<lparr>ri_next = 0, ri_allocated = 0, ri_exhausted = False\<rparr>)), rc_pending = [],
     rc_stats = \<lparr>calls_started = 0, responses_matched = 0, timeouts = 0, cancellations = 0, send_failures = 0, unmatched = 0\<rparr>\<rparr>"

definition reply_status :: "sl_rpc_status_t \<Rightarrow> RpcReply" where
  "reply_status status = \<lparr>rp_status = status, rp_body = [], rp_timed_out = False\<rparr>"

definition emplace :: "'k \<Rightarrow> 'v \<Rightarrow> ('k \<times> 'v) list \<Rightarrow> ('k \<times> 'v) list" where
  "emplace k v m = (case map_of m k of None \<Rightarrow> m @ [(k, v)] | Some _ \<Rightarrow> m)"

text \<open>
  A call runs in two parts, with the lock released between them while the request is sent. The
  first part ends with the promise resolved or with the bytes to send; the second, given whether
  the send worked, gives up a call that is still waiting.
\<close>

datatype call_begun = Answered RpcReply | Sending u32 bytes

definition call_begin ::
  "clock_reading \<Rightarrow> 'p \<Rightarrow> bytes \<Rightarrow> bytes \<Rightarrow> u32 \<Rightarrow> 'p RpcClient \<Rightarrow> call_begun \<times> 'p RpcClient" where
  "call_begin ts p method body timeout_ms c =
     (if \<not> sl_rpc_method_is_valid (Some method) then (Answered (reply_status SL_RPC_BAD_REQUEST), c)
      else if length body > SL_RPC_BODY_MAX then (Answered (reply_status SL_RPC_BAD_REQUEST), c)
      else
        let (i, ids) = sl_rpc_id_next (Some (rc_ids c)); c1 = c\<lparr>rc_ids := the ids\<rparr>
        in if i = 0 then (Answered (reply_status SL_RPC_UNAVAILABLE), c1)
           else
             let req = \<lparr>rq_request_id = i, rq_method = write_at 0 method (replicate (SL_RPC_METHOD_MAX + 1) 0),
                        rq_method_len = of_nat (length method), rq_body = (if body = [] then NULL else Some body),
                        rq_body_len = of_nat (length body)\<rparr>
             in case sl_rpc_request_pack (Some req) (Some (12 + length method + length body)) of
                  None \<Rightarrow> (Answered (reply_status SL_RPC_BAD_REQUEST), c1)
                | Some wire \<Rightarrow>
                    let deadline = (if timeout_ms > 0 then sl_deadline_in_ms ts timeout_ms else 0);
                        s = rc_stats c1
                    in (Sending i wire,
                        c1\<lparr>rc_pending := emplace i \<lparr>pd_promise = p, pd_deadline_ms = deadline\<rparr> (rc_pending c1),
                           rc_stats := s\<lparr>calls_started := calls_started s + 1\<rparr>\<rparr>))"

definition call_finish :: "bool \<Rightarrow> u32 \<Rightarrow> 'p RpcClient \<Rightarrow> ('p \<times> RpcReply) list \<times> 'p RpcClient" where
  "call_finish sent i c =
     (if \<not> sent then
        (case map_of (rc_pending c) i of
           None \<Rightarrow> ([], c)
         | Some pend \<Rightarrow>
             let s = rc_stats c
             in ([(pd_promise pend, reply_status SL_RPC_UNAVAILABLE)],
                 c\<lparr>rc_pending := AList.delete i (rc_pending c), rc_stats := s\<lparr>send_failures := send_failures s + 1\<rparr>\<rparr>))
      else ([], c))"

definition rc_call ::
  "(bytes \<Rightarrow> bool) option \<Rightarrow> clock_reading \<Rightarrow> 'p \<Rightarrow> bytes \<Rightarrow> bytes \<Rightarrow> u32 \<Rightarrow> 'p RpcClient
     \<Rightarrow> ('p \<times> RpcReply) list \<times> 'p RpcClient" where
  "rc_call send_fn ts p method body timeout_ms c =
     (case call_begin ts p method body timeout_ms c of
        (Answered r, c') \<Rightarrow> ([(p, r)], c')
      | (Sending i wire, c') \<Rightarrow> call_finish (case send_fn of None \<Rightarrow> False | Some f \<Rightarrow> f wire) i c')"

definition on_response :: "bytes \<Rightarrow> 'p RpcClient \<Rightarrow> bool \<times> ('p \<times> RpcReply) list \<times> 'p RpcClient" where
  "on_response wire_bytes c =
     (let s = rc_stats c; (rc, rp) = sl_rpc_response_unpack (Some wire_bytes) (Some rpc_response_zero)
      in if rc \<noteq> 0 then (False, [], c\<lparr>rc_stats := s\<lparr>unmatched := unmatched s + 1\<rparr>\<rparr>)
         else
           let resp = the rp
           in case map_of (rc_pending c) (rs_request_id resp) of
                None \<Rightarrow> (False, [], c\<lparr>rc_stats := s\<lparr>unmatched := unmatched s + 1\<rparr>\<rparr>)
              | Some pend \<Rightarrow>
                  let n = unat (rs_body_len resp);
                      r = \<lparr>rp_status = rs_status resp, rp_body = (if n > 0 then take n (the (rs_body resp)) else []),
                           rp_timed_out = False\<rparr>
                  in (True, [(pd_promise pend, r)],
                      c\<lparr>rc_pending := AList.delete (rs_request_id resp) (rc_pending c),
                        rc_stats := s\<lparr>responses_matched := responses_matched s + 1\<rparr>\<rparr>))"

text \<open>The clock is read anew for each waiting call; \<open>clk\<close> is the reading made for an id.\<close>

definition call_expired :: "(u32 \<Rightarrow> clock_reading) \<Rightarrow> u32 \<times> 'p Pending \<Rightarrow> bool" where
  "call_expired clk e = (pd_deadline_ms (snd e) \<noteq> 0 \<and> sl_deadline_expired (clk (fst e)) (pd_deadline_ms (snd e)))"

definition sweep_timeouts ::
  "(u32 \<Rightarrow> clock_reading) \<Rightarrow> 'p RpcClient \<Rightarrow> nat \<times> ('p \<times> RpcReply) list \<times> 'p RpcClient" where
  "sweep_timeouts clk c =
     (let expired = filter (call_expired clk) (rc_pending c); s = rc_stats c
      in (length expired,
          map (\<lambda>(i, pend). (pd_promise pend, \<lparr>rp_status = SL_RPC_UNAVAILABLE, rp_body = [], rp_timed_out = True\<rparr>)) expired,
          c\<lparr>rc_pending := filter (\<lambda>e. \<not> call_expired clk e) (rc_pending c),
            rc_stats := s\<lparr>timeouts := timeouts s + of_nat (length expired)\<rparr>\<rparr>))"

definition cancel_all :: "sl_rpc_status_t \<Rightarrow> 'p RpcClient \<Rightarrow> ('p \<times> RpcReply) list \<times> 'p RpcClient" where
  "cancel_all status c =
     (let s = rc_stats c
      in (map (\<lambda>(i, pend). (pd_promise pend, reply_status status)) (rc_pending c),
          c\<lparr>rc_pending := [], rc_stats := s\<lparr>cancellations := cancellations s + of_nat (length (rc_pending c))\<rparr>\<rparr>))"

definition rc_destroy :: "'p RpcClient \<Rightarrow> ('p \<times> RpcReply) list" where
  "rc_destroy c = fst (cancel_all SL_RPC_UNAVAILABLE c)"

definition pending_count :: "'p RpcClient \<Rightarrow> nat" where
  "pending_count c = length (rc_pending c)"

subsection \<open>Ids are used once\<close>

definition ri_nxt :: "sl_rpc_id_alloc_t \<Rightarrow> u32 \<times> sl_rpc_id_alloc_t" where
  "ri_nxt a = (fst (sl_rpc_id_next (Some a)), the (snd (sl_rpc_id_next (Some a))))"

definition ri_low :: "sl_rpc_id_alloc_t \<Rightarrow> nat" where
  "ri_low a = (if ri_exhausted a then 4294967296 else unat (ri_next a))"

definition ri_ok :: "sl_rpc_id_alloc_t \<Rightarrow> bool" where
  "ri_ok a \<longleftrightarrow> ri_exhausted a \<or> ri_next a \<noteq> 0"

lemma next_u32_nonzero: "(v :: u32) \<noteq> - 1 \<Longrightarrow> v + 1 \<noteq> 0"
  by (simp add: add_eq_0_iff2)

lemma unat_next_u32: "(v :: u32) \<noteq> - 1 \<Longrightarrow> unat (v + 1) = unat v + 1"
  using unatSuc [of v] next_u32_nonzero [of v] by (simp add: add.commute)

interpretation ri: id_supply ri_nxt ri_low ri_ok "\<lambda>i. i \<noteq> 0"
proof (unfold_locales, goal_cases)
  case (1 s i s')
  then show ?case by (auto simp: ri_nxt_def ri_ok_def sl_rpc_id_next_def Let_def next_u32_nonzero split: if_splits)
next
  case (3 s i s')
  then show ?case using unsigned_less [of i, where 'a = nat]
    by (auto simp: ri_nxt_def ri_ok_def ri_low_def sl_rpc_id_next_def Let_def unat_next_u32 split: if_splits)
next
  case (4 s s')
  then show ?case by (auto simp: ri_nxt_def ri_ok_def sl_rpc_id_next_def Let_def split: if_splits)
qed

subsection \<open>Messages\<close>

definition request_wire :: "u32 \<Rightarrow> bytes \<Rightarrow> bytes \<Rightarrow> bytes" where
  "request_wire i m b = [1, 0] @ pack_u32 i @ pack_u16 (of_nat (length m)) @ m @ pack_u32 (of_nat (length b)) @ b"

definition response_wire :: "u32 \<Rightarrow> u8 \<Rightarrow> bytes \<Rightarrow> bytes" where
  "response_wire i s b = [2, s] @ pack_u32 i @ pack_u16 0 @ pack_u32 (of_nat (length b)) @ b"

lemma unat_lengths:
  "n \<le> 128 \<Longrightarrow> unat (of_nat n :: u16) = n" "k \<le> 16384 \<Longrightarrow> unat (of_nat k :: u32) = k"
  by (simp_all add: unat_of_nat)

lemma sl_rpc_request_unpack_wire:
  assumes "m \<noteq> []" "length m \<le> 128" "length b \<le> 16384" "length (rq_method r0) = 129"
  shows "sl_rpc_request_unpack (Some (request_wire i m b)) (Some r0) =
    (0, Some (r0\<lparr>rq_request_id := i, rq_method_len := of_nat (length m), rq_method := m @ 0 # drop (length m + 1) (rq_method r0),
                 rq_body_len := of_nat (length b), rq_body := (if b = [] then NULL else Some b)\<rparr>))"
proof -
  let ?p = "request_wire i m b"
  have p: "length ?p = 12 + length m + length b" "?p ! 0 = 1" "unpack_u32 (drop 2 ?p) = i"
    "unpack_u16 (drop 6 ?p) = of_nat (length m)" "drop 8 ?p = m @ pack_u32 (of_nat (length b)) @ b"
    by (simp_all add: request_wire_def wire)
  have q: "drop (8 + length m) ?p = pack_u32 (of_nat (length b)) @ b"
    unfolding drop_drop [of "length m" 8, symmetric, unfolded add.commute [of "length m"]] p(5) by simp
  have q': "drop (12 + length m) ?p = b"
    using drop_drop [of 4 "8 + length m" ?p] unfolding q by (simp add: wire)
  have m: "(write_at 0 m (rq_method r0))[length m := 0] = m @ 0 # drop (length m + 1) (rq_method r0)"
    using assms(2,4) by (simp add: write_at_def list_update_append Cons_nth_drop_Suc [symmetric])
  show ?thesis using assms p q q' m unat_lengths(1) [of "length m"] unat_lengths(2) [of "length b"]
    by (simp add: sl_rpc_request_unpack_def Let_def)
qed

lemma sl_rpc_response_unpack_wire:
  assumes "length b \<le> 16384"
  shows "sl_rpc_response_unpack (Some (response_wire i s b)) (Some r0) =
    (0, Some (r0\<lparr>rs_status := uint s, rs_request_id := i, rs_body_len := of_nat (length b),
                 rs_body := (if b = [] then NULL else Some b)\<rparr>))"
proof -
  let ?p = "response_wire i s b"
  have p: "length ?p = 12 + length b" "?p ! 0 = 2" "?p ! 1 = s" "unpack_u32 (drop 2 ?p) = i"
    "unpack_u16 (drop 6 ?p) = 0" "unpack_u32 (drop 8 ?p) = of_nat (length b)" "drop 12 ?p = b"
    by (simp_all add: response_wire_def wire)
  show ?thesis using assms p unat_lengths(2) [of "length b"]
    by (simp add: sl_rpc_response_unpack_def Let_def)
qed

lemma make_response_ok:
  "length (rr_body r) \<le> 16384 \<Longrightarrow> make_response i r = response_wire i (word_of_int (rr_status r)) (rr_body r)"
  by (simp add: make_response_def sl_rpc_response_pack_def response_wire_def unat_lengths Let_def)

subsection \<open>Method names\<close>

definition method_segment :: "bytes \<Rightarrow> bool" where
  "method_segment s \<longleftrightarrow> s \<noteq> [] \<and> (\<forall>c \<in> set s. c_isalnum c \<or> c = 95)"

lemma method_loop_split:
  "method_loop cs n \<longleftrightarrow> (n > 0 \<or> hd (split_on 46 cs) \<noteq> []) \<and> (\<forall>c \<in> set (hd (split_on 46 cs)). c_isalnum c \<or> c = 95)
     \<and> list_all method_segment (tl (split_on 46 cs))"
proof (induction cs arbitrary: n)
  case (Cons c cs)
  obtain l ls where sp: "split_on 46 cs = l # ls" by (cases "split_on 46 cs") auto
  show ?case using Cons [of 0] Cons [of "n + 1"] sp by (auto simp: method_segment_def)
qed simp

lemma sl_rpc_method_valid_segments:
  "sl_rpc_method_is_valid (Some m) \<longleftrightarrow> length m \<le> 128 \<and> list_all method_segment (split_on 46 m)"
proof -
  obtain l ls where sp: "split_on 46 m = l # ls" by (cases "split_on 46 m") auto
  have segs: "method_loop m 0 \<longleftrightarrow> list_all method_segment (split_on 46 m)"
    using method_loop_split [of m 0] sp by (auto simp: method_segment_def)
  have "m \<noteq> [] \<and> m ! 0 \<noteq> 46 \<and> m ! (length m - 1) \<noteq> 46" if seg: "list_all method_segment (split_on 46 m)"
  proof (intro conjI)
    show ne: "m \<noteq> []" using seg by (auto simp: method_segment_def)
    show "m ! 0 \<noteq> 46" using seg ne by (cases m) (auto simp: method_segment_def)
    show "m ! (length m - 1) \<noteq> 46"
    proof
      assume "m ! (length m - 1) = 46"
      then have "m = butlast m @ [46]" using ne by (metis append_butlast_last_id last_conv_nth)
      then have "split_on 46 m = split_on 46 (butlast m) @ [[]]" by (metis split_on_snoc_sep)
      with seg show False by (simp add: method_segment_def)
    qed
  qed
  then show ?thesis using segs by (auto simp: sl_rpc_method_is_valid_def)
qed

lemma method_loop_chars: "method_loop cs n \<Longrightarrow> 0 \<notin> set cs"
  by (induction cs n rule: method_loop.induct) (auto simp: c_isalnum_def split: if_splits)

lemma valid_method: "sl_rpc_method_is_valid (Some m) \<Longrightarrow> m \<noteq> [] \<and> length m \<le> 128 \<and> 0 \<notin> set m"
  by (auto simp: sl_rpc_method_is_valid_def dest: method_loop_chars split: if_splits)

lemma last_dot_loop_none: "46 \<notin> set cs \<Longrightarrow> last_dot_loop cs i d = d"
  by (induction cs arbitrary: i) auto

lemma last_dot_loop_last: "46 \<notin> set suf \<Longrightarrow> last_dot_loop (pre @ 46 # suf) i d = Some (i + length pre)"
  by (induction pre arbitrary: i d) (simp_all add: last_dot_loop_none)

lemma sl_rpc_method_split_join:
  assumes "sl_rpc_method_is_valid (Some m)"
  shows "\<exists>ns leaf. sl_rpc_method_split (Some m) OUT OUT = Some (ns, leaf) \<and> 46 \<notin> set leaf
    \<and> m = (if ns = [] then leaf else ns @ 46 # leaf)"
proof (cases "46 \<in> set m")
  case True
  then obtain ns leaf where m: "m = ns @ 46 # leaf" "46 \<notin> set leaf" by (metis split_list_last)
  have "ns \<noteq> []"
  proof
    assume "ns = []"
    then have "m = 46 # leaf" using m(1) by simp
    then show False using assms by (simp add: sl_rpc_method_is_valid_def split: if_splits)
  qed
  then show ?thesis using assms m by (simp add: sl_rpc_method_split_def last_dot_loop_last)
qed (use assms in \<open>simp add: sl_rpc_method_split_def last_dot_loop_none\<close>)

subsection \<open>Every promise is kept once\<close>

datatype 'p rc_op = Begin clock_reading 'p bytes bytes u32 | Finish bool u32 | Response bytes
  | Sweep "u32 \<Rightarrow> clock_reading" | Cancel sl_rpc_status_t

fun rc_step :: "'p rc_op \<Rightarrow> 'p RpcClient \<Rightarrow> ('p \<times> RpcReply) list \<times> 'p RpcClient" where
  "rc_step (Begin ts p method body timeout_ms) c =
     (case call_begin ts p method body timeout_ms c of
        (Answered r, c') \<Rightarrow> ([(p, r)], c')
      | (Sending i wire, c') \<Rightarrow> ([], c'))"
| "rc_step (Finish sent i) c = call_finish sent i c"
| "rc_step (Response wire) c = snd (on_response wire c)"
| "rc_step (Sweep clk) c = snd (sweep_timeouts clk c)"
| "rc_step (Cancel status) c = cancel_all status c"

fun rc_started :: "'p rc_op \<Rightarrow> 'p list" where
  "rc_started (Begin ts p method body timeout_ms) = [p]"
| "rc_started _ = []"

fun rc_run :: "'p rc_op list \<Rightarrow> 'p RpcClient \<Rightarrow> ('p \<times> RpcReply) list \<times> 'p RpcClient" where
  "rc_run [] c = ([], c)"
| "rc_run (op # ops) c = (let (rs, c1) = rc_step op c; (rs', c2) = rc_run ops c1 in (rs @ rs', c2))"

abbreviation waiting :: "'p RpcClient \<Rightarrow> 'p list" where
  "waiting c \<equiv> map (\<lambda>e. pd_promise (snd e)) (rc_pending c)"

definition rc_inv :: "'p RpcClient \<Rightarrow> bool" where
  "rc_inv c \<longleftrightarrow> distinct (map fst (rc_pending c)) \<and> ri_ok (rc_ids c) \<and> (\<forall>e \<in> set (rc_pending c). unat (fst e) < ri_low (rc_ids c))"

lemma rc_inv_drop:
  assumes "rc_inv c" "distinct (map fst xs)" "set xs \<subseteq> set (rc_pending c)"
  shows "rc_inv (c\<lparr>rc_pending := xs, rc_stats := s\<rparr>)"
  using assms by (auto simp: rc_inv_def)

lemma rc_inv_delete: "rc_inv c \<Longrightarrow> rc_inv (c\<lparr>rc_pending := AList.delete i (rc_pending c), rc_stats := s\<rparr>)"
  by (rule rc_inv_drop) (auto simp: rc_inv_def AList.delete_eq distinct_map_filter)

lemma mset_delete:
  "distinct (map fst xs) \<Longrightarrow> map_of xs i = Some v \<Longrightarrow>
   mset (map f xs) = {#f (i, v)#} + mset (map f (AList.delete i xs))"
proof (induction xs)
  case (Cons e xs)
  show ?case
  proof (cases "fst e = i")
    case True
    moreover have "i \<notin> fst ` set xs" using Cons.prems(1) True by simp
    then have "AList.delete i xs = xs" by (simp add: AList.delete_eq) (metis (mono_tags, lifting) filter_True image_eqI case_prod_conv prod.collapse)
    ultimately show ?thesis using Cons.prems(2) by (cases e) auto
  next
    case False
    with Cons show ?thesis by (cases e) auto
  qed
qed simp

lemma waiting_delete:
  "rc_inv c \<Longrightarrow> map_of (rc_pending c) i = Some pend \<Longrightarrow>
   mset (waiting c) = add_mset (pd_promise pend) (mset (map (\<lambda>e. pd_promise (snd e)) (AList.delete i (rc_pending c))))"
  using mset_delete [of "rc_pending c" i pend "\<lambda>e. pd_promise (snd e)"] by (simp add: rc_inv_def)

lemma request_pack_wire:
  assumes "m \<noteq> []" "length m \<le> 128" "length b \<le> 16384"
  shows "sl_rpc_request_pack (Some \<lparr>rq_request_id = i, rq_method = write_at 0 m (replicate 129 0), rq_method_len = of_nat (length m),
      rq_body = (if b = [] then NULL else Some b), rq_body_len = of_nat (length b)\<rparr>) (Some (12 + length m + length b))
    = Some (request_wire i m b)"
  using assms by (simp add: sl_rpc_request_pack_def request_wire_def unat_lengths write_at_def Let_def)

definition call_deadline :: "clock_reading \<Rightarrow> u32 \<Rightarrow> u64" where
  "call_deadline ts timeout_ms = (if timeout_ms > 0 then sl_deadline_in_ms ts timeout_ms else 0)"

lemma call_begin_eq:
  "call_begin ts p method body timeout_ms c =
     (if sl_rpc_method_is_valid (Some method) \<and> length body \<le> 16384 then
        let (i, ids) = ri_nxt (rc_ids c); s = rc_stats c
        in if i = 0 then (Answered (reply_status 6), c\<lparr>rc_ids := ids\<rparr>)
           else (Sending i (request_wire i method body),
                 c\<lparr>rc_ids := ids, rc_pending := emplace i \<lparr>pd_promise = p, pd_deadline_ms = call_deadline ts timeout_ms\<rparr> (rc_pending c),
                   rc_stats := s\<lparr>calls_started := calls_started s + 1\<rparr>\<rparr>)
      else (Answered (reply_status 1), c))"
proof (cases "sl_rpc_method_is_valid (Some method) \<and> length body \<le> 16384")
  case True
  then have v: "sl_rpc_method_is_valid (Some method)" "\<not> length body > 16384" by auto
  with valid_method [of "method"] have "method \<noteq> []" "length method \<le> 128" "length body \<le> 16384" by auto
  note pack = request_pack_wire [OF this, of "fst (sl_rpc_id_next (Some (rc_ids c)))"]
  show ?thesis using v pack
    by (simp add: call_begin_def ri_nxt_def call_deadline_def split_beta Let_def)
qed (auto simp: call_begin_def)

lemma rc_begin_balance:
  assumes inv: "rc_inv c" and step: "rc_step (Begin ts p method body timeout_ms) c = (rs, c')"
  shows "rc_inv c' \<and> mset (p # waiting c) = mset (map fst rs @ waiting c')"
proof -
  obtain i ids where nx: "ri_nxt (rc_ids c) = (i, ids)" by fastforce
  have ok: "ri_ok (rc_ids c)" using inv by (simp add: rc_inv_def)
  have low: "ri_ok ids" "ri_low (rc_ids c) \<le> ri_low ids" using ri.nxt_invar [OF ok nx] ri.nxt_low [OF ok nx] .
  have more: "rc_inv (c\<lparr>rc_ids := ids\<rparr>)" using inv low by (fastforce simp: rc_inv_def)
  show ?thesis
  proof (cases "sl_rpc_method_is_valid (Some method) \<and> length body \<le> 16384 \<and> i \<noteq> 0")
    case True
    have fresh: "ri_low (rc_ids c) \<le> unat i" "unat i < ri_low ids" using ri.nxt_fresh [OF ok nx] True by auto
    then have new: "i \<notin> fst ` set (rc_pending c)" using inv by (fastforce simp: rc_inv_def)
    then have "map_of (rc_pending c) i = None" by (simp add: map_of_eq_None_iff)
    moreover have "unat a < ri_low ids" if "(a, b) \<in> set (rc_pending c)" for a b
      using more that by (fastforce simp: rc_inv_def)
    ultimately show ?thesis using step True nx more fresh new by (auto simp: call_begin_eq emplace_def rc_inv_def Let_def)
  next
    case False
    then show ?thesis using step nx more inv by (auto simp: call_begin_eq Let_def split: if_splits)
  qed
qed

lemma rc_step_balance:
  assumes inv: "rc_inv c" and step: "rc_step op c = (rs, c')"
  shows "rc_inv c' \<and> mset (rc_started op @ waiting c) = mset (map fst rs @ waiting c')"
proof (cases op)
  case (Begin ts p m b t)
  with rc_begin_balance [OF inv] step show ?thesis by simp
next
  case (Finish sent i)
  show ?thesis
  proof (cases "\<not> sent \<and> (\<exists>pend. map_of (rc_pending c) i = Some pend)")
    case True
    then obtain pend where pend: "map_of (rc_pending c) i = Some pend" by blast
    show ?thesis using step Finish True pend rc_inv_delete [OF inv, where i = i] waiting_delete [OF inv pend]
      by (auto simp: call_finish_def Let_def)
  next
    case False
    then have "rs = []" "c' = c" using step Finish by (auto simp: call_finish_def Let_def split: if_splits)
    then show ?thesis using inv Finish by simp
  qed
next
  case (Response w)
  obtain rc rp where u: "sl_rpc_response_unpack (Some w) (Some rpc_response_zero) = (rc, rp)" by fastforce
  let ?i = "rs_request_id (the rp)"
  show ?thesis
  proof (cases "rc = 0 \<and> (\<exists>pend. map_of (rc_pending c) ?i = Some pend)")
    case True
    then obtain pend where pend: "map_of (rc_pending c) ?i = Some pend" by blast
    show ?thesis using step Response u True pend rc_inv_delete [OF inv, where i = ?i]
        waiting_delete [OF inv pend]
      by (auto simp: on_response_def Let_def)
  next
    case False
    then have "rs = []" "\<exists>s. c' = c\<lparr>rc_stats := s\<rparr>" using step Response u
      by (auto simp: on_response_def Let_def split: if_splits option.splits)
    then show ?thesis using inv Response by (fastforce simp: rc_inv_def)
  qed
next
  case (Sweep clk)
  let ?e = "filter (call_expired clk) (rc_pending c)" and ?k = "filter (\<lambda>e. \<not> call_expired clk e) (rc_pending c)"
  have "distinct (map fst ?k)" "set ?k \<subseteq> set (rc_pending c)" using inv by (auto simp: rc_inv_def distinct_map_filter)
  from rc_inv_drop [OF inv this] have "rc_inv c'" using step Sweep by (auto simp: sweep_timeouts_def Let_def)
  moreover have "mset (waiting c) = mset (map (\<lambda>e. pd_promise (snd e)) ?e) + mset (map (\<lambda>e. pd_promise (snd e)) ?k)"
    by (simp flip: image_mset_union add: union_filter_mset_complement)
  ultimately show ?thesis using step Sweep by (auto simp: sweep_timeouts_def Let_def case_prod_unfold comp_def multiset.map_comp)
next
  case (Cancel status)
  then show ?thesis using step inv by (auto simp: cancel_all_def Let_def case_prod_unfold comp_def rc_inv_def multiset.map_comp)
qed

lemma rc_run_balance:
  "rc_inv c \<Longrightarrow> rc_run ops c = (rs, c') \<Longrightarrow>
   rc_inv c' \<and> mset (concat (map rc_started ops) @ waiting c) = mset (map fst rs @ waiting c')"
proof (induction ops arbitrary: c rs)
  case (Cons op ops)
  obtain r1 c1 r2 where st: "rc_step op c = (r1, c1)" "rc_run ops c1 = (r2, c')" "rs = r1 @ r2"
    using Cons.prems(2) by (auto split: prod.splits)
  from rc_step_balance [OF Cons.prems(1) st(1)] have
    one: "rc_inv c1" "mset (rc_started op) + mset (waiting c) = mset (map fst r1) + mset (waiting c1)" by simp_all
  from Cons.IH [OF one(1) st(2)] have
    two: "rc_inv c'" "mset (concat (map rc_started ops)) + mset (waiting c1) = mset (map fst r2) + mset (waiting c')" by simp_all
  have "mset (concat (map rc_started (op # ops)) @ waiting c)
    = mset (concat (map rc_started ops)) + (mset (rc_started op) + mset (waiting c))" by (simp add: ac_simps)
  also have "\<dots> = mset (map fst r1) + (mset (concat (map rc_started ops)) + mset (waiting c1))" unfolding one(2) by (simp add: ac_simps)
  also have "\<dots> = mset (map fst rs @ waiting c')" unfolding two(2) by (simp add: st(3) ac_simps)
  finally show ?case using two(1) by blast
qed simp

lemma rc_new_inv: "rc_inv rc_new"
  by (simp add: rc_inv_def rc_new_def sl_rpc_id_init_def ri_ok_def)

text \<open>
  C35. Every future the client hands out is settled exactly once. Whatever the interleaving of calls, failed
  sends, responses (valid, repeated, forged or malformed), timeout sweeps and cancellations, the promises
  made are the ones settled so far plus the ones waiting under ids of their own, each counted once; and
  destroying the client settles all that remain, so none is broken and none is set twice.
\<close>

theorem rpc_promises_kept_once:
  assumes "rc_run ops rc_new = (settled, c)"
  shows "mset (concat (map rc_started ops)) = mset (map fst settled) + mset (map (\<lambda>e. pd_promise (snd e)) (rc_pending c))
    \<and> distinct (map fst (rc_pending c))
    \<and> mset (concat (map rc_started ops)) = mset (map fst (settled @ rc_destroy c))"
proof -
  from rc_run_balance [OF rc_new_inv assms] have "rc_inv c"
    "mset (concat (map rc_started ops)) = mset (map fst settled) + mset (waiting c)" by (simp_all add: rc_new_def)
  moreover have "map fst (rc_destroy c) = waiting c" by (simp add: rc_destroy_def cancel_all_def Let_def case_prod_unfold comp_def)
  ultimately show ?thesis by (simp add: rc_inv_def)
qed

text \<open>A call answered, a repeated answer ignored, and a call whose send fails.\<close>

definition rpc_example :: "string rc_op list" where
  "rpc_example = [Begin None ''p'' [97] [] 0, Begin None ''q'' [98] [7] 100, Response (response_wire 1 0 [9]),
     Response (response_wire 1 0 [9]), Finish False 2, Begin None ''r'' [46] [] 0]"

theorem rpc_promises_kept_once_witness:
  "\<exists>settled c. rc_run rpc_example rc_new = (settled, c) \<and> mset (map fst (settled @ rc_destroy c)) = {#''p'', ''q'', ''r''#}"
proof -
  obtain settled c where run: "rc_run rpc_example rc_new = (settled, c)" by fastforce
  with rpc_promises_kept_once [OF run] show ?thesis by (auto simp: rpc_example_def)
qed

subsection \<open>A call end to end\<close>

text \<open>What a dispatcher answers to a method and a body, and the world after it.\<close>

definition answer :: "('h, 'w) invoke \<Rightarrow> (bytes \<times> 'h) list \<Rightarrow> bytes \<Rightarrow> bytes \<Rightarrow> 'w \<Rightarrow> RpcResponse \<times> 'w" where
  "answer invoke methods m b w =
     (case map_of methods m of
        None \<Rightarrow> (\<lparr>rr_status = SL_RPC_NOT_FOUND, rr_body = []\<rparr>, w)
      | Some h \<Rightarrow> (case invoke h b w of
                    (None, w') \<Rightarrow> (\<lparr>rr_status = SL_RPC_INTERNAL, rr_body = []\<rparr>, w')
                  | (Some r, w') \<Rightarrow> (r, w')))"

lemma rd_handle_wire:
  assumes "m \<noteq> []" "length m \<le> 128" "0 \<notin> set m" "length b \<le> 16384" "answer invoke (rd_methods d) m b w = (r, w')"
  shows "\<exists>s. rd_handle invoke (request_wire i m b) d w = (make_response i r, d\<lparr>rd_stats := s\<rparr>, w')"
proof -
  have z: "length (rq_method rpc_request_zero) = 129" by (simp add: rpc_request_zero_def)
  have "unat (of_nat (length b) :: u32) = length b" using assms(4) by (rule unat_lengths)
  then show ?thesis
    using assms(5) sl_rpc_request_unpack_wire [OF assms(1,2,4) z, of i] c_string_prefix [OF assms(3)]
    by (auto simp: rd_handle_def answer_def request_body_def Let_def split: option.splits prod.splits)
qed

text \<open>
  C34. A call end to end: a method name the client accepts travels in a request the dispatcher reads as
  that method and that body, and the dispatcher's reply, brought back to the client, settles that
  call's promise (and no other) with the status and the bytes the handler returned; with
  \<open>not_found\<close> when no such method is registered, and with \<open>internal\<close> when the handler throws.
  The handler's status must fit a byte and its body the limit of the format.
\<close>

theorem rpc_end_to_end:
  assumes "rc_run ops rc_new = (settled, c)"
    and "call_begin ts p method body timeout_ms c = (Sending i wire, c1)"
    and "answer invoke (rd_methods d) method body w = (r, w')"
    and "0 \<le> rr_status r" "rr_status r < 256" "length (rr_body r) \<le> SL_RPC_BODY_MAX"
  shows "\<exists>reply d' c2. rd_handle invoke wire d w = (reply, d', w')
    \<and> on_response reply c1 = (True, [(p, \<lparr>rp_status = rr_status r, rp_body = rr_body r, rp_timed_out = False\<rparr>)], c2)
    \<and> rc_pending c2 = rc_pending c"
proof -
  have inv: "rc_inv c" using rc_run_balance [OF rc_new_inv assms(1)] by blast
  obtain ids where v: "sl_rpc_method_is_valid (Some method)" "length body \<le> 16384" "ri_nxt (rc_ids c) = (i, ids)" "i \<noteq> 0"
    and w: "wire = request_wire i method body"
    and c1: "rc_pending c1 = emplace i \<lparr>pd_promise = p, pd_deadline_ms = call_deadline ts timeout_ms\<rparr> (rc_pending c)"
    using assms(2) by (auto simp: call_begin_eq Let_def split: if_splits prod.splits)
  have fresh: "ri_low (rc_ids c) \<le> unat i" using ri.nxt_fresh [OF _ v(3,4)] inv by (simp add: rc_inv_def)
  then have new: "i \<notin> fst ` set (rc_pending c)" using inv by (fastforce simp: rc_inv_def)
  then have pend: "rc_pending c1 = rc_pending c @ [(i, \<lparr>pd_promise = p, pd_deadline_ms = call_deadline ts timeout_ms\<rparr>)]"
    by (simp add: c1 emplace_def map_of_eq_None_iff [THEN iffD2])
  have found: "map_of (rc_pending c1) i = Some \<lparr>pd_promise = p, pd_deadline_ms = call_deadline ts timeout_ms\<rparr>"
    using new by (simp add: pend map_add_def map_of_eq_None_iff [THEN iffD2])
  have rest: "AList.delete i (rc_pending c1) = rc_pending c" using new
    by (force simp: pend AList.delete_eq intro!: filter_True)
  obtain s where h: "rd_handle invoke wire d w = (make_response i r, d\<lparr>rd_stats := s\<rparr>, w')"
    using rd_handle_wire [OF _ _ _ v(2) assms(3)] valid_method [OF v(1)] w by blast
  have "uint (word_of_int (rr_status r) :: u8) = rr_status r" using assms(4,5) by (simp add: uint_word_of_int)
  moreover have "unat (of_nat (length (rr_body r)) :: u32) = length (rr_body r)" using assms(6) by (rule unat_lengths)
  ultimately show ?thesis using h found rest sl_rpc_response_unpack_wire [OF assms(6), of i "word_of_int (rr_status r)" rpc_response_zero]
    by (simp add: on_response_def make_response_ok [OF assms(6)] rpc_response_zero_def Let_def)
qed

definition echo :: "(nat, unit) invoke" where
  "echo h b w = (if h = 0 then Some \<lparr>rr_status = SL_RPC_OK, rr_body = b\<rparr> else None, w)"

theorem rpc_end_to_end_witness:
  "\<exists>i wire c1 reply d' c2. call_begin None ''p'' [97] [7, 8] 0 rc_new = (Sending i wire, c1)
     \<and> rd_handle echo wire (register_method [97] 0 rd_new) () = (reply, d', ())
     \<and> on_response reply c1 = (True, [(''p'', \<lparr>rp_status = SL_RPC_OK, rp_body = [7, 8], rp_timed_out = False\<rparr>)], c2)"
proof -
  have run: "rc_run [] rc_new = ([], rc_new :: string RpcClient)" by simp
  obtain i wire c1 where b: "call_begin None ''p'' [97] [7, 8] 0 (rc_new :: string RpcClient) = (Sending i wire, c1)"
    by (auto simp: call_begin_eq ri_nxt_def rc_new_def sl_rpc_id_init_def sl_rpc_id_next_def sl_rpc_method_is_valid_def c_isalnum_def Let_def)
  have "answer echo (rd_methods (register_method [97] 0 rd_new)) [97] [7, 8] () = (\<lparr>rr_status = SL_RPC_OK, rr_body = [7, 8]\<rparr>, ())"
    by (simp add: answer_def echo_def register_method_def rd_new_def)
  from rpc_end_to_end [OF run b this] b show ?thesis by auto
qed

subsection \<open>Errors of the dispatcher\<close>

lemma count_result_stats:
  "requests_total (count_result res s) = requests_total s"
  "responses_ok (count_result res s) + responses_error (count_result res s) - handler_threw (count_result res s)
     = responses_ok s + responses_error s - handler_threw s + 1"
  by (cases res; simp add: count_result_def Let_def)+

definition replies_fit :: "('h, 'w) invoke \<Rightarrow> bool" where
  "replies_fit invoke \<longleftrightarrow> (\<forall>h b v r v'. invoke h b v = (Some r, v') \<longrightarrow>
     length (rr_body r) \<le> SL_RPC_BODY_MAX \<and> 0 \<le> rr_status r \<and> rr_status r < 256)"


definition pong :: "(nat, unit) invoke" where
  "pong h b w = (if h = 0 then Some \<lparr>rr_status = SL_RPC_OK, rr_body = [1]\<rparr> else None, w)"


text \<open>
  The statistics count a request whose handler throws as two errors: replies of both kinds exceed
  requests by the number of handlers that threw.
\<close>

lemma thrown_counted_twice:
  assumes "rd_handle invoke bytes d w = (reply, d', w')"
    and "responses_ok (rd_stats d) + responses_error (rd_stats d) = requests_total (rd_stats d) + handler_threw (rd_stats d)"
  shows "responses_ok (rd_stats d') + responses_error (rd_stats d') = requests_total (rd_stats d') + handler_threw (rd_stats d')"
proof -
  obtain rc rp where u: "sl_rpc_request_unpack (Some bytes) (Some rpc_request_zero) = (rc, rp)" by fastforce
  have c: "responses_ok (count_result res s) + responses_error (count_result res s) = requests_total (count_result res s) + handler_threw (count_result res s)"
    if "responses_ok s + responses_error s + 1 = requests_total s + handler_threw s" for res s
    using that by (cases res) (auto simp: count_result_def Let_def algebra_simps)
  show ?thesis using assms u c
    by (auto simp: rd_handle_def Let_def algebra_simps split: if_splits option.splits prod.splits)
qed

text \<open>A handler that returns too large a body is answered with no bytes at all.\<close>

lemma oversized_reply_empty:
  "16384 < length (rr_body r) \<Longrightarrow> length (rr_body r) < 2 ^ 32 \<Longrightarrow> make_response i r = []"
  by (simp add: make_response_def sl_rpc_response_pack_def unat_of_nat Let_def)

end
