(* ===== verification/SL_Mux.thy ===== *)
theory SL_Mux
  imports SL_Stream SL_States "HOL-Library.AList"
begin

text \<open>
  The stream multiplexer, \<open>stream_multiplexer.cpp\<close>: many streams with their states, windows and queues
  over one session. Each method holds the mutex throughout, so it is one step. The streams are
  an association list; the order in which the hash map is walked is an argument of the
  only method that depends on it, and the steady clock is an argument where a stream is opened.
\<close>

abbreviation (input) SL_STREAM_FRAME_DATA :: sl_stream_frame_type_t where "SL_STREAM_FRAME_DATA \<equiv> 1"
abbreviation (input) SL_STREAM_FRAME_WINDOW :: sl_stream_frame_type_t where "SL_STREAM_FRAME_WINDOW \<equiv> 2"
abbreviation (input) SL_STREAM_FRAME_RESET :: sl_stream_frame_type_t where "SL_STREAM_FRAME_RESET \<equiv> 3"
abbreviation (input) SL_STREAM_FLAG_FIN :: u8 where "SL_STREAM_FLAG_FIN \<equiv> 1"
abbreviation (input) SL_STREAM_ID_CONTROL :: u32 where "SL_STREAM_ID_CONTROL \<equiv> 0"

record StreamRecord =
  sr_state :: StreamState
  sr_flow :: sl_flow_ctrl_t
  sr_priority :: sl_priority_t
  sr_outbound :: "bytes list"
  sr_inbound :: bytes
  sr_inbound_fin :: bool

record MuxStats =
  streams_opened :: u64
  streams_closed :: u64
  frames_in :: u64
  frames_out :: u64
  bytes_in :: u64
  bytes_out :: u64
  flow_blocks :: u64
  mux_resets :: u64

record StreamMultiplexer =
  mx_role :: sl_stream_role_t
  mx_initial_window :: u32
  mx_id_alloc :: sl_stream_id_alloc_t
  mx_session_flow :: sl_flow_ctrl_t
  mx_streams :: "(u32 \<times> StreamRecord) list"
  mx_stats :: MuxStats

definition flow_zero :: sl_flow_ctrl_t where
  "flow_zero = \<lparr>fc_send_credit = 0, fc_recv_window = 0\<rparr>"

definition mux_new :: "sl_stream_role_t \<Rightarrow> u32 \<Rightarrow> StreamMultiplexer" where
  "mux_new role initial_window =
     \<lparr>mx_role = role, mx_initial_window = initial_window,
      mx_id_alloc = the (sl_stream_id_init (Some \<lparr>sid_role = 0, sid_next_id = 0\<rparr>) role),
      mx_session_flow = the (sl_flow_init_with (Some flow_zero) initial_window),
      mx_streams = [],
      mx_stats = \<lparr>streams_opened = 0, streams_closed = 0, frames_in = 0, frames_out = 0, bytes_in = 0, bytes_out = 0,
                  flow_blocks = 0, mux_resets = 0\<rparr>\<rparr>"

definition mux_find :: "StreamMultiplexer \<Rightarrow> u32 \<Rightarrow> StreamRecord ptr" where
  "mux_find m i = map_of (mx_streams m) i"

text \<open>Writing through the pointer \<open>find\<close> returns.\<close>

definition mux_put :: "u32 \<Rightarrow> StreamRecord \<Rightarrow> StreamMultiplexer \<Rightarrow> StreamMultiplexer" where
  "mux_put i rec m = m\<lparr>mx_streams := AList.update i rec (mx_streams m)\<rparr>"

definition mux_find_or_create :: "int \<Rightarrow> u32 \<Rightarrow> bool \<Rightarrow> StreamMultiplexer \<Rightarrow> StreamRecord \<times> StreamMultiplexer" where
  "mux_find_or_create now i peer_initiated m =
     (case mux_find m i of
        Some rec \<Rightarrow> (rec, m)
      | None \<Rightarrow>
          let rec = \<lparr>sr_state = snd (ss_open now (ss_new now i)), sr_flow = the (sl_flow_init_with (Some flow_zero) (mx_initial_window m)),
                     sr_priority = sl_priority_default_for i, sr_outbound = [], sr_inbound = [], sr_inbound_fin = False\<rparr>;
              s = mx_stats m
          in (rec, (mux_put i rec m)\<lparr>mx_stats := s\<lparr>streams_opened := streams_opened s + 1\<rparr>\<rparr>))"

definition open_stream :: "int \<Rightarrow> sl_priority_t \<Rightarrow> StreamMultiplexer \<Rightarrow> u32 \<times> StreamMultiplexer" where
  "open_stream now prio m =
     (let (i, alloc) = sl_stream_id_next (Some (mx_id_alloc m)); m1 = m\<lparr>mx_id_alloc := the alloc\<rparr>
      in if i = 0 then (0, m1)
         else let (rec, m2) = mux_find_or_create now i False m1
              in (i, mux_put i (rec\<lparr>sr_priority := prio\<rparr>) m2))"

definition queue_fin :: "StreamRecord \<Rightarrow> StreamRecord" where
  "queue_fin rec =
     (let rec1 = rec\<lparr>sr_state := snd (ss_on_sent_fin (sr_state rec))\<rparr>
      in if sr_outbound rec1 = [] then rec1\<lparr>sr_outbound := [[]]\<rparr> else rec1)"

definition send_data :: "u32 \<Rightarrow> bytes \<Rightarrow> bool \<Rightarrow> StreamMultiplexer \<Rightarrow> bool \<times> StreamMultiplexer" where
  "send_data i data fin m =
     (let n = of_nat (length data) :: u32; s = mx_stats m
      in case mux_find m i of
           None \<Rightarrow> (False, m)
         | Some rec \<Rightarrow>
             if \<not> ss_can_send (sr_state rec) then (False, m)
             else if length data > SL_STREAM_FRAME_MAX_PAYLOAD then (False, m)
             else if length data > 0 \<and> (\<not> sl_flow_can_send (Some (sr_flow rec)) n \<or> \<not> sl_flow_can_send (Some (mx_session_flow m)) n) then
               (False, m\<lparr>mx_stats := s\<lparr>flow_blocks := flow_blocks s + 1\<rparr>\<rparr>)
             else
               let (rec1, m1) =
                     (if length data > 0 then
                        (rec\<lparr>sr_flow := the (snd (sl_flow_charge_send (Some (sr_flow rec)) n)), sr_outbound := sr_outbound rec @ [data]\<rparr>,
                         m\<lparr>mx_session_flow := the (snd (sl_flow_charge_send (Some (mx_session_flow m)) n))\<rparr>)
                      else (rec, m))
               in (True, mux_put i (if fin then queue_fin rec1 else rec1) m1))"

definition on_data :: "sl_stream_frame_t \<Rightarrow> StreamRecord \<Rightarrow> StreamMultiplexer \<Rightarrow> bool \<times> StreamMultiplexer" where
  "on_data f rec m =
     (let i = sf_stream_id f; n = ucast (sf_payload_len f) :: u32
      in if \<not> ss_can_recv (sr_state rec) then (False, m)
         else
           let (rc1, flow1) = (if n > 0 then sl_flow_charge_recv (Some (sr_flow rec)) n else (0, Some (sr_flow rec)))
           in if rc1 \<noteq> 0 then (False, m)
              else
                let rec1 = rec\<lparr>sr_flow := the flow1\<rparr>;
                    (rc2, flow2) = (if n > 0 then sl_flow_charge_recv (Some (mx_session_flow m)) n else (0, Some (mx_session_flow m)))
                in if rc2 \<noteq> 0 then (False, mux_put i rec1 m)
                   else
                     let rec2 = (if n > 0 then rec1\<lparr>sr_inbound := sr_inbound rec1 @ take (unat n) (the (sf_payload f))\<rparr> else rec1);
                         rec3 = (if sf_flags f AND SL_STREAM_FLAG_FIN \<noteq> 0
                                 then rec2\<lparr>sr_state := snd (ss_on_recv_fin (sr_state rec2)), sr_inbound_fin := True\<rparr> else rec2)
                     in (True, (mux_put i rec3 m)\<lparr>mx_session_flow := the flow2\<rparr>))"

definition on_window :: "sl_stream_frame_t \<Rightarrow> StreamRecord \<Rightarrow> StreamMultiplexer \<Rightarrow> bool \<times> StreamMultiplexer" where
  "on_window f rec m =
     (if sf_payload_len f < 4 then (False, m)
      else let p = the (sf_payload f);
               delta = push_bit 24 (ucast (p ! 0)) OR push_bit 16 (ucast (p ! 1)) OR push_bit 8 (ucast (p ! 2)) OR ucast (p ! 3)
           in (True, mux_put (sf_stream_id f) (rec\<lparr>sr_flow := the (snd (sl_flow_grant_send (Some (sr_flow rec)) delta))\<rparr>) m))"

definition mux_reset_with :: "u32 \<Rightarrow> string \<Rightarrow> StreamRecord \<Rightarrow> StreamMultiplexer \<Rightarrow> StreamMultiplexer" where
  "mux_reset_with i reason rec m =
     (let s = mx_stats m
      in (mux_put i (rec\<lparr>sr_state := ss_reset reason (sr_state rec)\<rparr>) m)\<lparr>mx_stats := s\<lparr>mux_resets := mux_resets s + 1\<rparr>\<rparr>)"

definition on_frame :: "int \<Rightarrow> sl_stream_frame_t \<Rightarrow> StreamMultiplexer \<Rightarrow> bool \<times> StreamMultiplexer" where
  "on_frame now f m0 =
     (let s = mx_stats m0;
          m = m0\<lparr>mx_stats := s\<lparr>frames_in := frames_in s + 1, bytes_in := bytes_in s + ucast (sf_payload_len f)\<rparr>\<rparr>;
          i = sf_stream_id f
      in if i = SL_STREAM_ID_CONTROL then (True, m)
         else if mux_find m i = NULL \<and> \<not> sl_stream_id_belongs_to_peer i (mx_role m) then (False, m)
         else
           let (rec, m1) = mux_find_or_create now i True m
           in if sf_type f = SL_STREAM_FRAME_DATA then on_data f rec m1
              else if sf_type f = SL_STREAM_FRAME_WINDOW then on_window f rec m1
              else if sf_type f = SL_STREAM_FRAME_RESET then (True, mux_reset_with i ''peer_reset'' rec m1)
              else (True, m1))"

text \<open>The first stream with something to send, priority bands first, then in the order of the map.\<close>

definition sendable :: "StreamMultiplexer \<Rightarrow> int \<Rightarrow> u32 \<Rightarrow> bool" where
  "sendable m band i =
     (case mux_find m i of None \<Rightarrow> False | Some rec \<Rightarrow> sr_priority rec = band \<and> sr_outbound rec \<noteq> [])"

fun pick_band :: "StreamMultiplexer \<Rightarrow> u32 list \<Rightarrow> int list \<Rightarrow> u32 option" where
  "pick_band m order [] = None"
| "pick_band m order (band # bands) =
     (case List.find (sendable m band) order of
        Some i \<Rightarrow> Some i
      | None \<Rightarrow> pick_band m order bands)"

definition pop_outbound :: "u32 list \<Rightarrow> StreamMultiplexer \<Rightarrow> sl_stream_frame_t option \<times> StreamMultiplexer" where
  "pop_outbound order m =
     (case pick_band m order [0, 1, 2, 3, 4] of
        None \<Rightarrow> (None, m)
      | Some i \<Rightarrow>
          let rec = the (mux_find m i); chunk = hd (sr_outbound rec); rec1 = rec\<lparr>sr_outbound := tl (sr_outbound rec)\<rparr>;
              flags = (if sr_outbound rec1 = [] \<and> ss_phase (sr_state rec1) = kHalfClosedLocal then 0 OR SL_STREAM_FLAG_FIN else 0);
              f = \<lparr>sf_type = SL_STREAM_FRAME_DATA, sf_flags = flags, sf_stream_id = i,
                   sf_payload = (if chunk = [] then NULL else Some chunk), sf_payload_len = of_nat (length chunk)\<rparr>;
              s = mx_stats m
          in (Some f, (mux_put i rec1 m)\<lparr>mx_stats := s\<lparr>frames_out := frames_out s + 1,
                                                        bytes_out := bytes_out s + ucast (sf_payload_len f)\<rparr>\<rparr>))"

definition read_inbound :: "u32 \<Rightarrow> StreamMultiplexer \<Rightarrow> bytes \<times> StreamMultiplexer" where
  "read_inbound i m =
     (case mux_find m i of
        None \<Rightarrow> ([], m)
      | Some rec \<Rightarrow>
          let n = of_nat (length (sr_inbound rec)) :: u32; s = mx_stats m;
              rec1 = rec\<lparr>sr_inbound := [], sr_flow := the (snd (sl_flow_grant_recv (Some (sr_flow rec)) n))\<rparr>;
              m1 = (mux_put i rec1 m)\<lparr>mx_session_flow := the (snd (sl_flow_grant_recv (Some (mx_session_flow m)) n))\<rparr>
          in (sr_inbound rec,
              if sr_inbound_fin rec1 \<and> ss_phase (sr_state rec1) = kHalfClosedLocal
              then m1\<lparr>mx_stats := s\<lparr>streams_closed := streams_closed s + 1\<rparr>\<rparr> else m1))"

definition reset_stream :: "u32 \<Rightarrow> string \<Rightarrow> StreamMultiplexer \<Rightarrow> bool \<times> StreamMultiplexer" where
  "reset_stream i reason m =
     (case mux_find m i of
        None \<Rightarrow> (False, m)
      | Some rec \<Rightarrow> (True, mux_reset_with i reason rec m))"

definition mux_is_open :: "StreamMultiplexer \<Rightarrow> u32 \<Rightarrow> bool" where
  "mux_is_open m i = (case mux_find m i of None \<Rightarrow> False | Some rec \<Rightarrow> \<not> ss_is_closed (sr_state rec))"

definition open_stream_count :: "StreamMultiplexer \<Rightarrow> nat" where
  "open_stream_count m = length (filter (\<lambda>(i, rec). \<not> ss_is_closed (sr_state rec)) (mx_streams m))"

subsection \<open>The two halves of a stream\<close>

text \<open>
  What sending depends on and what receiving depends on, per stream; a stream that does not exist
  yet has the values it will be created with.
\<close>

abbreviation known :: "StreamMultiplexer \<Rightarrow> u32 \<Rightarrow> bool" where
  "known m i \<equiv> mux_find m i \<noteq> None"

definition credit :: "StreamMultiplexer \<Rightarrow> u32 \<Rightarrow> int" where
  "credit m i = (case mux_find m i of None \<Rightarrow> uint (mx_initial_window m) | Some rec \<Rightarrow> fc_send_credit (sr_flow rec))"

definition queued :: "StreamMultiplexer \<Rightarrow> u32 \<Rightarrow> bytes list" where
  "queued m i = (case mux_find m i of None \<Rightarrow> [] | Some rec \<Rightarrow> sr_outbound rec)"

definition may_send :: "StreamMultiplexer \<Rightarrow> u32 \<Rightarrow> bool" where
  "may_send m i = (case mux_find m i of None \<Rightarrow> True | Some rec \<Rightarrow> ss_can_send (sr_state rec))"

definition window :: "StreamMultiplexer \<Rightarrow> u32 \<Rightarrow> int" where
  "window m i = (case mux_find m i of None \<Rightarrow> uint (mx_initial_window m) | Some rec \<Rightarrow> fc_recv_window (sr_flow rec))"

definition held :: "StreamMultiplexer \<Rightarrow> u32 \<Rightarrow> bytes" where
  "held m i = (case mux_find m i of None \<Rightarrow> [] | Some rec \<Rightarrow> sr_inbound rec)"

definition may_recv :: "StreamMultiplexer \<Rightarrow> u32 \<Rightarrow> bool" where
  "may_recv m i = (case mux_find m i of None \<Rightarrow> True | Some rec \<Rightarrow> ss_can_recv (sr_state rec))"

definition same_sending :: "StreamMultiplexer \<Rightarrow> StreamMultiplexer \<Rightarrow> bool" where
  "same_sending m m' \<longleftrightarrow> credit m' = credit m \<and> queued m' = queued m \<and> may_send m' = may_send m
     \<and> fc_send_credit (mx_session_flow m') = fc_send_credit (mx_session_flow m)"

definition same_receiving :: "StreamMultiplexer \<Rightarrow> StreamMultiplexer \<Rightarrow> bool" where
  "same_receiving m m' \<longleftrightarrow> window m' = window m \<and> held m' = held m \<and> may_recv m' = may_recv m
     \<and> fc_recv_window (mx_session_flow m') = fc_recv_window (mx_session_flow m)"

definition same_frame :: "StreamMultiplexer \<Rightarrow> StreamMultiplexer \<Rightarrow> bool" where
  "same_frame m m' \<longleftrightarrow> mx_role m' = mx_role m \<and> mx_initial_window m' = mx_initial_window m"

lemma mux_find_put [simp]: "mux_find (mux_put i rec m) j = (if j = i then Some rec else mux_find m j)"
  by (simp add: mux_find_def mux_put_def update_conv')

lemma mux_find_more [simp]:
  "mux_find (m\<lparr>mx_stats := s\<rparr>) j = mux_find m j" "mux_find (m\<lparr>mx_session_flow := fl\<rparr>) j = mux_find m j"
  "mux_find (m\<lparr>mx_id_alloc := al\<rparr>) j = mux_find m j"
  by (simp_all add: mux_find_def)

lemma mux_put_more [simp]:
  "mx_role (mux_put i rec m) = mx_role m" "mx_initial_window (mux_put i rec m) = mx_initial_window m"
  "mx_session_flow (mux_put i rec m) = mx_session_flow m" "mx_stats (mux_put i rec m) = mx_stats m"
  "mx_id_alloc (mux_put i rec m) = mx_id_alloc m"
  by (simp_all add: mux_put_def)

lemmas view_defs = credit_def queued_def may_send_def window_def held_def may_recv_def

lemma view_put [simp]:
  "credit (mux_put i rec m) = (credit m)(i := fc_send_credit (sr_flow rec))"
  "queued (mux_put i rec m) = (queued m)(i := sr_outbound rec)"
  "may_send (mux_put i rec m) = (may_send m)(i := ss_can_send (sr_state rec))"
  "window (mux_put i rec m) = (window m)(i := fc_recv_window (sr_flow rec))"
  "held (mux_put i rec m) = (held m)(i := sr_inbound rec)"
  "may_recv (mux_put i rec m) = (may_recv m)(i := ss_can_recv (sr_state rec))"
  by (simp_all add: view_defs fun_eq_iff split: option.splits)

lemma view_more [simp]:
  "credit (m\<lparr>mx_stats := s\<rparr>) = credit m" "queued (m\<lparr>mx_stats := s\<rparr>) = queued m" "may_send (m\<lparr>mx_stats := s\<rparr>) = may_send m"
  "window (m\<lparr>mx_stats := s\<rparr>) = window m" "held (m\<lparr>mx_stats := s\<rparr>) = held m" "may_recv (m\<lparr>mx_stats := s\<rparr>) = may_recv m"
  "credit (m\<lparr>mx_session_flow := fl\<rparr>) = credit m" "queued (m\<lparr>mx_session_flow := fl\<rparr>) = queued m"
  "may_send (m\<lparr>mx_session_flow := fl\<rparr>) = may_send m" "window (m\<lparr>mx_session_flow := fl\<rparr>) = window m"
  "held (m\<lparr>mx_session_flow := fl\<rparr>) = held m" "may_recv (m\<lparr>mx_session_flow := fl\<rparr>) = may_recv m"
  "credit (m\<lparr>mx_id_alloc := al\<rparr>) = credit m" "queued (m\<lparr>mx_id_alloc := al\<rparr>) = queued m"
  "may_send (m\<lparr>mx_id_alloc := al\<rparr>) = may_send m" "window (m\<lparr>mx_id_alloc := al\<rparr>) = window m"
  "held (m\<lparr>mx_id_alloc := al\<rparr>) = held m" "may_recv (m\<lparr>mx_id_alloc := al\<rparr>) = may_recv m"
  by (simp_all add: view_defs fun_eq_iff split: option.splits)

lemma view_found:
  assumes "mux_find m i = Some rec"
  shows "fc_send_credit (sr_flow rec) = credit m i" "sr_outbound rec = queued m i" "ss_can_send (sr_state rec) = may_send m i"
    "fc_recv_window (sr_flow rec) = window m i" "sr_inbound rec = held m i" "ss_can_recv (sr_state rec) = may_recv m i"
  using assms by (simp_all add: view_defs)

lemma view_missing:
  assumes "mux_find m i = None"
  shows "credit m i = uint (mx_initial_window m)" "queued m i = []" "may_send m i" "window m i = uint (mx_initial_window m)"
    "held m i = []" "may_recv m i"
  using assms by (simp_all add: view_defs)

lemma mux_find_or_create_views:
  assumes "mux_find_or_create now i b m = (rec, m')"
  shows "mux_find m' i = Some rec" "same_sending m m'" "same_receiving m m'" "same_frame m m'"
    "mx_id_alloc m' = mx_id_alloc m" "mx_session_flow m' = mx_session_flow m" "\<And>j. known m' j \<longleftrightarrow> known m j \<or> j = i"
proof -
  consider rec0 where "mux_find m i = Some rec0" "rec = rec0" "m' = m" | "mux_find m i = None"
    "rec = \<lparr>sr_state = snd (ss_open now (ss_new now i)), sr_flow = the (sl_flow_init_with (Some flow_zero) (mx_initial_window m)),
                     sr_priority = sl_priority_default_for i, sr_outbound = [], sr_inbound = [], sr_inbound_fin = False\<rparr>"
    "m' = (mux_put i rec m)\<lparr>mx_stats := (mx_stats m)\<lparr>streams_opened := streams_opened (mx_stats m) + 1\<rparr>\<rparr>"
    using assms by (auto simp: mux_find_or_create_def Let_def split: option.splits)
  note c = this
  have fresh: "ss_can_send (snd (ss_open now (ss_new now i)))" "ss_can_recv (snd (ss_open now (ss_new now i)))"
    by (simp_all add: ss_open_def ss_new_def ss_transition_to_def ss_can_send_def ss_can_recv_def)
  show "mux_find m' i = Some rec" "same_frame m m'" "mx_id_alloc m' = mx_id_alloc m" "mx_session_flow m' = mx_session_flow m"
    using c by (cases; simp add: same_frame_def)+
  show "known m' j \<longleftrightarrow> known m j \<or> j = i" for j using c by cases auto
  show "same_sending m m'" using c fresh view_missing [of m i]
    by cases (auto simp: same_sending_def sl_flow_init_with_def fun_upd_idem)
  show "same_receiving m m'" using c fresh view_missing [of m i]
    by cases (auto simp: same_receiving_def sl_flow_init_with_def fun_upd_idem)
qed

lemma open_stream_views:
  assumes "open_stream now prio m = (i, m')" "sid_ok role (mx_id_alloc m)"
  shows "same_sending m m' \<and> same_receiving m m' \<and> same_frame m m' \<and> sid_ok role (mx_id_alloc m')
    \<and> (\<forall>j. known m j \<longrightarrow> known m' j) \<and> (\<forall>j. known m' j \<longrightarrow> known m j \<or> (j \<noteq> 0 \<and> sid_own role j))"
proof -
  obtain k al where al: "sid_nxt (mx_id_alloc m) = (k, al)" by fastforce
  then have nx: "sl_stream_id_next (Some (mx_id_alloc m)) = (k, Some al)"
    by (auto simp: sid_nxt_def sl_stream_id_next_def split: if_splits)
  have ok: "sid_ok role al" using sid.nxt_invar [OF assms(2) al] .
  let ?m1 = "m\<lparr>mx_id_alloc := al\<rparr>"
  have m1: "same_sending m ?m1" "same_receiving m ?m1" "same_frame m ?m1"
    by (simp_all add: same_sending_def same_receiving_def same_frame_def)
  show ?thesis
  proof (cases "k = 0")
    case True
    then have "m' = ?m1" using assms(1) nx by (simp add: open_stream_def)
    then show ?thesis using m1 ok by simp
  next
    case False
    obtain rec m2 where fc: "mux_find_or_create now k False ?m1 = (rec, m2)" by fastforce
    note v = mux_find_or_create_views [OF fc]
    have m': "m' = mux_put k (rec\<lparr>sr_priority := prio\<rparr>) m2" using assms(1) nx False fc by (auto simp: open_stream_def)
    have own: "sid_own role k" using sid.nxt_good [OF assms(2) al False] .
    have "same_sending m m'" "same_receiving m m'" "same_frame m m'" "sid_ok role (mx_id_alloc m')"
      using v m' m1 ok view_found [OF v(1)] by (auto simp: same_sending_def same_receiving_def same_frame_def fun_upd_idem)
    moreover have "known m' j \<longleftrightarrow> known m j \<or> j = k" for j using v(7) [of j] m' by auto
    ultimately show ?thesis using own False by auto
  qed
qed

definition fin_flag :: "sl_stream_frame_t \<Rightarrow> bool" where
  "fin_flag f \<longleftrightarrow> sf_flags f AND SL_STREAM_FLAG_FIN \<noteq> 0"

definition frame_bytes :: "sl_stream_frame_t \<Rightarrow> bytes" where
  "frame_bytes f = (case sf_payload f of None \<Rightarrow> [] | Some p \<Rightarrow> p)"

definition data_frame :: "sl_stream_frame_t \<Rightarrow> bool" where
  "data_frame f \<longleftrightarrow> sf_type f = SL_STREAM_FRAME_DATA \<and> sf_stream_id f \<noteq> 0 \<and> unat (sf_payload_len f) = length (frame_bytes f)"

lemma queue_fin_views:
  assumes "ss_can_send (sr_state rec)"
  shows "sr_flow (queue_fin rec) = sr_flow rec" "sr_inbound (queue_fin rec) = sr_inbound rec"
    "ss_can_recv (sr_state (queue_fin rec)) = ss_can_recv (sr_state rec)"
    "sr_outbound (queue_fin rec) = sr_outbound rec @ (if sr_outbound rec = [] then [[]] else [])"
  using assms by (auto simp: queue_fin_def Let_def ss_on_sent_fin_def ss_can_send_def ss_can_recv_def ss_transition_to_def split: StreamPhase.splits)

lemma send_data_cases:
  assumes "send_data i data fin m = (ok, m')"
  obtains "\<not> ok" "\<exists>s. m' = m\<lparr>mx_stats := s\<rparr>"
  | rec rec1 fl where "ok" "mux_find m i = Some rec" "ss_can_send (sr_state rec)" "length data \<le> 16000"
      "rec1 = rec\<lparr>sr_flow := (sr_flow rec)\<lparr>fc_send_credit := fc_send_credit (sr_flow rec) - int (length data)\<rparr>,
         sr_outbound := sr_outbound rec @ (if data = [] then [] else [data])\<rparr>"
      "fl = (mx_session_flow m)\<lparr>fc_send_credit := fc_send_credit (mx_session_flow m) - int (length data)\<rparr>"
      "data = [] \<or> int (length data) \<le> fc_send_credit (sr_flow rec) \<and> int (length data) \<le> fc_send_credit (mx_session_flow m)"
      "m' = mux_put i (if fin then queue_fin rec1 else rec1) (m\<lparr>mx_session_flow := fl\<rparr>)"
proof (cases "ok")
  case False
  then have "m' = m \<or> (\<exists>s. m' = m\<lparr>mx_stats := s\<rparr>)" using assms
    by (auto simp: send_data_def Let_def split: option.splits if_splits prod.splits)
  moreover have "m = m\<lparr>mx_stats := mx_stats m\<rparr>" by simp
  ultimately show ?thesis using that(1) False by metis
next
  case True
  with assms obtain rec where rec: "mux_find m i = Some rec" "ss_can_send (sr_state rec)" "length data \<le> 16000"
    by (auto simp: send_data_def Let_def split: option.splits if_splits)
  then have n: "uint (of_nat (length data) :: u32) = int (length data)" by (simp add: uint_nat unat_of_nat)
  show ?thesis
  proof (cases "data = []")
    case True
    then show ?thesis using that(2) [OF \<open>ok\<close> rec refl refl] assms rec unfolding True by (auto simp: send_data_def)
  next
    case False
    then have c: "int (length data) \<le> fc_send_credit (sr_flow rec)" "int (length data) \<le> fc_send_credit (mx_session_flow m)"
      using assms rec \<open>ok\<close> n by (auto simp: send_data_def sl_flow_can_send_def Let_def split: if_splits)
    have "(if data = [] then [] else [data]) = [data]" using False by simp
    then show ?thesis using that(2) [OF \<open>ok\<close> rec refl refl] assms rec False c n
      by (auto simp: send_data_def sl_flow_can_send_def sl_flow_charge_send_def)
  qed
qed

lemma send_data_views:
  assumes "send_data i data fin m = (ok, m')"
  shows "same_receiving m m'" "same_frame m m'" "mx_id_alloc m' = mx_id_alloc m" "\<And>j. known m' j \<longleftrightarrow> known m j"
    "\<not> ok \<Longrightarrow> same_sending m m'"
    "ok \<Longrightarrow> known m i \<and> may_send m i \<and> credit m' = (credit m)(i := credit m i - int (length data))
       \<and> fc_send_credit (mx_session_flow m') = fc_send_credit (mx_session_flow m) - int (length data)
       \<and> (data = [] \<or> 0 \<le> credit m' i \<and> 0 \<le> fc_send_credit (mx_session_flow m'))
       \<and> (\<forall>j. j \<noteq> i \<longrightarrow> queued m' j = queued m j \<and> may_send m' j = may_send m j)
       \<and> (\<exists>q. queued m' i = queued m i @ q \<and> concat q = data \<and> (\<forall>c \<in> set q. length c \<le> 16000))"
proof -
  have "same_receiving m m' \<and> same_frame m m' \<and> mx_id_alloc m' = mx_id_alloc m \<and> (\<forall>j. known m' j \<longleftrightarrow> known m j)
    \<and> (\<not> ok \<longrightarrow> same_sending m m') \<and> (ok \<longrightarrow> known m i \<and> may_send m i \<and> credit m' = (credit m)(i := credit m i - int (length data))
       \<and> fc_send_credit (mx_session_flow m') = fc_send_credit (mx_session_flow m) - int (length data)
       \<and> (data = [] \<or> 0 \<le> credit m' i \<and> 0 \<le> fc_send_credit (mx_session_flow m'))
       \<and> (\<forall>j. j \<noteq> i \<longrightarrow> queued m' j = queued m j \<and> may_send m' j = may_send m j)
       \<and> (\<exists>q. queued m' i = queued m i @ q \<and> concat q = data \<and> (\<forall>c \<in> set q. length c \<le> 16000)))"
    using assms
  proof (cases rule: send_data_cases)
    case 1
    then show ?thesis by (auto simp: same_receiving_def same_sending_def same_frame_def)
  next
    case (2 rec rec1 fl)
    define rec2 where "rec2 = (if fin then queue_fin rec1 else rec1)"
    note v = view_found [OF 2(2)]
    have s1: "ss_can_send (sr_state rec1)" using 2 by simp
    have r2: "fc_send_credit (sr_flow rec2) = credit m i - int (length data)" "fc_recv_window (sr_flow rec2) = window m i"
      "sr_inbound rec2 = held m i" "ss_can_recv (sr_state rec2) = may_recv m i"
      using queue_fin_views [OF s1] v 2(5) by (simp_all add: rec2_def)
    have q2: "\<exists>q. sr_outbound rec2 = queued m i @ q \<and> concat q = data \<and> (\<forall>c \<in> set q. length c \<le> 16000)"
      using queue_fin_views [OF s1] v 2(4,5) by (auto simp: rec2_def)
    have m': "m' = mux_put i rec2 (m\<lparr>mx_session_flow := fl\<rparr>)" using 2(8) by (simp add: rec2_def)
    show ?thesis using r2 q2 v 2(1-4,6,7)
      by (auto simp: m' same_receiving_def same_frame_def fun_upd_idem)
  qed
  then show "same_receiving m m'" "same_frame m m'" "mx_id_alloc m' = mx_id_alloc m" "\<And>j. known m' j \<longleftrightarrow> known m j"
    "\<not> ok \<Longrightarrow> same_sending m m'"
    "ok \<Longrightarrow> known m i \<and> may_send m i \<and> credit m' = (credit m)(i := credit m i - int (length data))
       \<and> fc_send_credit (mx_session_flow m') = fc_send_credit (mx_session_flow m) - int (length data)
       \<and> (data = [] \<or> 0 \<le> credit m' i \<and> 0 \<le> fc_send_credit (mx_session_flow m'))
       \<and> (\<forall>j. j \<noteq> i \<longrightarrow> queued m' j = queued m j \<and> may_send m' j = may_send m j)
       \<and> (\<exists>q. queued m' i = queued m i @ q \<and> concat q = data \<and> (\<forall>c \<in> set q. length c \<le> 16000))"
    by blast+
qed

lemma pop_outbound_views:
  assumes "pop_outbound order m = (fo, m')"
  shows "same_receiving m m' \<and> same_frame m m' \<and> mx_id_alloc m' = mx_id_alloc m \<and> (\<forall>j. known m' j \<longleftrightarrow> known m j)
    \<and> credit m' = credit m \<and> may_send m' = may_send m \<and> mx_session_flow m' = mx_session_flow m
    \<and> (case fo of
         None \<Rightarrow> queued m' = queued m
       | Some f \<Rightarrow> known m (sf_stream_id f) \<and> sf_type f = SL_STREAM_FRAME_DATA
           \<and> (\<exists>c q. queued m (sf_stream_id f) = c # q \<and> queued m' = (queued m)(sf_stream_id f := q)
               \<and> sf_payload_len f = of_nat (length c) \<and> frame_bytes f = c
               \<and> (fin_flag f \<longrightarrow> q = [] \<and> \<not> may_send m' (sf_stream_id f))))"
proof (cases "pick_band m order [0, 1, 2, 3, 4]")
  case None
  then have "fo = None" "m' = m" using assms by (auto simp: pop_outbound_def)
  then show ?thesis by (simp add: same_receiving_def same_frame_def)
next
  case (Some i)
  have "\<exists>band. sendable m band i"
    using Some by (auto simp: find_Some_iff split: option.splits)
  then obtain rec where rec: "mux_find m i = Some rec" "sr_outbound rec \<noteq> []"
    by (auto simp: sendable_def split: option.splits)
  then obtain c q where cq: "sr_outbound rec = c # q" by (cases "sr_outbound rec") auto
  note v = view_found [OF rec(1)]
  define f where "f = \<lparr>sf_type = SL_STREAM_FRAME_DATA, sf_flags = (if q = [] \<and> ss_phase (sr_state rec) = kHalfClosedLocal then 1 else 0),
       sf_stream_id = i, sf_payload = (if c = [] then NULL else Some c), sf_payload_len = of_nat (length c)\<rparr>"
  obtain s where m': "m' = (mux_put i (rec\<lparr>sr_outbound := q\<rparr>) m)\<lparr>mx_stats := s\<rparr>" and fo: "fo = Some f"
  proof -
    have "\<exists>s. pop_outbound order m = (Some f, (mux_put i (rec\<lparr>sr_outbound := q\<rparr>) m)\<lparr>mx_stats := s\<rparr>)"
      unfolding pop_outbound_def Some Let_def f_def by (simp add: rec cq cong: if_cong) (rule exI, rule refl)
    then show ?thesis using assms that by auto
  qed
  have "same_receiving m m' \<and> same_frame m m' \<and> mx_id_alloc m' = mx_id_alloc m \<and> (\<forall>j. known m' j \<longleftrightarrow> known m j)
    \<and> credit m' = credit m \<and> may_send m' = may_send m \<and> mx_session_flow m' = mx_session_flow m \<and> queued m' = (queued m)(i := q)"
    using v rec by (simp add: m' same_receiving_def same_frame_def fun_upd_idem)
  moreover have "sf_stream_id f = i" "sf_type f = 1" "sf_payload_len f = of_nat (length c)" "frame_bytes f = c"
    by (simp_all add: f_def frame_bytes_def)
  moreover have "fin_flag f \<longrightarrow> q = [] \<and> \<not> may_send m i" using v(3) by (auto simp: f_def fin_flag_def ss_can_send_def)
  moreover have "queued m i = c # q" using v(2) cq by simp
  ultimately show ?thesis using rec fo by simp
qed

lemma read_inbound_views:
  assumes "read_inbound i m = (data, m')" "0 \<le> window m i" "window m i + int (length (held m i)) \<le> 1073741824"
    "0 \<le> fc_recv_window (mx_session_flow m)" "fc_recv_window (mx_session_flow m) + int (length (held m i)) \<le> 1073741824"
  shows "same_sending m m' \<and> same_frame m m' \<and> mx_id_alloc m' = mx_id_alloc m \<and> (\<forall>j. known m' j \<longleftrightarrow> known m j)
    \<and> data = held m i \<and> held m' = (held m)(i := []) \<and> window m' = (window m)(i := window m i + int (length data))
    \<and> may_recv m' = may_recv m \<and> fc_recv_window (mx_session_flow m') = fc_recv_window (mx_session_flow m) + int (length data)"
proof (cases "mux_find m i")
  case None
  then show ?thesis using assms(1) view_missing [OF None]
    by (auto simp: read_inbound_def same_sending_def same_frame_def fun_upd_idem)
next
  case (Some rec)
  note v = view_found [OF Some]
  have n: "uint (of_nat (length (sr_inbound rec)) :: u32) = int (length (sr_inbound rec))"
    using assms(2,3) v by (simp add: uint_nat unat_of_nat)
  have g: "sl_flow_grant_recv (Some fl) (of_nat (length (sr_inbound rec))) = (0, Some (fl\<lparr>fc_recv_window := fc_recv_window fl + int (length (sr_inbound rec))\<rparr>))"
    if "0 \<le> fc_recv_window fl" "fc_recv_window fl + int (length (sr_inbound rec)) \<le> 1073741824" for fl
    using that by (simp add: sl_flow_grant_recv_def n)
  define rec1 where "rec1 = rec\<lparr>sr_inbound := [], sr_flow := (sr_flow rec)\<lparr>fc_recv_window := fc_recv_window (sr_flow rec) + int (length (sr_inbound rec))\<rparr>\<rparr>"
  define fl where "fl = (mx_session_flow m)\<lparr>fc_recv_window := fc_recv_window (mx_session_flow m) + int (length (sr_inbound rec))\<rparr>"
  define m1 where "m1 = (mux_put i rec1 m)\<lparr>mx_session_flow := fl\<rparr>"
  have gs: "the (snd (sl_flow_grant_recv (Some (sr_flow rec)) (of_nat (length (sr_inbound rec))))) = sr_flow rec1"
    "the (snd (sl_flow_grant_recv (Some (mx_session_flow m)) (of_nat (length (sr_inbound rec))))) = fl"
    using g [of "sr_flow rec"] g [of "mx_session_flow m"] assms v by (simp_all add: rec1_def fl_def)
  have "rec\<lparr>sr_inbound := [], sr_flow := sr_flow rec1\<rparr> = rec1" by (simp add: rec1_def)
  then have "read_inbound i m = (sr_inbound rec, if sr_inbound_fin rec1 \<and> ss_phase (sr_state rec1) = kHalfClosedLocal
     then m1\<lparr>mx_stats := (mx_stats m)\<lparr>streams_closed := streams_closed (mx_stats m) + 1\<rparr>\<rparr> else m1)"
    unfolding read_inbound_def Let_def m1_def by (simp add: Some gs)
  then have d: "data = sr_inbound rec" and "m' = m1 \<or> (\<exists>s. m' = m1\<lparr>mx_stats := s\<rparr>)" using assms(1) by (auto split: if_splits)
  moreover have "same_sending m m1 \<and> same_frame m m1 \<and> mx_id_alloc m1 = mx_id_alloc m \<and> (\<forall>j. known m1 j \<longleftrightarrow> known m j)
    \<and> held m1 = (held m)(i := []) \<and> window m1 = (window m)(i := window m i + int (length (sr_inbound rec)))
    \<and> may_recv m1 = may_recv m \<and> mx_session_flow m1 = fl"
    using v Some by (auto simp: m1_def rec1_def fl_def same_sending_def same_frame_def fun_upd_idem)
  ultimately show ?thesis using v by (auto simp: same_sending_def same_frame_def fl_def)
qed

lemma recv_fin_halves:
  "ss_can_recv s \<Longrightarrow> \<not> ss_can_recv (snd (ss_on_recv_fin s)) \<and> (ss_can_send (snd (ss_on_recv_fin s)) \<longleftrightarrow> ss_can_send s)"
  by (cases "ss_phase s") (auto simp: ss_on_recv_fin_def ss_can_recv_def ss_can_send_def ss_transition_to_def)

definition deliverable :: "sl_stream_frame_t \<Rightarrow> StreamMultiplexer \<Rightarrow> bool" where
  "deliverable f m \<longleftrightarrow> data_frame f \<and> may_recv m (sf_stream_id f)
     \<and> (known m (sf_stream_id f) \<or> sl_stream_id_belongs_to_peer (sf_stream_id f) (mx_role m))
     \<and> int (length (frame_bytes f)) \<le> window m (sf_stream_id f)
     \<and> int (length (frame_bytes f)) \<le> fc_recv_window (mx_session_flow m)"

definition delivered :: "sl_stream_frame_t \<Rightarrow> StreamRecord \<Rightarrow> StreamRecord" where
  "delivered f rec =
     (let rec2 = rec\<lparr>sr_flow := (sr_flow rec)\<lparr>fc_recv_window := fc_recv_window (sr_flow rec) - int (length (frame_bytes f))\<rparr>,
                    sr_inbound := sr_inbound rec @ frame_bytes f\<rparr>
      in if fin_flag f then rec2\<lparr>sr_state := snd (ss_on_recv_fin (sr_state rec2)), sr_inbound_fin := True\<rparr> else rec2)"

lemma on_data_delivers:
  assumes "data_frame f" "ss_can_recv (sr_state rec)" "int (length (frame_bytes f)) \<le> fc_recv_window (sr_flow rec)"
    "int (length (frame_bytes f)) \<le> fc_recv_window (mx_session_flow m)"
  shows "on_data f rec m = (True, (mux_put (sf_stream_id f) (delivered f rec) m)
    \<lparr>mx_session_flow := (mx_session_flow m)\<lparr>fc_recv_window := fc_recv_window (mx_session_flow m) - int (length (frame_bytes f))\<rparr>\<rparr>)"
proof -
  have len: "unat (sf_payload_len f) = length (frame_bytes f)" using assms(1) by (simp add: data_frame_def)
  have n: "uint (ucast (sf_payload_len f) :: u32) = int (length (frame_bytes f))" using len by (simp add: uint_nat)
  have pos: "(ucast (sf_payload_len f) :: u32) > 0 \<longleftrightarrow> frame_bytes f \<noteq> []"
    using len by (auto simp: word_gt_0 word_unat_eq_iff)
  show ?thesis
  proof (cases "frame_bytes f = []")
    case True
    then have "\<not> (ucast (sf_payload_len f) :: u32) > 0" using pos by simp
    then show ?thesis using assms(2) True by (simp add: on_data_def delivered_def fin_flag_def Let_def)
  next
    case False
    then have p: "(ucast (sf_payload_len f) :: u32) > 0" using pos by simp
    have "take (unat (ucast (sf_payload_len f) :: u32)) (the (sf_payload f)) = frame_bytes f"
      using len False by (auto simp: frame_bytes_def split: option.splits)
    then show ?thesis using p assms(2-4)
      by (simp add: on_data_def sl_flow_charge_recv_def n delivered_def fin_flag_def Let_def)
  qed
qed

lemma on_frame_views:
  assumes "deliverable f m" "on_frame now f m = (ok, m')"
  defines "i \<equiv> sf_stream_id f" and "n \<equiv> int (length (frame_bytes f))"
  shows "ok \<and> same_sending m m' \<and> same_frame m m' \<and> mx_id_alloc m' = mx_id_alloc m
    \<and> (\<forall>j. known m' j \<longleftrightarrow> known m j \<or> j = i)
    \<and> held m' = (held m)(i := held m i @ frame_bytes f) \<and> window m' = (window m)(i := window m i - n)
    \<and> may_recv m' = (may_recv m)(i := \<not> fin_flag f)
    \<and> fc_recv_window (mx_session_flow m') = fc_recv_window (mx_session_flow m) - n"
proof -
  define m0 where "m0 = m\<lparr>mx_stats := (mx_stats m)\<lparr>frames_in := frames_in (mx_stats m) + 1, bytes_in := bytes_in (mx_stats m) + ucast (sf_payload_len f)\<rparr>\<rparr>"
  obtain rec m1 where fc: "mux_find_or_create now i True m0 = (rec, m1)" by fastforce
  note v = mux_find_or_create_views [OF fc] and w = view_found [OF mux_find_or_create_views(1) [OF fc]]
  have d: "data_frame f" "i \<noteq> 0" "sf_type f = 1"
    using assms(1) by (auto simp: deliverable_def data_frame_def i_def)
  have m0: "same_sending m m0" "same_receiving m m0" "same_frame m m0" "mx_id_alloc m0 = mx_id_alloc m" "mx_session_flow m0 = mx_session_flow m"
    "\<And>j. mux_find m0 j = mux_find m j"
    by (simp_all add: m0_def same_sending_def same_receiving_def same_frame_def)
  have run: "on_data f rec m1 = (ok, m')"
    using assms(1,2) fc d unfolding deliverable_def i_def [symmetric]
    by (auto simp: on_frame_def m0_def [symmetric] i_def [symmetric] Let_def m0 d(3))
  have views: "window m1 = window m" "held m1 = held m" "may_recv m1 = may_recv m" "mx_session_flow m1 = mx_session_flow m"
    using v(3,6) m0(2,5) by (simp_all add: same_receiving_def)
  let ?r = "delivered f rec"
  have eq: "ok" "m' = (mux_put i ?r m1)\<lparr>mx_session_flow := (mx_session_flow m)\<lparr>fc_recv_window := fc_recv_window (mx_session_flow m) - n\<rparr>\<rparr>"
    using run on_data_delivers [OF d(1), of rec m1] assms(1) w(4,6) views by (simp_all add: deliverable_def i_def n_def)
  have r3: "sr_inbound ?r = held m i @ frame_bytes f" "fc_recv_window (sr_flow ?r) = window m i - n" "ss_can_recv (sr_state ?r) = (\<not> fin_flag f)"
      "sr_outbound ?r = queued m1 i" "fc_send_credit (sr_flow ?r) = credit m1 i" "ss_can_send (sr_state ?r) = may_send m1 i"
    using w views recv_fin_halves [of "sr_state rec"] assms(1) by (simp_all add: delivered_def deliverable_def i_def n_def Let_def)
  have "same_sending m m'" using v(2,6) m0(1,5) r3 by (simp add: eq(2) same_sending_def fun_upd_idem)
  moreover have "same_frame m m'" "mx_id_alloc m' = mx_id_alloc m" using v(4,5) m0(3,4) by (simp_all add: eq(2) same_frame_def)
  moreover have "known m' j \<longleftrightarrow> known m j \<or> j = i" for j using v(7) [of j] m0(6) [of j] by (simp add: eq(2))
  ultimately show ?thesis using eq r3 views by simp
qed

subsection \<open>One direction of a connection\<close>

abbreviation frames_of :: "sl_stream_frame_t list \<Rightarrow> u32 \<Rightarrow> sl_stream_frame_t list" where
  "frames_of ch i \<equiv> filter (\<lambda>f. sf_stream_id f = i) ch"

definition in_flight :: "sl_stream_frame_t list \<Rightarrow> u32 \<Rightarrow> bytes" where
  "in_flight ch i = concat (map frame_bytes (frames_of ch i))"

text \<open>A frame that ends the stream is the last of it: nothing follows in the channel or the queue.\<close>

fun fin_last :: "bool \<Rightarrow> bytes list \<Rightarrow> sl_stream_frame_t list \<Rightarrow> bool" where
  "fin_last ms q [] = True"
| "fin_last ms q (f # fs) = (if fin_flag f then fs = [] \<and> q = [] \<and> \<not> ms else fin_last ms q fs)"

definition stream_inv :: "int \<Rightarrow> StreamMultiplexer \<Rightarrow> sl_stream_frame_t list \<Rightarrow> StreamMultiplexer \<Rightarrow> u32 \<Rightarrow> bytes \<Rightarrow> bytes \<Rightarrow> bool" where
  "stream_inv w S ch R i s g \<longleftrightarrow>
     s = g @ held R i @ in_flight ch i @ concat (queued S i)
     \<and> credit S i + int (length s) = w \<and> 0 \<le> credit S i \<and> window R i + int (length (held R i)) = w
     \<and> (\<forall>c \<in> set (queued S i). length c \<le> 16000)
     \<and> (\<not> may_recv R i \<longrightarrow> frames_of ch i = [] \<and> queued S i = [] \<and> \<not> may_send S i)
     \<and> fin_last (may_send S i) (queued S i) (frames_of ch i)"

definition session_inv :: "int \<Rightarrow> StreamMultiplexer \<Rightarrow> StreamMultiplexer \<Rightarrow> (u32 \<Rightarrow> bytes) \<Rightarrow> bool" where
  "session_inv w S R sent \<longleftrightarrow>
     fc_send_credit (mx_session_flow S) + (\<Sum>i\<in>UNIV. int (length (sent i))) = w \<and> 0 \<le> fc_send_credit (mx_session_flow S)
     \<and> fc_recv_window (mx_session_flow R) + (\<Sum>i\<in>UNIV. int (length (held R i))) = w"

definition dir_inv ::
  "int \<Rightarrow> StreamMultiplexer \<Rightarrow> sl_stream_frame_t list \<Rightarrow> StreamMultiplexer \<Rightarrow> (u32 \<Rightarrow> bytes) \<Rightarrow> (u32 \<Rightarrow> bytes) \<Rightarrow> bool" where
  "dir_inv w S ch R sent got \<longleftrightarrow>
     (\<forall>i. stream_inv w S ch R i (sent i) (got i)) \<and> session_inv w S R sent
     \<and> (\<forall>f \<in> set ch. data_frame f \<and> known S (sf_stream_id f))
     \<and> (\<forall>i. known S i \<longrightarrow> i \<noteq> 0 \<and> (known R i \<or> sl_stream_id_belongs_to_peer i (mx_role R)))"

lemma stream_inv_cong:
  assumes "credit S' i = credit S i" "queued S' i = queued S i" "may_send S' i = may_send S i" "frames_of ch' i = frames_of ch i"
    "window R' i = window R i" "held R' i = held R i" "may_recv R' i = may_recv R i"
  shows "stream_inv w S' ch' R' i s g = stream_inv w S ch R i s g"
  unfolding stream_inv_def in_flight_def assms ..

lemma sum_upd: "(\<Sum>j\<in>UNIV. int (length ((h(i := x)) j))) = (\<Sum>j\<in>UNIV. int (length (h j))) - int (length (h (i :: u32))) + int (length x)"
proof -
  have "(\<Sum>j\<in>UNIV - {i}. int (length ((h(i := x)) j))) = (\<Sum>j\<in>UNIV - {i}. int (length (h j)))" by (rule sum.cong) auto
  then show ?thesis
    using sum.remove [of UNIV i "\<lambda>j. int (length (h j))"] sum.remove [of UNIV i "\<lambda>j. int (length ((h(i := x)) j))"] by simp
qed

lemma dir_sender_idle:
  assumes "dir_inv w S ch R sent got" "same_sending S S'" "\<And>i. known S i \<Longrightarrow> known S' i"
    "\<And>i. known S' i \<Longrightarrow> known S i \<or> i \<noteq> 0 \<and> (known R i \<or> sl_stream_id_belongs_to_peer i (mx_role R))"
  shows "dir_inv w S' ch R sent got"
proof -
  have "stream_inv w S' ch R i = stream_inv w S ch R i" "session_inv w S' R sent = session_inv w S R sent" for i
    using assms(2) by (simp_all add: stream_inv_def session_inv_def same_sending_def fun_eq_iff)
  then show ?thesis using assms(1,3,4) unfolding dir_inv_def by metis
qed

lemma dir_receiver_idle:
  assumes "dir_inv w S ch R sent got" "same_receiving R R'" "same_frame R R'" "\<And>i. known R i \<Longrightarrow> known R' i"
  shows "dir_inv w S ch R' sent got"
proof -
  have "stream_inv w S ch R' i = stream_inv w S ch R i" "session_inv w S R' sent = session_inv w S R sent" for i
    using assms(2) by (simp_all add: stream_inv_def session_inv_def same_receiving_def fun_eq_iff)
  moreover have "mx_role R' = mx_role R" using assms(3) by (simp add: same_frame_def)
  ultimately show ?thesis using assms(1,4) unfolding dir_inv_def by metis
qed

lemma fin_last_open: "fin_last True q fs \<Longrightarrow> fin_last ms' q' fs"
  by (induction fs) (auto split: if_splits)

lemma fin_last_queue: "q \<noteq> [] \<Longrightarrow> fin_last ms q fs \<Longrightarrow> fin_last ms' q' fs"
  by (induction fs) (auto split: if_splits)

lemma fin_last_snoc: "q \<noteq> [] \<Longrightarrow> fin_last ms q fs \<Longrightarrow> (fin_flag f \<Longrightarrow> q' = [] \<and> \<not> ms') \<Longrightarrow> fin_last ms' q' (fs @ [f])"
  by (induction fs) (auto split: if_splits)

lemma dir_send:
  assumes inv: "dir_inv w S ch R sent got" and send: "send_data i data fin S = (ok, S')"
  shows "dir_inv w S' ch R (if ok then sent(i := sent i @ data) else sent) got"
proof (cases ok)
  case False
  then show ?thesis using dir_sender_idle [OF inv send_data_views(5) [OF send]] send_data_views(4) [OF send] by simp
next
  case True
  note v = send_data_views(6) [OF send True]
  from v obtain q where q: "queued S' i = queued S i @ q" "concat q = data" "\<forall>c \<in> set q. length c \<le> 16000" by blast
  have si: "stream_inv w S ch R j (sent j) (got j)" for j using inv by (simp add: dir_inv_def)
  have q': "concat (queued S' i) = concat (queued S i) @ data" "\<forall>c \<in> set (queued S' i). length c \<le> 16000"
    using q si [of i] by (auto simp: stream_inv_def)
  have pos: "0 \<le> credit S i" "0 \<le> fc_send_credit (mx_session_flow S)"
    using si [of i] inv by (simp_all add: stream_inv_def dir_inv_def session_inv_def)
  have c: "may_send S i" "credit S' i = credit S i - int (length data)" "data = [] \<or> 0 \<le> credit S' i"
    "fc_send_credit (mx_session_flow S') = fc_send_credit (mx_session_flow S) - int (length data)"
    "data = [] \<or> 0 \<le> fc_send_credit (mx_session_flow S')" using v by auto
  then have c': "0 \<le> credit S' i" "0 \<le> fc_send_credit (mx_session_flow S')" using pos by auto
  have new: "stream_inv w S' ch R i (sent i @ data) (got i)"
    using si [of i] c(1,2) c' q' fin_last_open [of "queued S i" "frames_of ch i"] by (auto simp: stream_inv_def)
  have old: "stream_inv w S' ch R j (sent j) (got j)" if "j \<noteq> i" for j
    using si [of j] v that by (subst stream_inv_cong [of S' j S ch ch R R]) auto
  have "session_inv w S' R (sent(i := sent i @ data))"
    using inv c(4) c' unfolding session_inv_def sum_upd by (simp add: dir_inv_def session_inv_def)
  then show ?thesis using inv new old send_data_views(4) [OF send] True unfolding dir_inv_def by auto
qed

lemma in_flight_snoc: "in_flight (ch @ [f]) i = in_flight ch i @ (if sf_stream_id f = i then frame_bytes f else [])"
  by (simp add: in_flight_def)

lemma in_flight_Cons: "in_flight (f # ch) i = (if sf_stream_id f = i then frame_bytes f else []) @ in_flight ch i"
  by (simp add: in_flight_def)

lemma dir_pop:
  assumes inv: "dir_inv w S ch R sent got" and pop: "pop_outbound order S = (fo, S')"
  shows "dir_inv w S' (case fo of None \<Rightarrow> ch | Some f \<Rightarrow> ch @ [f]) R sent got"
proof (cases fo)
  case None
  then have "same_sending S S'" "\<And>i. known S' i \<longleftrightarrow> known S i"
    using pop_outbound_views [OF pop] by (simp_all add: same_sending_def)
  from dir_sender_idle [OF inv this(1)] this(2) None show ?thesis by simp
next
  case (Some f)
  define i where "i = sf_stream_id f"
  have v: "credit S' = credit S" "may_send S' = may_send S" "mx_session_flow S' = mx_session_flow S" "\<And>j. known S' j \<longleftrightarrow> known S j"
      "known S i" "sf_type f = 1"
    using pop_outbound_views [OF pop] Some by (simp_all add: i_def)
  obtain c q where cq: "queued S i = c # q" "queued S' = (queued S)(i := q)" "sf_payload_len f = of_nat (length c)" "frame_bytes f = c"
      "fin_flag f \<Longrightarrow> q = [] \<and> \<not> may_send S' i"
    using pop_outbound_views [OF pop] Some by (auto simp: i_def)
  have si: "stream_inv w S ch R j (sent j) (got j)" for j using inv by (simp add: dir_inv_def)
  have "length c \<le> 16000" using si [of i] cq(1) by (simp add: stream_inv_def)
  then have frame: "data_frame f" using inv v cq by (simp add: dir_inv_def data_frame_def unat_of_nat i_def)
  have fl: "fin_last (may_send S' i) q (frames_of ch i @ [f])"
    by (rule fin_last_snoc [of "queued S i" "may_send S i"]) (use si [of i] cq in \<open>auto simp: stream_inv_def\<close>)
  have new: "stream_inv w S' (ch @ [f]) R i (sent i) (got i)"
    using si [of i] v cq(1,2,4) fl by (auto simp: stream_inv_def in_flight_snoc i_def)
  have old: "stream_inv w S' (ch @ [f]) R j (sent j) (got j)" if "j \<noteq> i" for j
    using si [of j] v cq(2) that by (subst stream_inv_cong [of S' j S "ch @ [f]" ch R R]) (auto simp: i_def)
  have "stream_inv w S' (ch @ [f]) R j (sent j) (got j)" for j using new old by (cases "j = i") auto
  moreover have "session_inv w S' R sent" using inv v(3) by (simp add: dir_inv_def session_inv_def)
  ultimately show ?thesis using inv frame v(4,5) Some by (auto simp: dir_inv_def i_def)
qed

lemma sum_member: "int (length (h (i :: u32))) \<le> (\<Sum>j\<in>UNIV. int (length (h j)))"
  by (rule member_le_sum) auto

lemma dir_deliverable:
  assumes inv: "dir_inv w S (f # ch) R sent got"
  shows "deliverable f R"
proof -
  let ?i = "sf_stream_id f"
  have si: "stream_inv w S (f # ch) R j (sent j) (got j)" for j using inv by (simp add: dir_inv_def)
  have room: "length (held R j) + length (in_flight (f # ch) j) \<le> length (sent j)" for j
    using si [of j] by (simp add: stream_inv_def)
  have one: "length (frame_bytes f) \<le> length (in_flight (f # ch) ?i)" by (simp add: in_flight_Cons)
  have "int (length (frame_bytes f)) \<le> window R ?i"
    using si [of ?i, unfolded stream_inv_def] room [of ?i] one by linarith
  moreover have "int (length (frame_bytes f)) \<le> fc_recv_window (mx_session_flow R)"
  proof -
    have "(\<Sum>j\<in>UNIV. int (length (held R j))) + int (length (frame_bytes f)) = (\<Sum>j\<in>UNIV. int (length (((held R)(?i := held R ?i @ frame_bytes f)) j)))"
      unfolding sum_upd by simp
    also have "\<dots> \<le> (\<Sum>j\<in>UNIV. int (length (sent j)))"
    proof (rule sum_mono)
      show "int (length (((held R)(?i := held R ?i @ frame_bytes f)) j)) \<le> int (length (sent j))" for j
        using room [of j] one by (cases "j = ?i") simp_all
    qed
    finally show ?thesis using inv by (simp add: dir_inv_def session_inv_def)
  qed
  moreover have "may_recv R ?i" using si [of ?i] by (auto simp: stream_inv_def)
  ultimately show ?thesis using inv by (auto simp: deliverable_def dir_inv_def)
qed

lemma dir_deliver:
  assumes inv: "dir_inv w S (f # ch) R sent got" and run: "on_frame now f R = (ok, R')"
  shows "ok \<and> dir_inv w S ch R' sent got \<and> same_sending R R' \<and> same_frame R R' \<and> mx_id_alloc R' = mx_id_alloc R
    \<and> (\<forall>j. known R' j \<longleftrightarrow> known R j \<or> j = sf_stream_id f)"
proof -
  define i where "i = sf_stream_id f"
  note v = on_frame_views [OF dir_deliverable [OF inv] run, folded i_def]
  have si: "stream_inv w S (f # ch) R j (sent j) (got j)" for j using inv by (simp add: dir_inv_def)
  have fin: "fin_last (may_send S i) (queued S i) (f # frames_of ch i)" using si [of i] by (simp add: stream_inv_def i_def)
  have new: "stream_inv w S ch R' i (sent i) (got i)"
    using si [of i] v fin by (auto simp: stream_inv_def in_flight_Cons i_def split: if_splits)
  have old: "stream_inv w S ch R' j (sent j) (got j)" if "j \<noteq> i" for j
    using si [of j] v that by (subst stream_inv_cong [of S j S ch "f # ch" R' R]) (auto simp: i_def)
  have all: "stream_inv w S ch R' j (sent j) (got j)" for j using new old by (cases "j = i") auto
  have h: "held R' = (held R)(i := held R i @ frame_bytes f)"
    "fc_recv_window (mx_session_flow R') = fc_recv_window (mx_session_flow R) - int (length (frame_bytes f))" using v by auto
  have "session_inv w S R' sent" using inv unfolding dir_inv_def session_inv_def h sum_upd by simp
  moreover have "mx_role R' = mx_role R" using v by (simp add: same_frame_def)
  ultimately have "dir_inv w S ch R' sent got" using inv all v unfolding dir_inv_def by auto
  then show ?thesis using v by (simp add: i_def)
qed

lemma dir_read:
  assumes inv: "dir_inv w S ch R sent got" and run: "read_inbound i R = (data, R')" and w: "w \<le> 1073741824"
  shows "dir_inv w S ch R' sent (got(i := got i @ data)) \<and> same_sending R R' \<and> same_frame R R' \<and> mx_id_alloc R' = mx_id_alloc R
    \<and> (\<forall>j. known R' j \<longleftrightarrow> known R j)"
proof -
  have si: "stream_inv w S ch R j (sent j) (got j)" for j using inv by (simp add: dir_inv_def)
  have room: "length (held R j) \<le> length (sent j)" for j using si [of j] by (simp add: stream_inv_def)
  have r: "window R i + int (length (held R i)) = w" "int (length (held R i)) \<le> w"
    using si [of i, unfolded stream_inv_def] room [of i] by linarith+
  have ses: "fc_recv_window (mx_session_flow R) + (\<Sum>j\<in>UNIV. int (length (held R j))) = w"
    "(\<Sum>j\<in>UNIV. int (length (sent j))) \<le> w" using inv by (auto simp: dir_inv_def session_inv_def)
  have "(\<Sum>j\<in>UNIV. int (length (held R j))) \<le> (\<Sum>j\<in>UNIV. int (length (sent j)))" using room by (intro sum_mono) simp
  then have nn: "0 \<le> fc_recv_window (mx_session_flow R)" using ses by linarith
  have lim: "fc_recv_window (mx_session_flow R) + int (length (held R i)) \<le> 1073741824" "window R i + int (length (held R i)) \<le> 1073741824"
    "0 \<le> window R i" using ses(1) sum_member [of "held R" i] w r by linarith+
  note v = read_inbound_views [OF run lim(3,2) nn lim(1)]
  have new: "stream_inv w S ch R' i (sent i) (got i @ data)" using si [of i] v by (auto simp: stream_inv_def)
  have old: "stream_inv w S ch R' j (sent j) (got j)" if "j \<noteq> i" for j
    using si [of j] v that by (subst stream_inv_cong [of S j S ch ch R' R]) auto
  have all: "stream_inv w S ch R' j (sent j) ((got(i := got i @ data)) j)" for j using new old by (cases "j = i") auto
  have h: "held R' = (held R)(i := [])"
    "fc_recv_window (mx_session_flow R') = fc_recv_window (mx_session_flow R) + int (length (held R i))" using v by auto
  have "session_inv w S R' sent" using inv unfolding dir_inv_def session_inv_def h sum_upd by simp
  moreover have "mx_role R' = mx_role R" using v by (simp add: same_frame_def)
  ultimately show ?thesis using inv all v unfolding dir_inv_def by auto
qed

subsection \<open>Two multiplexers on a connection\<close>

text \<open>
  Two ends joined by two ordered channels of frames. What the application handed over and was given
  is recorded per stream: \<open>sent\<close> the bytes \<open>send_data\<close> accepted, \<open>got\<close> the bytes
  \<open>read_inbound\<close> returned.
\<close>

record mux_net =
  net_a :: StreamMultiplexer
  net_b :: StreamMultiplexer
  net_ab :: "sl_stream_frame_t list"
  net_ba :: "sl_stream_frame_t list"
  sent_a :: "u32 \<Rightarrow> bytes"
  sent_b :: "u32 \<Rightarrow> bytes"
  got_a :: "u32 \<Rightarrow> bytes"
  got_b :: "u32 \<Rightarrow> bytes"

datatype mux_op = MxOpen int sl_priority_t | MxSend u32 bytes bool | MxPop "u32 list" | MxDeliver int | MxRead u32

fun a_step :: "mux_op \<Rightarrow> mux_net \<Rightarrow> mux_net" where
  "a_step (MxOpen now prio) net = net\<lparr>net_a := snd (open_stream now prio (net_a net))\<rparr>"
| "a_step (MxSend i data fin) net =
     (let (ok, m) = send_data i data fin (net_a net)
      in net\<lparr>net_a := m, sent_a := (if ok then (sent_a net)(i := sent_a net i @ data) else sent_a net)\<rparr>)"
| "a_step (MxPop order) net =
     (let (fo, m) = pop_outbound order (net_a net)
      in net\<lparr>net_a := m, net_ab := (case fo of None \<Rightarrow> net_ab net | Some f \<Rightarrow> net_ab net @ [f])\<rparr>)"
| "a_step (MxDeliver now) net =
     (case net_ba net of
        [] \<Rightarrow> net
      | f # fs \<Rightarrow> net\<lparr>net_a := snd (on_frame now f (net_a net)), net_ba := fs\<rparr>)"
| "a_step (MxRead i) net =
     (let (data, m) = read_inbound i (net_a net)
      in net\<lparr>net_a := m, got_a := (got_a net)(i := got_a net i @ data)\<rparr>)"

definition flip :: "mux_net \<Rightarrow> mux_net" where
  "flip net = \<lparr>net_a = net_b net, net_b = net_a net, net_ab = net_ba net, net_ba = net_ab net,
     sent_a = sent_b net, sent_b = sent_a net, got_a = got_b net, got_b = got_a net\<rparr>"

fun net_step :: "bool \<times> mux_op \<Rightarrow> mux_net \<Rightarrow> mux_net" where
  "net_step (at_b, op) net = (if at_b then flip (a_step op (flip net)) else a_step op net)"

definition net_new :: "u32 \<Rightarrow> mux_net" where
  "net_new w = \<lparr>net_a = mux_new SL_STREAM_ROLE_CLIENT w, net_b = mux_new SL_STREAM_ROLE_SERVER w, net_ab = [], net_ba = [],
     sent_a = (\<lambda>_. []), sent_b = (\<lambda>_. []), got_a = (\<lambda>_. []), got_b = (\<lambda>_. [])\<rparr>"

definition net_inv :: "int \<Rightarrow> mux_net \<Rightarrow> bool" where
  "net_inv w net \<longleftrightarrow> dir_inv w (net_a net) (net_ab net) (net_b net) (sent_a net) (got_b net)
     \<and> dir_inv w (net_b net) (net_ba net) (net_a net) (sent_b net) (got_a net)
     \<and> ((mx_role (net_a net) = SL_STREAM_ROLE_CLIENT) \<noteq> (mx_role (net_b net) = SL_STREAM_ROLE_CLIENT))
     \<and> sid_ok (mx_role (net_a net)) (mx_id_alloc (net_a net)) \<and> sid_ok (mx_role (net_b net)) (mx_id_alloc (net_b net))"

lemma net_inv_flip: "net_inv w (flip net) \<longleftrightarrow> net_inv w net"
  by (auto simp: net_inv_def flip_def)

lemma own_is_peers:
  assumes "sid_own role i" "i \<noteq> 0" "(role = SL_STREAM_ROLE_CLIENT) \<noteq> (role' = SL_STREAM_ROLE_CLIENT)"
  shows "sl_stream_id_belongs_to_peer i role'"
  using assms by (auto simp: sid_own_def sl_stream_id_belongs_to_peer_def sl_stream_id_is_control_def split: if_splits)

lemma a_step_inv:
  assumes inv: "net_inv w net" and w: "w \<le> 1073741824"
  shows "net_inv w (a_step op net)"
proof -
  let ?a = "net_a net" and ?b = "net_b net"
  have ab: "dir_inv w ?a (net_ab net) ?b (sent_a net) (got_b net)" and ba: "dir_inv w ?b (net_ba net) ?a (sent_b net) (got_a net)"
    and roles: "(mx_role ?a = 0) \<noteq> (mx_role ?b = 0)"
    and ids: "sid_ok (mx_role ?a) (mx_id_alloc ?a)" "sid_ok (mx_role ?b) (mx_id_alloc ?b)"
    using inv by (auto simp: net_inv_def)
  show ?thesis
  proof (cases op)
    case (MxOpen now prio)
    obtain i m where m: "open_stream now prio ?a = (i, m)" by fastforce
    note v = open_stream_views [OF m ids(1)]
    have "dir_inv w m (net_ab net) ?b (sent_a net) (got_b net)"
      by (rule dir_sender_idle [OF ab]) (use v own_is_peers [OF _ _ roles] in blast)+
    moreover have "dir_inv w ?b (net_ba net) m (sent_b net) (got_a net)"
      by (rule dir_receiver_idle [OF ba]) (use v in blast)+
    ultimately show ?thesis using MxOpen m v roles ids by (simp add: net_inv_def same_frame_def)
  next
    case (MxSend i data fin)
    obtain ok m where m: "send_data i data fin ?a = (ok, m)" by fastforce
    note v = send_data_views(1-4) [OF m]
    have "dir_inv w ?b (net_ba net) m (sent_b net) (got_a net)"
      by (rule dir_receiver_idle [OF ba]) (use v in simp_all)
    with dir_send [OF ab m] show ?thesis using MxSend m v roles ids by (simp add: net_inv_def same_frame_def)
  next
    case (MxPop order)
    obtain fo m where m: "pop_outbound order ?a = (fo, m)" by fastforce
    note v = pop_outbound_views [OF m]
    have "dir_inv w ?b (net_ba net) m (sent_b net) (got_a net)"
      by (rule dir_receiver_idle [OF ba]) (use v in simp_all)
    with dir_pop [OF ab m] show ?thesis using MxPop m v roles ids by (simp add: net_inv_def same_frame_def)
  next
    case (MxDeliver now)
    show ?thesis
    proof (cases "net_ba net")
      case (Cons f fs)
      obtain ok m where m: "on_frame now f ?a = (ok, m)" by fastforce
      note v = dir_deliver [OF ba [unfolded Cons] m]
      have "known ?b (sf_stream_id f)" "sf_stream_id f \<noteq> 0" using ba Cons by (auto simp: dir_inv_def)
      then have "dir_inv w m (net_ab net) ?b (sent_a net) (got_b net)"
        by (intro dir_sender_idle [OF ab]) (use v in auto)
      with v show ?thesis using MxDeliver Cons m roles ids by (simp add: net_inv_def same_frame_def)
    qed (use MxDeliver inv in simp)
  next
    case (MxRead i)
    obtain data m where m: "read_inbound i ?a = (data, m)" by fastforce
    note v = dir_read [OF ba m w]
    have "dir_inv w m (net_ab net) ?b (sent_a net) (got_b net)"
      by (rule dir_sender_idle [OF ab]) (use v in auto)
    with v show ?thesis using MxRead m roles ids by (simp add: net_inv_def same_frame_def)
  qed
qed

lemma net_run_inv:
  assumes "net_inv w net" "w \<le> 1073741824"
  shows "net_inv w (fold net_step ops net)"
  using assms
proof (induction ops arbitrary: net)
  case (Cons op ops)
  obtain at_b o' where op: "op = (at_b, o')" by fastforce
  have "net_inv w (net_step op net)"
    using a_step_inv [of w net o'] a_step_inv [of w "flip net" o'] Cons.prems by (simp add: op net_inv_flip)
  with Cons show ?case by simp
qed simp

lemma net_new_inv: "net_inv (uint w) (net_new w)"
  by (auto simp: net_inv_def net_new_def mux_new_def dir_inv_def stream_inv_def session_inv_def in_flight_def view_defs
    mux_find_def sl_flow_init_with_def sl_stream_id_init_def sid_ok_def)

text \<open>
  C33. Two multiplexers joined by ordered channels deliver every stream intact. Whatever the interleaving of
  opening streams, sending, scheduling, delivering and reading at the two ends, and whatever
  order the hash maps are walked in: for every stream and in both directions, the bytes accepted for sending
  are exactly the bytes read at the other end, followed by those held there, in flight, and queued, in this order.
  No frame is ever refused, and neither end ever holds more bytes than the session window.
\<close>

theorem mux_delivers:
  assumes "uint w \<le> SL_FC_MAX_WINDOW" "net = fold net_step ops (net_new w) \<or> net = flip (fold net_step ops (net_new w))"
  shows "sent_a net i = got_b net i @ held (net_b net) i @ in_flight (net_ab net) i @ concat (queued (net_a net) i)
    \<and> (\<forall>f fs now. net_ab net = f # fs \<longrightarrow> fst (on_frame now f (net_b net)))
    \<and> (\<Sum>j\<in>UNIV. int (length (held (net_b net) j))) \<le> uint w"
proof -
  have "net_inv (uint w) net" using net_run_inv [OF net_new_inv assms(1)] assms(2) net_inv_flip by auto
  then have inv: "dir_inv (uint w) (net_a net) (net_ab net) (net_b net) (sent_a net) (got_b net)" by (simp add: net_inv_def)
  have si: "stream_inv (uint w) (net_a net) (net_ab net) (net_b net) j (sent_a net j) (got_b net j)" for j
    using inv by (simp add: dir_inv_def)
  have "fst (on_frame now f (net_b net))" if "net_ab net = f # fs" for f fs now
    using dir_deliver [of "uint w" "net_a net" f fs "net_b net" "sent_a net" "got_b net" now] inv that by (metis prod.collapse)
  moreover have "(\<Sum>j\<in>UNIV. int (length (held (net_b net) j))) \<le> (\<Sum>j\<in>UNIV. int (length (sent_a net j)))"
    using si by (intro sum_mono) (simp add: stream_inv_def)
  moreover have "(\<Sum>j\<in>UNIV. int (length (sent_a net j))) \<le> uint w" using inv by (simp add: dir_inv_def session_inv_def)
  ultimately show ?thesis using si [of i] by (auto simp: stream_inv_def)
qed

definition mux_example :: "(bool \<times> mux_op) list" where
  "mux_example = [(False, MxOpen 0 2), (False, MxSend 1 [7, 8] False), (False, MxSend 1 [9] True), (False, MxPop [1]),
     (True, MxDeliver 0), (True, MxRead 1)]"

lemmas mux_eval = net_new_def mux_new_def flip_def open_stream_def send_data_def pop_outbound_def on_frame_def on_data_def read_inbound_def
  mux_find_or_create_def mux_find_def mux_put_def queue_fin_def sendable_def sl_stream_id_init_def sl_stream_id_next_def
  sl_stream_id_belongs_to_peer_def sl_stream_id_is_control_def sl_stream_id_is_client_initiated_def
  sl_flow_init_with_def sl_flow_can_send_def sl_flow_charge_send_def sl_flow_charge_recv_def sl_flow_grant_recv_def
  ss_new_def ss_open_def ss_transition_to_def ss_can_send_def ss_can_recv_def ss_on_sent_fin_def sl_priority_default_for_def Let_def

theorem mux_delivers_witness:
  "let net = fold net_step mux_example (net_new 100) in sent_a net 1 = [7, 8, 9] \<and> got_b net 1 = [7, 8]
     \<and> sent_a net 1 = got_b net 1 @ held (net_b net) 1 @ in_flight (net_ab net) 1 @ concat (queued (net_a net) 1)"
proof -
  let ?net = "fold net_step mux_example (net_new 100)"
  have "sent_a ?net 1 = [7, 8, 9] \<and> got_b ?net 1 = [7, 8]" by (simp add: mux_example_def mux_eval)
  moreover have "sent_a ?net 1 = got_b ?net 1 @ held (net_b ?net) 1 @ in_flight (net_ab ?net) 1 @ concat (queued (net_a ?net) 1)"
    using mux_delivers [of 100 ?net mux_example 1] by simp
  ultimately show ?thesis unfolding Let_def by blast
qed

subsection \<open>What the session window allows\<close>

text \<open>
  Nothing ever gives the session its sending credit back: a frame of window type reaches a stream, and on
  the control stream it is ignored. So no session accepts more than its initial window in all its life.
\<close>

datatype mux_call = COpen int sl_priority_t | CSend u32 bytes bool | CFrame int sl_stream_frame_t | CPop "u32 list"
  | CRead u32 | CReset u32 string

fun mux_do :: "mux_call \<Rightarrow> StreamMultiplexer \<Rightarrow> nat \<times> StreamMultiplexer" where
  "mux_do (COpen now prio) m = (0, snd (open_stream now prio m))"
| "mux_do (CSend i data fin) m = (let (ok, m') = send_data i data fin m in (if ok then length data else 0, m'))"
| "mux_do (CFrame now f) m = (0, snd (on_frame now f m))"
| "mux_do (CPop order) m = (0, snd (pop_outbound order m))"
| "mux_do (CRead i) m = (0, snd (read_inbound i m))"
| "mux_do (CReset i reason) m = (0, snd (reset_stream i reason m))"

fun mux_sent :: "mux_call list \<Rightarrow> StreamMultiplexer \<Rightarrow> nat" where
  "mux_sent [] m = 0"
| "mux_sent (c # cs) m = (let (n, m') = mux_do c m in n + mux_sent cs m')"

abbreviation session_credit :: "StreamMultiplexer \<Rightarrow> int" where
  "session_credit m \<equiv> fc_send_credit (mx_session_flow m)"

lemma charge_recv_send_credit: "sl_flow_charge_recv (Some fl) n = (rc, fo) \<Longrightarrow> fc_send_credit (the fo) = fc_send_credit fl"
  by (auto simp: sl_flow_charge_recv_def split: if_splits)

lemma grant_recv_send_credit [simp]: "fc_send_credit (the (snd (sl_flow_grant_recv (Some fl) n))) = fc_send_credit fl"
  by (simp add: sl_flow_grant_recv_def)

lemma on_data_session: "session_credit (snd (on_data f rec m)) = session_credit m"
  by (auto simp: on_data_def Let_def split: prod.splits if_splits dest: charge_recv_send_credit)

lemma mux_do_session:
  "mux_do c m = (n, m') \<Longrightarrow> session_credit m' = session_credit m - int n \<and> (0 < n \<longrightarrow> 0 \<le> session_credit m')"
proof (cases c)
  case (CSend i data fin)
  moreover assume "mux_do c m = (n, m')"
  ultimately obtain ok where s: "send_data i data fin m = (ok, m')" "n = (if ok then length data else 0)"
    by (auto split: prod.splits)
  show ?thesis using send_data_views(5,6) [OF s(1)] s(2) by (cases ok) (auto simp: same_sending_def)
next
  case (CFrame now f)
  moreover assume "mux_do c m = (n, m')"
  ultimately show ?thesis
    by (auto simp: on_frame_def on_window_def mux_reset_with_def on_data_session Let_def split: prod.splits if_splits
      dest!: mux_find_or_create_views(6))
next
  case (CPop order)
  moreover assume "mux_do c m = (n, m')"
  moreover obtain fo m1 where "pop_outbound order m = (fo, m1)" by fastforce
  ultimately show ?thesis using pop_outbound_views by force
qed (auto simp: open_stream_def read_inbound_def reset_stream_def mux_reset_with_def Let_def split: prod.splits option.splits
  dest!: mux_find_or_create_views(6))

lemma session_never_replenished: "0 \<le> session_credit m \<Longrightarrow> int (mux_sent cs m) \<le> session_credit m"
proof (induction cs arbitrary: m)
  case (Cons c cs)
  obtain n m' where d: "mux_do c m = (n, m')" by fastforce
  have "0 \<le> session_credit m'" "session_credit m' = session_credit m - int n"
    using mux_do_session [OF d] Cons.prems by (cases "n = 0"; simp)+
  then show ?case using Cons.IH d by fastforce
qed simp

text \<open>A stream closed by its peer first is never told of our end: the last frame carries no FIN.\<close>

lemma fin_not_sent_when_peer_closed_first:
  assumes "mux_find m i = Some rec" "ss_phase (sr_state rec) = kHalfClosedRemote" "sr_outbound rec = []"
    "send_data i [] True m = (ok, m')" "pop_outbound order m' = (Some f, m'')" "sf_stream_id f = i"
  shows "ok \<and> \<not> fin_flag f"
proof -
  have m': "ok" "mux_find m' i = Some (rec\<lparr>sr_state := ss_transition_to kStreamClosed (sr_state rec), sr_outbound := [[]]\<rparr>)"
    using assms(1-4) by (auto simp: send_data_def queue_fin_def ss_can_send_def ss_on_sent_fin_def Let_def)
  obtain k where k: "pick_band m' order [0, 1, 2, 3, 4] = Some k"
    using assms(5) by (cases "pick_band m' order [0, 1, 2, 3, 4]") (auto simp: pop_outbound_def)
  then have "k = i" using assms(5,6) unfolding pop_outbound_def Let_def by (auto simp del: pick_band.simps)
  then have "sf_flags f = 0" using assms(5) k m' unfolding pop_outbound_def Let_def
    by (auto simp: ss_transition_to_def simp del: pick_band.simps)
  then show ?thesis using m'(1) by (simp add: fin_flag_def)
qed

end
