(* ===== verification/SL_Stdio.thy ===== *)
theory SL_Stdio
  imports SL_Prelude
begin

text \<open>
  Files as the code sees them through POSIX and C stdio. A file is its content. A call of \<open>read\<close>,
  \<open>write\<close> or \<open>pwrite\<close> fails or transfers at least one byte, unless a read is at the end of the
  file; its answer is given by the position, or the number of bytes transferred, before it. A
  stream opened for appending writes at the end of the file; the answer to a call of \<open>fwrite\<close> is
  the number of bytes it takes, or that it takes all.
\<close>

subsection \<open>Descriptors\<close>

type_synonym io_answers = "nat \<Rightarrow> nat option"

definition sys_read :: "io_answers \<Rightarrow> nat \<Rightarrow> nat \<Rightarrow> bytes \<Rightarrow> bytes option" where
  "sys_read ans sz pos f = map_option (\<lambda>k. take (min sz (max 1 k)) (drop pos f)) (ans pos)"

text \<open>A write extends the file where it reaches past its end.\<close>

definition file_write :: "nat \<Rightarrow> bytes \<Rightarrow> bytes \<Rightarrow> bytes" where
  "file_write off d f = take off (f @ replicate (off - length f) 0) @ d @ drop (off + length d) f"

lemma sys_read_inside: "sys_read ans sz pos f = Some (b # bs) \<Longrightarrow> pos < length f"
  by (auto simp: sys_read_def) (metis drop_all leI list.distinct(1) take_Nil)

lemma file_write_inside: "off + length d \<le> length f \<Longrightarrow> file_write off d f = write_at off d f"
  by (simp add: file_write_def write_at_def)

lemma write_at_write_at:
  "off + length x + length y \<le> length f \<Longrightarrow> write_at (off + length x) y (write_at off x f) = write_at off (x @ y) f"
  by (cases x) (auto simp: write_at_def min_def ac_simps)

subsection \<open>Streams\<close>

type_synonym fwrite_answer = "nat option"

definition fwrite :: "fwrite_answer \<Rightarrow> bytes \<Rightarrow> bytes \<Rightarrow> bool \<times> bytes" where
  "fwrite ans d f =
     (case ans of
        None \<Rightarrow> (True, f @ d)
      | Some k \<Rightarrow> (length d \<le> k, f @ take k d))"

definition fread :: "nat \<Rightarrow> nat \<Rightarrow> bytes \<Rightarrow> bytes" where
  "fread n pos f = take n (drop pos f)"

text \<open>A sequence of writes stops at the first one that is not taken whole.\<close>

fun fwrite_all :: "(fwrite_answer \<times> bytes) list \<Rightarrow> bytes \<Rightarrow> bool \<times> bytes" where
  "fwrite_all [] f = (True, f)"
| "fwrite_all ((ans, d) # ds) f = (case fwrite ans d f of (False, f1) \<Rightarrow> (False, f1) | (True, f1) \<Rightarrow> fwrite_all ds f1)"

lemma fwrite_all_ok:
  "fwrite_all ds f = (True, f') \<Longrightarrow> f' = f @ concat (map snd ds)"
  by (induction ds arbitrary: f) (fastforce simp: fwrite_def split: option.splits prod.splits bool.splits)+

lemma fwrite_all_taken: "\<forall>(a, d) \<in> set ds. a = None \<Longrightarrow> fwrite_all ds f = (True, f @ concat (map snd ds))"
  by (induction ds arbitrary: f) (auto simp: fwrite_def)

lemma fwrite_all_extends: "\<exists>junk. snd (fwrite_all ds f) = f @ junk"
proof (induction ds arbitrary: f)
  case (Cons a ds)
  obtain ans d ok f1 where a: "a = (ans, d)" "fwrite ans d f = (ok, f1)" by (metis surj_pair)
  then obtain x where "f1 = f @ x" by (auto simp: fwrite_def split: option.splits)
  then show ?case using a Cons.IH [of f1] by (cases ok) auto
qed simp

lemma fread_append: "length x = pos \<Longrightarrow> fread n pos (x @ y) = take n y"
  by (simp add: fread_def)

text \<open>The file system: what each path names.\<close>

type_synonym file_system = "bytes \<Rightarrow> bytes option"

end
