(* ===== verification/SL_Transfer.thy ===== *)
theory SL_Transfer
  imports SL_Stdio SL_File SL_Keys SL_Time SL_Mem
begin

text \<open>
  File transfer end to end: \<open>file_sender.cpp\<close> and \<open>file_receiver.cpp\<close>. An open descriptor is the
  content of its file, \<open>NULL\<close> for \<open>-1\<close>. What the kernel answers to \<open>open\<close>, \<open>fstat\<close>, \<open>lseek\<close>,
  \<open>ftruncate\<close>, \<open>read\<close> and \<open>pwrite\<close> is a parameter. The functions of the sender that emit a frame
  return the frame they hand to the application's send function, with the answer of that function as
  their argument. An access outside the resume map is the outer \<open>None\<close>.
\<close>

subsection \<open>Hashing a file\<close>

function hash_loop :: "hash_api \<Rightarrow> io_answers \<Rightarrow> nat \<Rightarrow> bytes \<Rightarrow> nat \<Rightarrow> sl_sha256_stream ptr \<Rightarrow> bool \<times> sl_sha256_stream ptr" where
  "hash_loop H ans sz f pos h =
     (case sys_read ans sz pos f of
        None \<Rightarrow> (False, h)
      | Some [] \<Rightarrow> (True, h)
      | Some (b # bs) \<Rightarrow>
          hash_loop H ans sz f (pos + length (b # bs)) (snd (sl_sha256_stream_update H h (Some (b # bs)) (length (b # bs)))))"
  by pat_completeness auto

termination
  by (relation "measure (\<lambda>(H, ans, sz, f, pos, h). length f - pos)") (auto dest: sys_read_inside)

declare hash_loop.simps [simp del]

subsection \<open>Sender\<close>

record file_stat =
  st_size :: u64
  st_mode :: u32
  st_mtime :: u64

text \<open>The answers of the system to the calls \<open>open\<close> makes.\<close>

record open_env =
  oe_content :: "bytes option"
  oe_stat :: "file_stat option"
  oe_calloc :: bool
  oe_lseek_start :: bool
  oe_read :: io_answers
  oe_lseek_end :: bool

record FileSenderStats =
  chunks_sent :: u32
  bytes_sent :: u64
  throttle_hits :: u32

record FileSender =
  fs_source :: bytes
  fs_wire_name :: bytes
  fs_chunk_size :: u32
  fs_fd :: "bytes ptr"
  fs_meta :: sl_file_meta_t
  fs_next_idx :: u32
  fs_bucket :: "sl_token_bucket_t ptr"
  fs_stats :: FileSenderStats

definition file_meta_zero :: sl_file_meta_t where
  "file_meta_zero = \<lparr>fm_total_size = 0, fm_chunk_size = 0, fm_total_chunks = 0, fm_mode = 0, fm_mtime_s = 0,
     fm_sha256 = replicate 32 0, fm_name = replicate (SL_FILE_NAME_MAX + 1) 0, fm_name_len = 0\<rparr>"

definition fs_new :: "bytes \<Rightarrow> bytes \<Rightarrow> u32 \<Rightarrow> FileSender" where
  "fs_new source_path wire_name chunk_size =
     \<lparr>fs_source = source_path, fs_wire_name = wire_name, fs_chunk_size = chunk_size, fs_fd = NULL,
      fs_meta = file_meta_zero, fs_next_idx = 0, fs_bucket = NULL,
      fs_stats = \<lparr>chunks_sent = 0, bytes_sent = 0, throttle_hits = 0\<rparr>\<rparr>"

definition meta_of_stat :: "file_stat \<Rightarrow> u32 \<Rightarrow> sl_file_meta_t \<Rightarrow> sl_file_meta_t" where
  "meta_of_stat st chunk_size m =
     m\<lparr>fm_total_size := st_size st, fm_chunk_size := chunk_size,
       fm_total_chunks := (if st_size st = 0 then 0
                           else ucast ((st_size st + ucast chunk_size - 1) div ucast chunk_size)),
       fm_mode := st_mode st AND 0x1FF, fm_mtime_s := ucast (st_mtime st)\<rparr>"

definition compute_meta :: "hash_api \<Rightarrow> open_env \<Rightarrow> bytes \<Rightarrow> FileSender \<Rightarrow> bool \<times> FileSender" where
  "compute_meta H E f s =
     (case oe_stat E of
        None \<Rightarrow> (False, s)
      | Some st \<Rightarrow>
          let s1 = s\<lparr>fs_meta := meta_of_stat st (fs_chunk_size s) (fs_meta s)\<rparr> in
          (case sl_sha256_stream_new H (oe_calloc E) of
             None \<Rightarrow> (False, s1)
           | Some h0 \<Rightarrow>
               if \<not> oe_lseek_start E then (False, s1)
               else
                 (case hash_loop H (oe_read E) (unat (fs_chunk_size s)) f 0 (Some h0) of
                    (False, _) \<Rightarrow> (False, s1)
                  | (True, h1) \<Rightarrow>
                      let digest = fst (sl_sha256_stream_finalize H h1 OUT);
                          s2 = s1\<lparr>fs_meta := (fs_meta s1)\<lparr>fm_sha256 := (case digest of None \<Rightarrow> fm_sha256 (fs_meta s1) | Some d \<Rightarrow> d)\<rparr>\<rparr>;
                          n = length (fs_wire_name s)
                      in if n > SL_FILE_NAME_MAX then (False, s2)
                         else
                           let s3 = s2\<lparr>fs_meta := (fs_meta s2)\<lparr>fm_name := (write_at 0 (fs_wire_name s) (fm_name (fs_meta s2)))[n := 0],
                                                              fm_name_len := of_nat n\<rparr>\<rparr>
                           in if \<not> oe_lseek_end E then (False, s3)
                              else (sl_file_meta_validate (Some (fs_meta s3)) = 0, s3\<lparr>fs_next_idx := 0\<rparr>))))"

definition fs_open :: "hash_api \<Rightarrow> open_env \<Rightarrow> FileSender \<Rightarrow> bool \<times> FileSender" where
  "fs_open H E s =
     (if fs_chunk_size s < SL_FILE_CHUNK_MIN \<or> fs_chunk_size s > SL_FILE_CHUNK_MAX then (False, s)
      else
        (case oe_content E of
           None \<Rightarrow> (False, s\<lparr>fs_fd := NULL\<rparr>)
         | Some f \<Rightarrow> compute_meta H E f (s\<lparr>fs_fd := Some f\<rparr>)))"

definition send_meta :: "(bytes \<Rightarrow> bool) \<Rightarrow> FileSender \<Rightarrow> bool \<times> bytes option" where
  "send_meta send s =
     (case sl_file_meta_pack (Some (fs_meta s)) (Some (SL_FILE_META_FIXED_LEN + unat (fm_name_len (fs_meta s)))) of
        None \<Rightarrow> (False, None)
      | Some wire \<Rightarrow> (send wire, Some wire))"

definition has_more :: "FileSender \<Rightarrow> bool" where
  "has_more s = (fs_next_idx s < fm_total_chunks (fs_meta s))"

definition fs_throttle :: "clock_reading \<Rightarrow> FileSender \<Rightarrow> bool \<times> FileSender" where
  "fs_throttle ts s =
     (case fs_bucket s of
        None \<Rightarrow> (True, s)
      | Some b \<Rightarrow>
          let (rc, b') = sl_token_bucket_try_take ts (Some b) (ucast (fs_chunk_size s)); s1 = s\<lparr>fs_bucket := b'\<rparr>
          in if rc \<noteq> 0
             then (False, s1\<lparr>fs_stats := (fs_stats s1)\<lparr>throttle_hits := throttle_hits (fs_stats s1) + 1\<rparr>\<rparr>)
             else (True, s1))"

definition send_next_chunk ::
  "clock_reading \<Rightarrow> bool \<Rightarrow> io_answers \<Rightarrow> (bytes \<Rightarrow> bool) \<Rightarrow> FileSender \<Rightarrow> bool \<times> bytes option \<times> FileSender" where
  "send_next_chunk ts lseek_ok ans send s0 =
     (if \<not> has_more s0 then (False, None, s0)
      else
        case fs_throttle ts s0 of
          (False, s) \<Rightarrow> (False, None, s)
        | (True, s) \<Rightarrow>
            let off = ucast (fs_next_idx s) * ucast (fs_chunk_size s) :: u64 in
            (case fs_fd s of
               None \<Rightarrow> (False, None, s)
             | Some f \<Rightarrow>
                 if \<not> lseek_ok then (False, None, s)
                 else
                   (case sys_read ans (unat (fs_chunk_size s)) (unat off) f of
                      None \<Rightarrow> (False, None, s)
                    | Some [] \<Rightarrow> (False, None, s)
                    | Some (d # ds) \<Rightarrow>
                        let data = d # ds;
                            c = \<lparr>fc_chunk_index = fs_next_idx s, fc_data_len = of_nat (length data), fc_crc32c = 0,
                                 fc_flags = (if fs_next_idx s + 1 = fm_total_chunks (fs_meta s) then 1 else 0),
                                 fc_chunk_data = Some data\<rparr>
                        in (case sl_file_chunk_pack (Some c) (Some (SL_FILE_CHUNK_HEADER_LEN + length data)) of
                              None \<Rightarrow> (False, None, s)
                            | Some wire \<Rightarrow>
                                if \<not> send wire then (False, Some wire, s)
                                else (True, Some wire,
                                      s\<lparr>fs_stats := (fs_stats s)\<lparr>chunks_sent := chunks_sent (fs_stats s) + 1,
                                                                bytes_sent := bytes_sent (fs_stats s) + of_nat (length data)\<rparr>,
                                        fs_next_idx := fs_next_idx s + 1\<rparr>)))))"

definition seek_chunk :: "u32 \<Rightarrow> FileSender \<Rightarrow> bool \<times> FileSender" where
  "seek_chunk chunk_index s =
     (if chunk_index > fm_total_chunks (fs_meta s) then (False, s) else (True, s\<lparr>fs_next_idx := chunk_index\<rparr>))"

definition set_throttle :: "u64 \<Rightarrow> u64 \<Rightarrow> FileSender \<Rightarrow> FileSender" where
  "set_throttle capacity_bytes rate_bps s =
     s\<lparr>fs_bucket := sl_token_bucket_init (Some \<lparr>tb_capacity_bytes = 0, tb_rate_bps = 0, tb_tokens = 0, tb_last_refill_us = 0\<rparr>)
                     capacity_bytes rate_bps\<rparr>"


subsection \<open>Receiver\<close>

datatype FileRxResult =
  kAccepted | kDuplicate | kBadChunk | kBadMeta | kComplete | kHashMismatch | kIoError

record FileReceiverStats =
  chunks_received :: u32
  duplicates :: u32
  bad_chunks :: u32
  bytes_received :: u64

record FileReceiver =
  fr_dest_dir :: bytes
  fr_dest_path :: bytes
  fr_fd :: "bytes ptr"
  fr_meta_set :: bool
  fr_meta :: sl_file_meta_t
  fr_resume :: sl_resume_map_t
  fr_hasher :: "sl_sha256_stream ptr"
  fr_hash_done :: bool
  fr_stats :: FileReceiverStats

definition fr_new :: "bytes \<Rightarrow> FileReceiver" where
  "fr_new destination_dir =
     \<lparr>fr_dest_dir = destination_dir, fr_dest_path = [], fr_fd = NULL, fr_meta_set = False, fr_meta = file_meta_zero,
      fr_resume = \<lparr>rm_bits = [], rm_total_chunks = 0, rm_received_chunks = 0\<rparr>, fr_hasher = NULL, fr_hash_done = False,
      fr_stats = \<lparr>chunks_received = 0, duplicates = 0, bad_chunks = 0, bytes_received = 0\<rparr>\<rparr>"

text \<open>The destination is truncated, then extended with zeros to the announced size.\<close>

definition open_dest_file :: "bool \<Rightarrow> bool \<Rightarrow> FileReceiver \<Rightarrow> bool \<times> FileReceiver" where
  "open_dest_file open_ok ftruncate_ok r =
     (let r1 = r\<lparr>fr_dest_path := fr_dest_dir r @ [47] @ c_string (fm_name (fr_meta r))\<rparr> in
      if \<not> open_ok then (False, r1\<lparr>fr_fd := NULL\<rparr>)
      else if fm_total_size (fr_meta r) > 0 then
        if \<not> ftruncate_ok then (False, r1\<lparr>fr_fd := Some []\<rparr>)
        else (True, r1\<lparr>fr_fd := Some (replicate (unat (fm_total_size (fr_meta r))) 0)\<rparr>)
      else (True, r1\<lparr>fr_fd := Some []\<rparr>))"

text \<open>The answers of the system to the calls \<open>on_meta\<close> makes.\<close>

record meta_env =
  me_calloc_map :: bool
  me_calloc_hash :: bool
  me_open :: bool
  me_ftruncate :: bool

definition on_meta :: "hash_api \<Rightarrow> meta_env \<Rightarrow> bytes \<Rightarrow> FileReceiver \<Rightarrow> FileRxResult \<times> FileReceiver" where
  "on_meta H E wire r =
     (if fr_meta_set r then (kBadMeta, r)
      else
        let (rc, m) = sl_file_meta_unpack (Some wire) (Some (fr_meta r)); r1 = r\<lparr>fr_meta := the m\<rparr> in
        if rc \<noteq> 0 then (kBadMeta, r1)
        else
          let (rc2, rm) = sl_resume_map_init (me_calloc_map E) (Some (fr_resume r1)) (fm_total_chunks (fr_meta r1));
              r2 = r1\<lparr>fr_resume := the rm\<rparr>
          in if rc2 \<noteq> 0 then (kIoError, r2)
             else
               let h = sl_sha256_stream_new H (me_calloc_hash E); r3 = r2\<lparr>fr_hasher := h\<rparr>
               in if h = NULL then (kIoError, r3)
                  else
                    (case open_dest_file (me_open E) (me_ftruncate E) r3 of
                       (False, r4) \<Rightarrow> (kIoError, r4)
                     | (True, r4) \<Rightarrow> (kAccepted, r4\<lparr>fr_meta_set := True\<rparr>)))"

text \<open>The loop of \<open>pwrite\<close> calls; the answer to a call is given by the number of bytes written before it.\<close>

function pwrite_loop :: "io_answers \<Rightarrow> nat \<Rightarrow> bytes \<Rightarrow> nat \<Rightarrow> bytes \<Rightarrow> bool \<times> bytes" where
  "pwrite_loop ans off d written f =
     (if written < length d then
        case ans written of
          None \<Rightarrow> (False, f)
        | Some k \<Rightarrow>
            let n = min (length d - written) (max 1 k)
            in pwrite_loop ans off d (written + n) (file_write (off + written) (take n (drop written d)) f)
      else (True, f))"
  by pat_completeness auto

termination
  by (relation "measure (\<lambda>(ans, off, d, written, f). length d - written)") auto

declare pwrite_loop.simps [simp del]

definition bad_chunk :: "FileReceiver \<Rightarrow> FileRxResult \<times> FileReceiver" where
  "bad_chunk r = (kBadChunk, r\<lparr>fr_stats := (fr_stats r)\<lparr>bad_chunks := bad_chunks (fr_stats r) + 1\<rparr>\<rparr>)"

text \<open>The answers of the system to the calls \<open>on_chunk\<close> makes.\<close>

record chunk_env =
  ce_pwrite :: io_answers
  ce_lseek :: bool
  ce_read :: io_answers

definition verify_file :: "hash_api \<Rightarrow> chunk_env \<Rightarrow> FileReceiver \<Rightarrow> FileRxResult \<times> FileReceiver" where
  "verify_file H E r =
     (if fr_hash_done r then (kComplete, r)
      else if \<not> ce_lseek E then (kIoError, r)
      else
        (case hash_loop H (ce_read E) 16384 (the (fr_fd r)) 0 (fr_hasher r) of
           (False, h) \<Rightarrow> (kIoError, r\<lparr>fr_hasher := h\<rparr>)
         | (True, h) \<Rightarrow>
             let (digest, h') = sl_sha256_stream_finalize H h OUT; r1 = r\<lparr>fr_hasher := h'\<rparr>
             in (case digest of
                   None \<Rightarrow> (kIoError, r1)
                 | Some d \<Rightarrow>
                     let r2 = r1\<lparr>fr_hash_done := True\<rparr>
                     in if sl_ct_equal d (fm_sha256 (fr_meta r2)) 32 \<noteq> 1 then (kHashMismatch, r2)
                        else (kComplete, r2))))"

definition on_chunk :: "hash_api \<Rightarrow> chunk_env \<Rightarrow> bytes \<Rightarrow> FileReceiver \<Rightarrow> (FileRxResult \<times> FileReceiver) option" where
  "on_chunk H E wire r =
     (if \<not> fr_meta_set r then Some (kBadMeta, r)
      else
        case sl_file_chunk_unpack (Some wire) OUT of
          None \<Rightarrow> Some (bad_chunk r)
        | Some c \<Rightarrow>
            let m = fr_meta r; i = fc_chunk_index c; n = fc_data_len c in
            if i \<ge> fm_total_chunks m then Some (bad_chunk r)
            else if n > fm_chunk_size m then Some (bad_chunk r)
            else if i + 1 < fm_total_chunks m \<and> n \<noteq> fm_chunk_size m then Some (bad_chunk r)
            else if \<not> sl_file_chunk_crc_ok (Some c) then Some (bad_chunk r)
            else
              (case sl_resume_map_has (Some (fr_resume r)) i of
                 None \<Rightarrow> None
               | Some True \<Rightarrow> Some (kDuplicate, r\<lparr>fr_stats := (fr_stats r)\<lparr>duplicates := duplicates (fr_stats r) + 1\<rparr>\<rparr>)
               | Some False \<Rightarrow>
                   let off = ucast i * ucast (fm_chunk_size m) :: u64;
                       (ok, f) = (if n > 0 then pwrite_loop (ce_pwrite E) (unat off) (the (fc_chunk_data c)) 0 (the (fr_fd r))
                                  else (True, the (fr_fd r)));
                       r1 = r\<lparr>fr_fd := Some f\<rparr>
                   in if \<not> ok then Some (kIoError, r1)
                      else
                        (case sl_resume_map_set (Some (fr_resume r1)) i of
                           None \<Rightarrow> None
                         | Some (_, rm) \<Rightarrow>
                             let st = fr_stats r1;
                                 r2 = r1\<lparr>fr_resume := the rm,
                                         fr_stats := st\<lparr>chunks_received := chunks_received st + 1,
                                                        bytes_received := bytes_received st + ucast n\<rparr>\<rparr>
                             in if \<not> sl_resume_map_complete (Some (fr_resume r2)) then Some (kAccepted, r2)
                                else Some (verify_file H E r2))))"

definition fr_is_complete :: "FileReceiver \<Rightarrow> bool" where
  "fr_is_complete r = (fr_meta_set r \<and> sl_resume_map_complete (Some (fr_resume r)) \<and> fr_hash_done r)"

definition fr_meta_ptr :: "FileReceiver \<Rightarrow> sl_file_meta_t ptr" where
  "fr_meta_ptr r = (if fr_meta_set r then Some (fr_meta r) else NULL)"

definition missing_chunks :: "FileReceiver \<Rightarrow> nat \<Rightarrow> u32 list option" where
  "missing_chunks r mx = map_option fst (sl_resume_map_missing (Some (fr_resume r)) (Some mx))"

subsection \<open>Reading and writing whole files\<close>

lemma hash_loop_Some:
  assumes "hash_healthy H" "0 < sz" "\<not> ss_finalized s" "hash_loop H ans sz f pos (Some s) = (True, h)"
  shows "\<exists>s'. h = Some s' \<and> ss_ctx s' = ss_ctx s @ drop pos f \<and> \<not> ss_finalized s'"
  using assms(3,4)
proof (induction "length f - pos" arbitrary: pos s rule: less_induct)
  case less
  obtain d where d: "sys_read ans sz pos f = Some d"
    using less.prems(2) by (subst (asm) hash_loop.simps) (cases "sys_read ans sz pos f"; simp)
  then obtain k where k: "d = take (min sz (max 1 k)) (drop pos f)" by (auto simp: sys_read_def)
  show ?case
  proof (cases d)
    case Nil
    then have "drop pos f = []" using k assms(2) by (auto simp: take_eq_Nil2 min_def max_def split: if_splits)
    moreover have "h = Some s" using less.prems(2) d Nil by (subst (asm) hash_loop.simps) simp
    ultimately show ?thesis using less.prems(1) by simp
  next
    case (Cons b bs)
    have pos: "pos < length f" using sys_read_inside d Cons by metis
    define s1 where "s1 = s\<lparr>ss_ctx := ss_ctx s @ d, ss_bytes := ss_bytes s + of_nat (length d)\<rparr>"
    have u: "snd (sl_sha256_stream_update H (Some s) (Some d) (length d)) = Some s1"
      using less.prems(1) assms(1) Cons by (simp add: sl_sha256_stream_update_def hash_healthy_def mem_take_def s1_def)
    have l: "hash_loop H ans sz f (pos + length d) (Some s1) = (True, h)"
      using less.prems(2) d u unfolding Cons by (subst (asm) hash_loop.simps) simp
    have m: "length f - (pos + length d) < length f - pos" using pos Cons by simp
    have dd: "d @ drop (pos + length d) f = drop pos f"
      unfolding k by (simp add: add.commute [of pos] min_def flip: drop_drop)
    obtain s' where "h = Some s'" "ss_ctx s' = ss_ctx s1 @ drop (pos + length d) f" "\<not> ss_finalized s'"
      using less.hyps [OF m _ l] less.prems(1) by (auto simp: s1_def)
    then show ?thesis using dd by (simp add: s1_def)
  qed
qed

lemma hash_loop_ok:
  assumes "\<And>p. ans p \<noteq> None"
  shows "fst (hash_loop H ans sz f pos h)"
proof (induction "length f - pos" arbitrary: pos h rule: less_induct)
  case less
  obtain d where d: "sys_read ans sz pos f = Some d" using assms [of pos] by (auto simp: sys_read_def)
  show ?case
  proof (cases d)
    case Nil
    with d show ?thesis by (subst hash_loop.simps) simp
  next
    case (Cons b bs)
    then have "length f - (pos + length d) < length f - pos" using sys_read_inside d Cons by fastforce
    from less.hyps [OF this] show ?thesis using d unfolding Cons by (subst hash_loop.simps) simp
  qed
qed

lemma pwrite_loop_ok:
  assumes "\<And>p. ans p \<noteq> None" "off + length d \<le> length f" "w \<le> length d"
  shows "pwrite_loop ans off d w f = (True, write_at (off + w) (drop w d) f)"
  using assms(2,3)
proof (induction "length d - w" arbitrary: w f rule: less_induct)
  case less
  show ?case
  proof (cases "w < length d")
    case True
    obtain k where k: "ans w = Some k" using assms(1) by blast
    define n where "n = min (length d - w) (max 1 k)"
    have n: "0 < n" "w + n \<le> length d" "length (take n (drop w d)) = n" using True by (auto simp: n_def)
    define f1 where "f1 = write_at (off + w) (take n (drop w d)) f"
    have f1: "file_write (off + w) (take n (drop w d)) f = f1" "length f1 = length f"
      using n less.prems(1) by (simp_all add: f1_def file_write_inside)
    have "pwrite_loop ans off d w f = pwrite_loop ans off d (w + n) f1"
      using True k f1(1) by (subst pwrite_loop.simps) (simp add: Let_def n_def)
    also have "\<dots> = (True, write_at (off + (w + n)) (drop (w + n) d) f1)"
      using less.hyps [of "w + n" f1] n True less.prems(1) f1(2) by simp
    also have "write_at (off + (w + n)) (drop (w + n) d) f1 = write_at (off + w) (take n (drop w d) @ drop (w + n) d) f"
      using write_at_write_at [of "off + w" "take n (drop w d)" "drop (w + n) d" f] n less.prems(1)
      by (simp add: f1_def add.assoc)
    also have "take n (drop w d) @ drop (w + n) d = drop w d" by (simp add: add.commute [of w] flip: drop_drop)
    finally show ?thesis .
  next
    case False
    with less.prems show ?thesis by (subst pwrite_loop.simps) simp
  qed
qed

subsection \<open>What the sender announces and sends\<close>

lemma fs_open_cases:
  assumes "fs_open H E s0 = (True, s)"
  obtains f st h0 h1 where "oe_content E = Some f" "oe_stat E = Some st" "sl_sha256_stream_new H (oe_calloc E) = Some h0"
    "hash_loop H (oe_read E) (unat (fs_chunk_size s0)) f 0 (Some h0) = (True, h1)" "1024 \<le> unat (fs_chunk_size s0)"
    "length (fs_wire_name s0) \<le> 256" "sl_file_meta_validate (Some (fs_meta s)) = 0" 
    "s = s0\<lparr>fs_fd := Some f, fs_next_idx := 0,
       fs_meta := (meta_of_stat st (fs_chunk_size s0) (fs_meta s0))
         \<lparr>fm_sha256 := (case fst (sl_sha256_stream_finalize H h1 OUT) of None \<Rightarrow> fm_sha256 (fs_meta s0) | Some d \<Rightarrow> d),
          fm_name := (write_at 0 (fs_wire_name s0) (fm_name (fs_meta s0)))[length (fs_wire_name s0) := 0],
          fm_name_len := of_nat (length (fs_wire_name s0))\<rparr>\<rparr>"
  using assms
  by (auto simp: fs_open_def compute_meta_def Let_def word_less_nat_alt not_less meta_of_stat_def split: if_splits option.splits prod.splits bool.splits)

text \<open>Both ends agree on what is announced: the metadata describe the file.\<close>

definition announces :: "hash_api \<Rightarrow> sl_file_meta_t \<Rightarrow> bytes \<Rightarrow> bool" where
  "announces H m f \<longleftrightarrow> meta_ok m \<and> sl_file_meta_validate (Some m) = 0 \<and> fm_sha256 m = sha256 H f
     \<and> unat (fm_total_size m) = length f \<and> length f < 2 ^ 41"

lemma announces_sizes:
  assumes "announces H m f"
  shows "1024 \<le> unat (fm_chunk_size m)" "unat (fm_chunk_size m) \<le> 65536" "safe_name (fm_file_name m)"
    "unat (fm_total_chunks m) = (length f + unat (fm_chunk_size m) - 1) div unat (fm_chunk_size m)"
    "unat (fm_total_chunks m) + 7 < 2 ^ 32"
proof -
  from assms have len: "unat (fm_total_size m) = length f" "length f < 2 ^ 41" "length (fm_name m) = 257"
    by (auto simp: announces_def meta_ok_def)
  then have "unat (fm_total_size m) + unat (fm_chunk_size m) \<le> 2 ^ 64"
    using unsigned_less [of "fm_chunk_size m", where 'a = nat] by simp
  from sl_file_meta_validate_iff [OF len(3) this] assms
  have v: "1024 \<le> unat (fm_chunk_size m)" "unat (fm_chunk_size m) \<le> 65536" "safe_name (fm_file_name m)"
    "unat (fm_total_chunks m) = chunk_count m" by (auto simp: announces_def)
  then show "1024 \<le> unat (fm_chunk_size m)" "unat (fm_chunk_size m) \<le> 65536" "safe_name (fm_file_name m)"
    "unat (fm_total_chunks m) = (length f + unat (fm_chunk_size m) - 1) div unat (fm_chunk_size m)"
    by (simp_all add: chunk_count_def len)
  have "(length f + unat (fm_chunk_size m) - 1) div unat (fm_chunk_size m) \<le> (length f + unat (fm_chunk_size m) - 1) div 1024"
    using v(1) by (intro div_le_mono2) simp_all
  also have "\<dots> \<le> (2 ^ 41 + 65536) div 1024" using v(2) len(2) by (intro div_le_mono) simp
  finally show "unat (fm_total_chunks m) + 7 < 2 ^ 32" using v(4) by (simp add: chunk_count_def len)
qed

lemma fs_open_announces:
  assumes "hash_healthy H" "hash_law H" "fs_open H E (fs_new path nm C) = (True, s)"
    and "oe_content E = Some f" "oe_stat E = Some st" "st_size st = of_nat (length f)" "length f < 2 ^ 41"
  shows "announces H (fs_meta s) f" "fs_fd s = Some f" "fs_bucket s = NULL" "fs_chunk_size s = C"
    "fm_chunk_size (fs_meta s) = C" "fm_file_name (fs_meta s) = nm"
proof -
  define s0 where "s0 = fs_new path nm C"
  have s0: "fs_chunk_size s0 = C" "fs_wire_name s0 = nm" "fs_meta s0 = file_meta_zero" "fs_bucket s0 = NULL"
    by (simp_all add: s0_def fs_new_def)
  obtain f' st' h0 h1 where o: "oe_content E = Some f'" "oe_stat E = Some st'" "sl_sha256_stream_new H (oe_calloc E) = Some h0"
    "hash_loop H (oe_read E) (unat C) f' 0 (Some h0) = (True, h1)" "1024 \<le> unat C"
    "length nm \<le> 256" "sl_file_meta_validate (Some (fs_meta s)) = 0"
    and s: "s = s0\<lparr>fs_fd := Some f', fs_next_idx := 0,
       fs_meta := (meta_of_stat st' C file_meta_zero)
         \<lparr>fm_sha256 := (case fst (sl_sha256_stream_finalize H h1 OUT) of None \<Rightarrow> fm_sha256 file_meta_zero | Some d \<Rightarrow> d),
          fm_name := (write_at 0 nm (fm_name file_meta_zero))[length nm := 0],
          fm_name_len := of_nat (length nm)\<rparr>\<rparr>"
    using fs_open_cases [OF assms(3) [folded s0_def], unfolded s0] by blast
  have f': "f' = f" "st' = st" using o(1,2) assms(4,5) by simp_all
  have h0: "ss_ctx h0 = []" "\<not> ss_finalized h0" using o(3) by (auto simp: sl_sha256_stream_new_def split: if_splits)
  obtain s' where h1: "h1 = Some s'" "ss_ctx s' = f" "\<not> ss_finalized s'"
    using hash_loop_Some [OF assms(1) _ h0(2) o(4)] h0(1) o(5) f'(1) by auto
  have fin: "fst (sl_sha256_stream_finalize H h1 OUT) = Some (sha256 H f)" "length (sha256 H f) = 32"
    using h1 assms(1,2) by (simp_all add: sl_sha256_stream_finalize_def hash_healthy_def hash_law_def)
  have size: "unat (of_nat (length f) :: u64) = length f" using assms(7) by simp
  have nm: "unat (of_nat (length nm) :: u16) = length nm" using o(6) by simp
  have "meta_ok (fs_meta s)" using fin o(6) by (simp add: s meta_ok_def file_meta_zero_def)
  then show "announces H (fs_meta s) f"
    using o(7) fin size assms(6,7) by (simp add: announces_def s meta_of_stat_def f')
  show "fs_fd s = Some f" "fs_bucket s = NULL" "fs_chunk_size s = C" "fm_chunk_size (fs_meta s) = C"
    by (simp_all add: s f' s0 meta_of_stat_def)
  show "fm_file_name (fs_meta s) = nm"
    using nm o(6) by (simp add: s fm_file_name_def file_meta_zero_def write_at_def take_update_cancel)
qed

definition chunk_data :: "bytes \<Rightarrow> nat \<Rightarrow> nat \<Rightarrow> bytes" where
  "chunk_data f C i = take C (drop (i * C) f)"

definition chunk_frame :: "sl_file_meta_t \<Rightarrow> bytes \<Rightarrow> u32 \<Rightarrow> bytes" where
  "chunk_frame m f i = (let d = chunk_data f (unat (fm_chunk_size m)) (unat i) in
     pack_u32 i @ pack_u32 (of_nat (length d)) @ pack_u32 (sl_crc32c d)
     @ [if i + 1 = fm_total_chunks m then 1 else 0, 0, 0, 0] @ d)"

lemma below_div: "a < b div c \<Longrightarrow> (a + 1) * c \<le> (b :: nat)"
  by (cases "c = 0") (simp_all add: less_eq_div_iff_mult_less_eq [symmetric] Suc_le_eq del: mult_Suc)

lemma chunk_bounds:
  assumes "announces H m f" "i < fm_total_chunks m"
  defines "C \<equiv> unat (fm_chunk_size m)"
  shows "unat i * C < length f" "unat (ucast i * ucast (fm_chunk_size m) :: u64) = unat i * C"
    "0 < length (chunk_data f C (unat i))" "length (chunk_data f C (unat i)) \<le> C"
    "i + 1 < fm_total_chunks m \<Longrightarrow> length (chunk_data f C (unat i)) = C"
    "unat i * C + length (chunk_data f C (unat i)) \<le> length f"
proof -
  note a = announces_sizes [OF assms(1), folded C_def]
  have i: "unat i < (length f + C - 1) div C" using assms(2) a(4) by (simp add: word_less_nat_alt)
  then have "(unat i + 1) * C \<le> length f + C - 1"
    by (rule below_div)
  then show l: "unat i * C < length f" using a(1) by (simp add: algebra_simps)
  have "unat i * C < 2 ^ 32 * 65537" using u32_less [of i] a(2) by (intro mult_strict_mono) simp_all
  then show "unat (ucast i * ucast (fm_chunk_size m) :: u64) = unat i * C"
    by (simp add: unat_word_ariths C_def)
  show "0 < length (chunk_data f C (unat i))" "length (chunk_data f C (unat i)) \<le> C"
    "unat i * C + length (chunk_data f C (unat i)) \<le> length f"
    using l a(1) by (auto simp: chunk_data_def)
  show "length (chunk_data f C (unat i)) = C" if "i + 1 < fm_total_chunks m"
  proof -
    have "unat (i + 1) = unat i + 1"
      using assms(2) u32_less [of "fm_total_chunks m"] by (simp add: unat_word_ariths word_less_nat_alt)
    with that have "unat i + 1 < (length f + C - 1) div C" using a(4) by (simp add: word_less_nat_alt)
    then have "(unat i + 1 + 1) * C \<le> length f + C - 1" by (rule below_div)
    then have "(unat i + 1) * C \<le> length f" using a(1) by (simp add: algebra_simps)
    then show ?thesis by (simp add: chunk_data_def algebra_simps)
  qed
qed

definition whole_reads :: "io_answers \<Rightarrow> bool" where
  "whole_reads ans \<longleftrightarrow> (\<forall>p. \<exists>k. ans p = Some k \<and> 65536 \<le> k)"

definition sender_of :: "hash_api \<Rightarrow> bytes \<Rightarrow> FileSender \<Rightarrow> bool" where
  "sender_of H f s \<longleftrightarrow> announces H (fs_meta s) f \<and> fs_fd s = Some f \<and> fs_bucket s = NULL
     \<and> fs_chunk_size s = fm_chunk_size (fs_meta s)"

lemma send_next_chunk_frame:
  assumes "sender_of H f s" "whole_reads ans" "has_more s" "send (chunk_frame (fs_meta s) f (fs_next_idx s))"
  shows "\<exists>s'. send_next_chunk ts True ans send s = (True, Some (chunk_frame (fs_meta s) f (fs_next_idx s)), s')
    \<and> sender_of H f s' \<and> fs_meta s' = fs_meta s \<and> fs_next_idx s' = fs_next_idx s + 1"
proof -
  from assms(1) have a: "announces H (fs_meta s) f" "fs_fd s = Some f" "fs_bucket s = NULL" "fs_chunk_size s = fm_chunk_size (fs_meta s)"
    by (simp_all add: sender_of_def)
  have i: "fs_next_idx s < fm_total_chunks (fs_meta s)" using assms(3) by (simp add: has_more_def)
  note b = chunk_bounds [OF a(1) i] and z = announces_sizes [OF a(1)]
  define i where "i = fs_next_idx s"
  define d where "d = chunk_data f (unat (fm_chunk_size (fs_meta s))) (unat i)"
  have r: "sys_read ans (unat (fs_chunk_size s)) (unat (ucast i * ucast (fs_chunk_size s) :: u64)) f = Some d"
  proof -
    obtain k where "ans (unat i * unat (fm_chunk_size (fs_meta s))) = Some k" "65536 \<le> k"
      using assms(2) by (auto simp: whole_reads_def)
    then show ?thesis using b(2) z(2) by (simp add: sys_read_def d_def chunk_data_def a(4) i_def min_def)
  qed
  obtain x xs where d: "d = x # xs" using b(3) by (cases d) (auto simp: d_def i_def)
  have len: "unat (of_nat (length d) :: u32) = length d" using b(4) z(2) by (simp add: d_def i_def)
  then have nz: "of_nat (length d) \<noteq> (0 :: u32)" by (metis d length_0_conv list.distinct(1) unat_0)
  have p: "sl_file_chunk_pack (Some \<lparr>fc_chunk_index = i, fc_data_len = of_nat (length d), fc_crc32c = 0,
      fc_flags = (if i + 1 = fm_total_chunks (fs_meta s) then 1 else 0), fc_chunk_data = Some d\<rparr>) (Some (16 + length d))
    = Some (chunk_frame (fs_meta s) f i)"
    using len nz d by (simp add: sl_file_chunk_pack_def Let_def chunk_frame_def d_def [symmetric])
  show ?thesis
    using assms(1,3,4) r p a
    by (simp add: send_next_chunk_def fs_throttle_def i_def [symmetric] Let_def d sender_of_def)
qed

subsection \<open>What the receiver writes\<close>

definition agree_on :: "nat \<Rightarrow> nat set \<Rightarrow> bytes \<Rightarrow> bytes \<Rightarrow> bool" where
  "agree_on C I g f \<longleftrightarrow> length g = length f \<and> (\<forall>k < length f. k div C \<in> I \<longrightarrow> g ! k = f ! k)"

definition rx_ok :: "hash_api \<Rightarrow> bytes \<Rightarrow> FileReceiver \<Rightarrow> bool" where
  "rx_ok H f r \<longleftrightarrow> fr_meta_set r \<and> announces H (fr_meta r) f \<and> rm_ok (fr_resume r)
     \<and> rm_total_chunks (fr_resume r) = fm_total_chunks (fr_meta r)
     \<and> (\<exists>g. fr_fd r = Some g \<and> agree_on (unat (fm_chunk_size (fr_meta r))) (rm_chunks (fr_resume r)) g f)
     \<and> (fr_hash_done r \<longleftrightarrow> f \<noteq> [] \<and> rm_chunks (fr_resume r) = {..<unat (fm_total_chunks (fr_meta r))})
     \<and> (\<not> fr_hash_done r \<longrightarrow> (\<exists>h. fr_hasher r = Some h \<and> ss_ctx h = [] \<and> \<not> ss_finalized h))"

lemma div_range: "0 < C \<Longrightarrow> k div C = i \<longleftrightarrow> i * C \<le> k \<and> k < i * C + (C :: nat)"
  by (metis add.commute div_nat_eqI div_times_less_eq_dividend dividend_less_div_times mult.commute mult_Suc)

lemma agree_on_write:
  assumes "agree_on C I g f" "0 < C" "i * C \<le> length f"
  shows "agree_on C (insert i I) (write_at (i * C) (chunk_data f C i) g) f"
proof -
  let ?d = "chunk_data f C i"
  have len: "length g = length f" "i * C + length ?d \<le> length f" using assms by (auto simp: agree_on_def chunk_data_def)
  have "write_at (i * C) ?d g ! k = f ! k" if k: "k < length f" "k div C \<in> insert i I" for k
  proof (cases "k div C = i")
    case True
    then have "i * C \<le> k" "k < i * C + C" using div_range [OF assms(2)] by blast+
    then show ?thesis using k(1) len by (auto simp: nth_write_at chunk_data_def min_def)
  next
    case False
    then have "\<not> (i * C \<le> k \<and> k < i * C + length ?d)"
      using div_range [OF assms(2), of k i] by (auto simp: chunk_data_def)
    then show ?thesis using k False len assms(1) by (auto simp: nth_write_at agree_on_def)
  qed
  then show ?thesis using len by (simp add: agree_on_def)
qed

lemma agree_on_all:
  assumes "agree_on C {..<n} g f" "n = (length f + C - 1) div C" "0 < C"
  shows "g = f"
proof (rule nth_equalityI)
  show "length g = length f" using assms(1) by (simp add: agree_on_def)
  fix k assume "k < length g"
  then have k: "k < length f" using assms(1) by (simp add: agree_on_def)
  then have "(k + C) div C \<le> (length f + C - 1) div C" by (intro div_le_mono) simp
  moreover have "(k + C) div C = k div C + 1" using assms(3) by (simp add: div_add_self2)
  ultimately have "k div C < n" using assms(2) by simp
  with k show "g ! k = f ! k" using assms(1) by (simp add: agree_on_def)
qed

lemma verify_file_ok:
  assumes "hash_healthy H" "hash_law H" "ce_lseek E" "\<And>p. ce_read E p \<noteq> None" "\<not> fr_hash_done r"
    and "fr_fd r = Some g" "fr_hasher r = Some h" "ss_ctx h = []" "\<not> ss_finalized h" "length (fm_sha256 (fr_meta r)) = 32"
  shows "\<exists>h'. verify_file H E r = (if sha256 H g = fm_sha256 (fr_meta r) then kComplete else kHashMismatch,
     r\<lparr>fr_hasher := h', fr_hash_done := True\<rparr>)"
proof -
  obtain h1 where l: "hash_loop H (ce_read E) 16384 g 0 (Some h) = (True, h1)"
    using hash_loop_ok [of "ce_read E" H 16384 g 0 "Some h"] assms(4) by (metis prod.collapse)
  from hash_loop_Some [OF assms(1) _ assms(9) l] assms(8)
  obtain s where s: "h1 = Some s" "ss_ctx s = g" "\<not> ss_finalized s" by auto
  have d: "length (sha256 H g) = 32" using assms(2) by (simp add: hash_law_def)
  then have "sl_sha256_stream_finalize H h1 OUT = (Some (sha256 H g), Some (s\<lparr>ss_finalized := True\<rparr>))"
    using s assms(1) by (simp add: sl_sha256_stream_finalize_def hash_healthy_def)
  then show ?thesis using assms(3,5-7,10) l d by (auto simp: verify_file_def Let_def sl_ct_equal_full)
qed

lemma unpack_chunk_frame:
  assumes "announces H m f" "i < fm_total_chunks m"
  defines "d \<equiv> chunk_data f (unat (fm_chunk_size m)) (unat i)"
  shows "\<exists>fl. sl_file_chunk_unpack (Some (chunk_frame m f i)) OUT =
    Some \<lparr>fc_chunk_index = i, fc_data_len = of_nat (length d), fc_crc32c = sl_crc32c d, fc_flags = fl, fc_chunk_data = Some d\<rparr>"
proof -
  note b = chunk_bounds [OF assms(1,2), folded d_def] and z = announces_sizes [OF assms(1)]
  have len: "length d = unat (of_nat (length d) :: u32)" using b(4) z(2) by simp
  then have n: "(of_nat (length d) :: u32) \<le> 65536" "of_nat (length d) \<noteq> (0 :: u32)"
    using b(4) z(2) by (simp_all add: word_le_nat_alt) (metis b(3) len less_irrefl unat_0)
  show ?thesis
    using sl_file_chunk_unpack_eq [OF len n, of i "sl_crc32c d" _ "[]"]
    unfolding chunk_frame_def d_def [symmetric] Let_def by simp
qed

definition io_fine :: "chunk_env \<Rightarrow> bool" where
  "io_fine E \<longleftrightarrow> ce_lseek E \<and> (\<forall>p. ce_pwrite E p \<noteq> None) \<and> (\<forall>p. ce_read E p \<noteq> None)"

definition rx_result :: "FileReceiver \<Rightarrow> u32 \<Rightarrow> FileRxResult" where
  "rx_result r i =
     (if unat i \<in> rm_chunks (fr_resume r) then kDuplicate
      else if insert (unat i) (rm_chunks (fr_resume r)) = {..<unat (fm_total_chunks (fr_meta r))} then kComplete
      else kAccepted)"

lemma on_chunk_frame:
  assumes "rx_ok H f r" "i < fm_total_chunks (fr_meta r)"
  defines "d \<equiv> chunk_data f (unat (fm_chunk_size (fr_meta r))) (unat i)"
  shows "on_chunk H E (chunk_frame (fr_meta r) f i) r =
    (if unat i \<in> rm_chunks (fr_resume r) then Some (kDuplicate, r\<lparr>fr_stats := (fr_stats r)\<lparr>duplicates := duplicates (fr_stats r) + 1\<rparr>\<rparr>)
     else case pwrite_loop (ce_pwrite E) (unat i * unat (fm_chunk_size (fr_meta r))) d 0 (the (fr_fd r)) of
       (False, g) \<Rightarrow> Some (kIoError, r\<lparr>fr_fd := Some g\<rparr>)
     | (True, g) \<Rightarrow>
         (let r2 = r\<lparr>fr_fd := Some g, fr_resume := the (snd (the (sl_resume_map_set (Some (fr_resume r)) i))),
                fr_stats := (fr_stats r)\<lparr>chunks_received := chunks_received (fr_stats r) + 1,
                  bytes_received := bytes_received (fr_stats r) + ucast (of_nat (length d) :: u32)\<rparr>\<rparr>
          in Some (if sl_resume_map_complete (Some (fr_resume r2)) then verify_file H E r2 else (kAccepted, r2))))"
proof -
  from assms(1) have a: "announces H (fr_meta r) f" and rm: "rm_ok (fr_resume r)" and ms: "fr_meta_set r"
    and t: "rm_total_chunks (fr_resume r) = fm_total_chunks (fr_meta r)" by (auto simp: rx_ok_def)
  let ?m = "fr_meta r"
  note b = chunk_bounds [OF a assms(2), folded d_def] and z = announces_sizes [OF a]
  obtain fl where u: "sl_file_chunk_unpack (Some (chunk_frame ?m f i)) OUT =
    Some \<lparr>fc_chunk_index = i, fc_data_len = of_nat (length d), fc_crc32c = sl_crc32c d, fc_flags = fl, fc_chunk_data = Some d\<rparr>"
    using unpack_chunk_frame [OF a assms(2), folded d_def] by blast
  have len: "unat (of_nat (length d) :: u32) = length d" using b(4) z(2) by simp
  have n: "(of_nat (length d) > fm_chunk_size ?m) = False" "(fm_total_chunks ?m \<le> i) = False" "(0 < (of_nat (length d) :: u32)) = True"
    using len b(3,4) assms(2) by (simp_all add: word_less_nat_alt not_le)
  have e: "(i + 1 < fm_total_chunks ?m \<and> of_nat (length d) \<noteq> fm_chunk_size ?m) = False"
    using len b(5) by (auto simp: word_unat_eq_iff)
  have crc: "sl_file_chunk_crc_ok (Some \<lparr>fc_chunk_index = i, fc_data_len = of_nat (length d), fc_crc32c = sl_crc32c d, fc_flags = fl, fc_chunk_data = Some d\<rparr>) = True"
    using len n(3) by (auto simp: sl_file_chunk_crc_ok_def)
  have h: "sl_resume_map_has (Some (fr_resume r)) i = Some (unat i \<in> rm_chunks (fr_resume r))"
    by (rule sl_resume_map_has_eq [OF rm_ok_sized [OF rm]])
  obtain rm' where s: "sl_resume_map_set (Some (fr_resume r)) i = Some (0, Some rm')"
    using sl_resume_map_set_ok [OF rm, of i] assms(2) t by auto
  obtain ok g where w: "pwrite_loop (ce_pwrite E) (unat i * unat (fm_chunk_size ?m)) d 0 (the (fr_fd r)) = (ok, g)" by fastforce
  show ?thesis
    unfolding on_chunk_def u option.case Let_def sl_file_chunk_t.simps n e crc h b(2)
    using ms w s by (cases ok) simp_all
qed

lemma on_chunk_fresh:
  assumes "rx_ok H f r" "\<And>p. ce_pwrite E p \<noteq> None" "i < fm_total_chunks (fr_meta r)"
    "unat i \<notin> rm_chunks (fr_resume r)"
  obtains r2 where "on_chunk H E (chunk_frame (fr_meta r) f i) r =
      Some (if sl_resume_map_complete (Some (fr_resume r2)) then verify_file H E r2 else (kAccepted, r2))"
    "rm_ok (fr_resume r2)" "rm_chunks (fr_resume r2) = insert (unat i) (rm_chunks (fr_resume r))"
    "rm_total_chunks (fr_resume r2) = fm_total_chunks (fr_meta r)" "fr_meta r2 = fr_meta r" "fr_meta_set r2"
    "fr_hash_done r2 = fr_hash_done r" "fr_hasher r2 = fr_hasher r"
    "\<exists>g. fr_fd r2 = Some g \<and> agree_on (unat (fm_chunk_size (fr_meta r))) (rm_chunks (fr_resume r2)) g f"
proof -
  from assms(1) obtain g where a: "announces H (fr_meta r) f" and rm: "rm_ok (fr_resume r)"
    and t: "rm_total_chunks (fr_resume r) = fm_total_chunks (fr_meta r)" and ms: "fr_meta_set r"
    and g: "fr_fd r = Some g" "agree_on (unat (fm_chunk_size (fr_meta r))) (rm_chunks (fr_resume r)) g f"
    by (auto simp: rx_ok_def)
  let ?C = "unat (fm_chunk_size (fr_meta r))"
  define d where "d = chunk_data f ?C (unat i)"
  note b = chunk_bounds [OF a assms(3), folded d_def] and z = announces_sizes [OF a]
  have w: "pwrite_loop (ce_pwrite E) (unat i * ?C) d 0 g = (True, write_at (unat i * ?C) d g)"
    using pwrite_loop_ok [of "ce_pwrite E" "unat i * ?C" d g 0] assms(2) b(6) g(2) by (simp add: agree_on_def)
  obtain rm' where s: "sl_resume_map_set (Some (fr_resume r)) i = Some (0, Some rm')" "rm_ok rm'"
    "rm_total_chunks rm' = rm_total_chunks (fr_resume r)" "rm_chunks rm' = insert (unat i) (rm_chunks (fr_resume r))"
    using sl_resume_map_set_ok [OF rm, of i] assms(3) t by auto
  define r2 where "r2 = r\<lparr>fr_fd := Some (write_at (unat i * ?C) d g), fr_resume := rm',
    fr_stats := (fr_stats r)\<lparr>chunks_received := chunks_received (fr_stats r) + 1,
      bytes_received := bytes_received (fr_stats r) + ucast (of_nat (length d) :: u32)\<rparr>\<rparr>"
  have "on_chunk H E (chunk_frame (fr_meta r) f i) r =
      Some (if sl_resume_map_complete (Some (fr_resume r2)) then verify_file H E r2 else (kAccepted, r2))"
    using on_chunk_frame [OF assms(1,3), of E, folded d_def] w s(1) g(1) assms(4) by (simp add: Let_def r2_def)
  moreover have "agree_on ?C (rm_chunks (fr_resume r2)) (write_at (unat i * ?C) d g) f"
    using agree_on_write [OF g(2), of "unat i"] z(1) b(1) s(4) by (simp add: d_def r2_def)
  ultimately show ?thesis using s ms t by (intro that [of r2]) (simp_all add: r2_def)
qed

text \<open>A genuine chunk is written, and the last one completes the file.\<close>

lemma on_chunk_genuine:
  assumes "rx_ok H f r" "hash_healthy H" "hash_law H" "io_fine E" "i < fm_total_chunks (fr_meta r)"
  obtains r' where "on_chunk H E (chunk_frame (fr_meta r) f i) r = Some (rx_result r i, r')" "rx_ok H f r'"
    "fr_meta r' = fr_meta r" "rm_chunks (fr_resume r') = insert (unat i) (rm_chunks (fr_resume r))"
proof (cases "unat i \<in> rm_chunks (fr_resume r)")
  case True
  define r' where "r' = r\<lparr>fr_stats := (fr_stats r)\<lparr>duplicates := duplicates (fr_stats r) + 1\<rparr>\<rparr>"
  have "rx_ok H f r'" using assms(1) by (simp add: rx_ok_def r'_def)
  then show ?thesis
    using True on_chunk_frame [OF assms(1,5), of E] by (intro that [of r']) (auto simp: r'_def rx_result_def)
next
  case False
  have pw: "ce_pwrite E p \<noteq> None" and rd: "ce_read E p \<noteq> None" and ls: "ce_lseek E" for p
    using assms(4) by (simp_all add: io_fine_def)
  from on_chunk_fresh [of H f r E i, OF assms(1) pw assms(5) False]
  obtain r2 g where o: "on_chunk H E (chunk_frame (fr_meta r) f i) r =
      Some (if sl_resume_map_complete (Some (fr_resume r2)) then verify_file H E r2 else (kAccepted, r2))"
    and r2: "rm_ok (fr_resume r2)" "rm_chunks (fr_resume r2) = insert (unat i) (rm_chunks (fr_resume r))"
      "rm_total_chunks (fr_resume r2) = fm_total_chunks (fr_meta r)" "fr_meta r2 = fr_meta r" "fr_meta_set r2"
      "fr_hash_done r2 = fr_hash_done r" "fr_hasher r2 = fr_hasher r"
    and g: "fr_fd r2 = Some g" "agree_on (unat (fm_chunk_size (fr_meta r))) (rm_chunks (fr_resume r2)) g f"
    by blast
  have a: "announces H (fr_meta r) f" using assms(1) by (simp add: rx_ok_def)
  have ne: "f \<noteq> []" using chunk_bounds(1) [OF a assms(5)] by auto
  have nd: "\<not> fr_hash_done r" "\<exists>h. fr_hasher r = Some h \<and> ss_ctx h = [] \<and> \<not> ss_finalized h"
    using assms(1,5) False by (auto simp: rx_ok_def word_less_nat_alt)
  have c: "sl_resume_map_complete (Some (fr_resume r2)) \<longleftrightarrow> rm_chunks (fr_resume r2) = {..<unat (fm_total_chunks (fr_meta r))}"
    using sl_resume_map_complete_iff [OF r2(1)] r2(3) by simp
  show ?thesis
  proof (cases "sl_resume_map_complete (Some (fr_resume r2))")
    case True
    with g(2) c have gf: "g = f" using agree_on_all announces_sizes(1,4) [OF a] by fastforce
    have sh: "fm_sha256 (fr_meta r2) = sha256 H f" "length (fm_sha256 (fr_meta r2)) = 32"
      using a r2(4) assms(3) by (simp_all add: announces_def hash_law_def)
    obtain h where h: "fr_hasher r2 = Some h" "ss_ctx h = []" "\<not> ss_finalized h" using nd(2) r2(7) by auto
    from verify_file_ok [OF assms(2,3) ls rd _ g(1) h sh(2)] nd(1) r2(6) sh(1) gf
    obtain h' where v: "verify_file H E r2 = (kComplete, r2\<lparr>fr_hasher := h', fr_hash_done := True\<rparr>)" by auto
    define r3 where "r3 = r2\<lparr>fr_hasher := h', fr_hash_done := True\<rparr>"
    have ok: "rx_ok H f r3" using r2(1,3,4,5) g a ne True [unfolded c] by (simp add: rx_ok_def r3_def)
    have "rx_result r i = kComplete" using False True [unfolded c r2(2)] by (simp add: rx_result_def)
    with o v True have "on_chunk H E (chunk_frame (fr_meta r) f i) r = Some (rx_result r i, r3)" by (simp add: r3_def)
    from that [OF this ok] show ?thesis using r2(2,4) by (simp add: r3_def)
  next
    case ncomp: False
    have ok: "rx_ok H f r2" using r2(1,3-7) g a nd ncomp [unfolded c] by (simp add: rx_ok_def)
    have "rx_result r i = kAccepted" using False ncomp [unfolded c r2(2)] by (simp add: rx_result_def)
    with o ncomp have "on_chunk H E (chunk_frame (fr_meta r) f i) r = Some (rx_result r i, r2)" by simp
    from that [OF this ok] show ?thesis using r2(2,4) by simp
  qed
qed

subsection \<open>A whole transfer\<close>

definition me_fine :: meta_env where
  "me_fine = \<lparr>me_calloc_map = True, me_calloc_hash = True, me_open = True, me_ftruncate = True\<rparr>"

lemma safe_name_c_string:
  assumes "safe_name (fm_file_name m)" "fm_name m ! unat (fm_name_len m) = 0" "length (fm_name m) = 257" "unat (fm_name_len m) \<le> 256"
  shows "c_string (fm_name m) = fm_file_name m"
proof -
  let ?n = "unat (fm_name_len m)"
  have "fm_name m = fm_file_name m @ 0 # drop (Suc ?n) (fm_name m)"
    using assms(2-4) id_take_nth_drop [of ?n "fm_name m"] by (simp add: fm_file_name_def)
  moreover have "0 \<notin> set (fm_file_name m)"
    using assms(1) by (auto simp: safe_name_def list_all_iff name_char_def)
  ultimately show ?thesis using c_string_prefix by metis
qed

lemma on_meta_accepted:
  assumes "on_meta H E w (fr_new dir) = (kAccepted, r)" "unat (fm_total_chunks (fr_meta r)) + 7 < 2 ^ 32"
  shows "fr_meta_set r" "rm_ok (fr_resume r)" "rm_total_chunks (fr_resume r) = fm_total_chunks (fr_meta r)"
    "rm_chunks (fr_resume r) = {}" "\<not> fr_hash_done r" "\<exists>h. fr_hasher r = Some h \<and> ss_ctx h = [] \<and> \<not> ss_finalized h"
    "fr_fd r = Some (replicate (unat (fm_total_size (fr_meta r))) 0)"
    "sl_file_meta_unpack (Some w) (Some file_meta_zero) = (0, Some (fr_meta r))"
    "fr_dest_path r = dir @ [47] @ c_string (fm_name (fr_meta r))"
proof -
  obtain rc m where u: "sl_file_meta_unpack (Some w) (Some file_meta_zero) = (rc, m)" by fastforce
  define m' where "m' = the m"
  obtain rc2 rm where i: "sl_resume_map_init (me_calloc_map E) (Some (fr_resume (fr_new dir))) (fm_total_chunks m') = (rc2, rm)" by fastforce
  define h where "h = sl_sha256_stream_new H (me_calloc_hash E)"
  define r3 where "r3 = (fr_new dir)\<lparr>fr_meta := m', fr_resume := the rm, fr_hasher := h\<rparr>"
  have n: "fr_meta_set (fr_new dir) = False" "fr_meta (fr_new dir) = file_meta_zero" by (simp_all add: fr_new_def)
  have a: "(if rc \<noteq> 0 then (kBadMeta, (fr_new dir)\<lparr>fr_meta := m'\<rparr>)
     else if rc2 \<noteq> 0 then (kIoError, (fr_new dir)\<lparr>fr_meta := m', fr_resume := the rm\<rparr>)
     else if h = NULL then (kIoError, r3)
     else case open_dest_file (me_open E) (me_ftruncate E) r3 of (False, r4) \<Rightarrow> (kIoError, r4)
       | (True, r4) \<Rightarrow> (kAccepted, r4\<lparr>fr_meta_set := True\<rparr>)) = (kAccepted, r)"
    unfolding assms(1) [symmetric]
    by (cases "rc = 0"; cases "rc2 = 0"; cases "h = NULL") (auto simp: on_meta_def n u m'_def [symmetric] i h_def r3_def Let_def)
  then have rc: "rc = 0" "rc2 = 0" "h \<noteq> NULL" by (auto split: if_splits)
  then have o: "\<exists>r4. open_dest_file (me_open E) (me_ftruncate E) r3 = (True, r4) \<and> r = r4\<lparr>fr_meta_set := True\<rparr>"
    using a by (auto simp: r3_def split: prod.splits bool.splits)
  have m: "fr_meta r = m'" "fr_resume r = the rm" "fr_hasher r = h" "fr_meta_set r" "\<not> fr_hash_done r"
    "fr_fd r = Some (replicate (unat (fm_total_size m')) 0)" "fr_dest_path r = dir @ [47] @ c_string (fm_name m')"
    using o by (auto simp: open_dest_file_def Let_def r3_def fr_new_def word_gt_0 split: if_splits)
  have init: "sl_resume_map_init True (Some (fr_resume (fr_new dir))) (fm_total_chunks m') = (rc2, rm)"
    using i rc(2) by (auto simp: sl_resume_map_init_def Let_def split: if_splits)
  obtain q where "rm = Some q" "rm_ok q" "rm_total_chunks q = fm_total_chunks m'" "rm_chunks q = {}"
    using sl_resume_map_init_ok [OF _ init] assms(2) m(1) by metis
  then show "rm_ok (fr_resume r)" "rm_total_chunks (fr_resume r) = fm_total_chunks (fr_meta r)" "rm_chunks (fr_resume r) = {}"
    using m by simp_all
  show "\<exists>h. fr_hasher r = Some h \<and> ss_ctx h = [] \<and> \<not> ss_finalized h"
    using m(3) rc(3) by (auto simp: h_def sl_sha256_stream_new_def split: if_splits)
  have "m \<noteq> None" using u by (auto simp: sl_file_meta_unpack_def Let_def split: if_splits)
  then show "sl_file_meta_unpack (Some w) (Some file_meta_zero) = (0, Some (fr_meta r))" using u rc(1) m(1) by (auto simp: m'_def)
  show "fr_meta_set r" "\<not> fr_hash_done r" "fr_fd r = Some (replicate (unat (fm_total_size (fr_meta r))) 0)"
    "fr_dest_path r = dir @ [47] @ c_string (fm_name (fr_meta r))"
    using m by simp_all
qed

text \<open>The frames the sender emits when it is asked for these chunks, delivered in that order.\<close>

fun transfer ::
  "hash_api \<Rightarrow> io_answers \<Rightarrow> (u32 \<times> chunk_env) list \<Rightarrow> FileSender \<Rightarrow> FileReceiver \<Rightarrow> (FileRxResult list \<times> FileReceiver) option" where
  "transfer H ans [] s r = Some ([], r)"
| "transfer H ans ((j, E) # js) s r =
     (case send_next_chunk None True ans (\<lambda>_. True) (snd (seek_chunk j s)) of
        (_, None, _) \<Rightarrow> None
      | (_, Some w, s1) \<Rightarrow>
          (case on_chunk H E w r of
             None \<Rightarrow> None
           | Some (res, r1) \<Rightarrow> map_option (\<lambda>(rs, r2). (res # rs, r2)) (transfer H ans js s1 r1)))"

lemma send_at:
  assumes "sender_of H f s" "whole_reads ans" "j < fm_total_chunks (fs_meta s)"
  obtains s1 where "send_next_chunk None True ans (\<lambda>_. True) (snd (seek_chunk j s)) = (True, Some (chunk_frame (fs_meta s) f j), s1)"
    "sender_of H f s1" "fs_meta s1 = fs_meta s"
proof -
  let ?s = "s\<lparr>fs_next_idx := j\<rparr>"
  have k: "snd (seek_chunk j s) = ?s" using assms(3) by (auto simp: seek_chunk_def)
  have "sender_of H f ?s" "has_more ?s" using assms by (simp_all add: sender_of_def has_more_def)
  from send_next_chunk_frame [OF this(1) assms(2) this(2), of "\<lambda>_. True" None] show ?thesis
    using that unfolding k by auto
qed

text \<open>\<open>kComplete\<close> is reported once, when the last missing chunk arrives.\<close>

lemma transfer_ok:
  assumes "sender_of H f s" "whole_reads ans" "hash_healthy H" "hash_law H"
    and "rx_ok H f r" "fm_chunk_size (fr_meta r) = fm_chunk_size (fs_meta s)" "fm_total_chunks (fr_meta r) = fm_total_chunks (fs_meta s)"
    and "\<forall>(j, E) \<in> set js. j < fm_total_chunks (fs_meta s) \<and> io_fine E"
  shows "\<exists>rs r'. transfer H ans js s r = Some (rs, r') \<and> rx_ok H f r' \<and> fr_meta r' = fr_meta r
    \<and> rm_chunks (fr_resume r') = rm_chunks (fr_resume r) \<union> unat ` fst ` set js
    \<and> set rs \<subseteq> {kAccepted, kDuplicate, kComplete}
    \<and> count_list rs kComplete = (if fr_hash_done r' \<and> \<not> fr_hash_done r then 1 else 0)"
  using assms(1,5-8)
proof (induction js arbitrary: s r)
  case (Cons x js)
  obtain j E where x: "x = (j, E)" by fastforce
  from Cons.prems(5) have j: "j < fm_total_chunks (fs_meta s)" and E: "io_fine E" by (auto simp: x)
  obtain s1 where s1: "send_next_chunk None True ans (\<lambda>_. True) (snd (seek_chunk j s)) = (True, Some (chunk_frame (fs_meta s) f j), s1)"
    "sender_of H f s1" "fs_meta s1 = fs_meta s" using send_at [OF Cons.prems(1) assms(2) j] .
  have fr: "chunk_frame (fs_meta s) f j = chunk_frame (fr_meta r) f j" using Cons.prems(3,4) by (simp add: chunk_frame_def)
  obtain r1 where r1: "on_chunk H E (chunk_frame (fr_meta r) f j) r = Some (rx_result r j, r1)" "rx_ok H f r1"
    "fr_meta r1 = fr_meta r" "rm_chunks (fr_resume r1) = insert (unat j) (rm_chunks (fr_resume r))"
    using on_chunk_genuine [OF Cons.prems(2) assms(3,4) E, of j] j Cons.prems(4) by metis
  obtain rs r' where t: "transfer H ans js s1 r1 = Some (rs, r')" "rx_ok H f r'" "fr_meta r' = fr_meta r1"
    "rm_chunks (fr_resume r') = rm_chunks (fr_resume r1) \<union> unat ` fst ` set js"
    "set rs \<subseteq> {kAccepted, kDuplicate, kComplete}"
    "count_list rs kComplete = (if fr_hash_done r' \<and> \<not> fr_hash_done r1 then 1 else 0)"
    using Cons.IH [OF s1(2) r1(2)] Cons.prems(3-5) s1(3) r1(3) by auto
  have ne: "f \<noteq> []"
    using chunk_bounds(1) [of H "fr_meta r" f j] Cons.prems(2,4) j by (auto simp: rx_ok_def)
  have hd: "fr_hash_done q \<longleftrightarrow> rm_chunks (fr_resume q) = {..<unat (fm_total_chunks (fr_meta q))}" if "rx_ok H f q" for q
    using that ne by (simp add: rx_ok_def)
  have sub: "rm_chunks (fr_resume q) \<subseteq> {..<unat (fm_total_chunks (fr_meta q))}" if "rx_ok H f q" for q
    using that by (auto simp: rx_ok_def rm_chunks_def)
  define A U X where "A = rm_chunks (fr_resume r)" and "U = {..<unat (fm_total_chunks (fr_meta r))}" and "X = unat ` fst ` set js"
  have h: "fr_hash_done r \<longleftrightarrow> A = U" "fr_hash_done r1 \<longleftrightarrow> insert (unat j) A = U"
    "fr_hash_done r' \<longleftrightarrow> insert (unat j) A \<union> X = U" "insert (unat j) A \<union> X \<subseteq> U"
    using hd [OF Cons.prems(2)] hd [OF r1(2)] hd [OF t(2)] sub [OF t(2)] unfolding r1(3,4) t(3,4) A_def U_def X_def by simp_all
  have res: "rx_result r j = kComplete \<longleftrightarrow> unat j \<notin> A \<and> insert (unat j) A = U" by (simp add: rx_result_def A_def U_def)
  have dn: "rx_result r j = kComplete \<longleftrightarrow> fr_hash_done r1 \<and> \<not> fr_hash_done r" "fr_hash_done r \<longrightarrow> fr_hash_done r1"
    "fr_hash_done r1 \<longrightarrow> fr_hash_done r'"
    unfolding h(1-3) res using h(4) by (cases "unat j \<in> A"; auto simp: insert_absorb)+
  have "transfer H ans (x # js) s r = Some (rx_result r j # rs, r')" using s1(1) r1(1) t(1) fr by (simp add: x)
  moreover have "count_list (rx_result r j # rs) kComplete = (if fr_hash_done r' \<and> \<not> fr_hash_done r then 1 else 0)"
    using t(6) dn by (cases "fr_hash_done r"; cases "fr_hash_done r1"; cases "fr_hash_done r'") simp_all
  moreover have "rx_result r j \<in> {kAccepted, kDuplicate, kComplete}" by (simp add: rx_result_def)
  moreover have "rm_chunks (fr_resume r') = rm_chunks (fr_resume r) \<union> unat ` fst ` set (x # js)" using t(4) r1(4) by (simp add: x)
  moreover have "fr_meta r' = fr_meta r" using t(3) r1(3) by simp
  ultimately show ?case using t(2,5) by (metis insert_subset list.set(2))
qed simp

lemma on_meta_ok:
  assumes "sl_file_meta_unpack (Some w) (Some file_meta_zero) = (0, Some m)" "hash_healthy H"
  shows "\<exists>r. on_meta H me_fine w (fr_new dir) = (kAccepted, r) \<and> fr_meta r = m"
proof -
  obtain h where h: "sl_sha256_stream_new H True = Some h" using assms(2) by (simp add: sl_sha256_stream_new_def hash_healthy_def)
  have "\<not> fr_meta_set (fr_new dir)" "fr_meta (fr_new dir) = file_meta_zero" by (simp_all add: fr_new_def)
  then show ?thesis
    using assms(1) h
    by (simp add: on_meta_def me_fine_def sl_resume_map_init_def open_dest_file_def Let_def)
qed

lemma on_meta_rx_ok:
  assumes "on_meta H E w (fr_new dir) = (kAccepted, r)" "announces H (fr_meta r) f"
  shows "rx_ok H f r"
proof -
  note a = on_meta_accepted [OF assms(1) announces_sizes(5) [OF assms(2)]]
  have "unat (fm_total_size (fr_meta r)) = length f" using assms(2) by (simp add: announces_def)
  moreover have "f \<noteq> [] \<longrightarrow> {..<unat (fm_total_chunks (fr_meta r))} \<noteq> {}"
    using announces_sizes(1,4) [OF assms(2)] by (cases f) (auto simp: lessThan_empty_iff div_greater_zero_iff)
  ultimately show ?thesis using a(1-7) assms(2) by (auto simp: rx_ok_def agree_on_def)
qed

lemma announces_received:
  assumes "announces H m f" "sl_file_meta_pack (Some m) out = Some w"
  shows "\<exists>r. sl_file_meta_unpack (Some w) (Some m0) = (0, Some r) \<and> announces H r f \<and> fm_file_name r = fm_file_name m
    \<and> fm_chunk_size r = fm_chunk_size m \<and> fm_total_chunks r = fm_total_chunks m \<and> c_string (fm_name r) = fm_file_name m"
proof -
  from assms(1) have ok: "meta_ok m" by (simp add: announces_def)
  from sl_file_meta_pack_unpack [OF ok assms(2), of "[]" m0]
  obtain b where u: "sl_file_meta_unpack (Some w) (Some m0) = (0, Some (m\<lparr>fm_name := b\<rparr>))"
    and b: "length b = 257" "take (unat (fm_name_len m)) b = fm_file_name m" by auto
  define r where "r = m\<lparr>fm_name := b\<rparr>"
  have nm: "fm_file_name r = fm_file_name m" using b(2) by (simp add: r_def fm_file_name_def)
  have v: "sl_file_meta_validate (Some r) = sl_file_meta_validate (Some m)"
    using sl_file_meta_validate_name [OF _ _ nm r_def] ok b(1) by (simp add: meta_ok_def r_def)
  have a: "announces H r f" using assms(1) v b(1) by (auto simp: announces_def meta_ok_def r_def)
  have "unat (fm_name_len r) \<le> 256" using meta_unpack_shape(3) [OF u] by (simp add: r_def)
  moreover have "fm_name r ! unat (fm_name_len r) = 0"
    using sl_file_meta_unpack_safe(1) [OF u] by (simp add: r_def)
  ultimately have "c_string (fm_name r) = fm_file_name r"
    using safe_name_c_string [of r] announces_sizes(3) [OF a] b(1) by (simp add: r_def)
  with u a nm show ?thesis by (auto simp: r_def)
qed

lemma fs_open_send_meta:
  assumes "announces H (fs_meta s) f"
  shows "\<exists>w. send_meta send s = (send w, Some w) \<and> (\<exists>out. sl_file_meta_pack (Some (fs_meta s)) out = Some w)"
proof -
  let ?out = "Some (82 + unat (fm_name_len (fs_meta s)))"
  obtain w where "sl_file_meta_pack (Some (fs_meta s)) ?out = Some w"
    using assms by (simp add: sl_file_meta_pack_def announces_def)
  then show ?thesis by (auto simp: send_meta_def)
qed


definition example_open :: open_env where
  "example_open = \<lparr>oe_content = Some (replicate 1500 7), oe_stat = Some \<lparr>st_size = 1500, st_mode = 0, st_mtime = 0\<rparr>,
     oe_calloc = True, oe_lseek_start = True, oe_read = (\<lambda>_. Some 65536), oe_lseek_end = True\<rparr>"

definition example_io :: chunk_env where
  "example_io = \<lparr>ce_pwrite = (\<lambda>_. Some 100), ce_lseek = True, ce_read = (\<lambda>_. Some 0)\<rparr>"

lemma example_opens: "\<exists>s. fs_open toy_hash example_open (fs_new [] [97] 1024) = (True, s) \<and> fm_total_chunks (fs_meta s) = 2"
proof -
  define h0 where "h0 = \<lparr>ss_ctx = [], ss_bytes = 0, ss_finalized = False\<rparr>"
  define h1 where "h1 = snd (hash_loop toy_hash (\<lambda>_. Some 65536) 1024 (replicate 1500 7) 0 (Some h0))"
  have n: "sl_sha256_stream_new toy_hash True = Some h0"
    using toy_hash_law by (simp add: sl_sha256_stream_new_def hash_healthy_def h0_def)
  have l: "hash_loop toy_hash (\<lambda>_. Some 65536) 1024 (replicate 1500 7) 0 (Some h0) = (True, h1)"
    using hash_loop_ok [of "\<lambda>_. Some 65536" toy_hash 1024 "replicate 1500 7" 0 "Some h0"] by (simp add: h1_def prod_eq_iff)
  show ?thesis
    using n l by (simp add: fs_open_def compute_meta_def fs_new_def example_open_def meta_of_stat_def file_meta_zero_def
      sl_file_meta_validate_def Let_def write_at_def)
qed


subsection \<open>What the receiver vouches for\<close>

definition rx_safe :: "FileReceiver \<Rightarrow> bool" where
  "rx_safe r \<longleftrightarrow> fr_meta_set r \<and> rm_ok (fr_resume r) \<and> rm_total_chunks (fr_resume r) = fm_total_chunks (fr_meta r)
     \<and> length (fm_sha256 (fr_meta r)) = 32
     \<and> (\<not> sl_resume_map_complete (Some (fr_resume r)) \<longrightarrow>
          \<not> fr_hash_done r \<and> (\<exists>h. fr_hasher r = Some h \<and> ss_ctx h = [] \<and> \<not> ss_finalized h))"

lemma verify_file_sound:
  assumes "hash_healthy H" "hash_law H" "verify_file H E r = (res, r')" "\<not> fr_hash_done r"
    and "fr_hasher r = Some h" "ss_ctx h = []" "\<not> ss_finalized h" "length (fm_sha256 (fr_meta r)) = 32"
  shows "\<exists>h' d. r' = r\<lparr>fr_hasher := h', fr_hash_done := d\<rparr>" "res = kComplete \<Longrightarrow> sha256 H (the (fr_fd r)) = fm_sha256 (fr_meta r)"
proof -
  obtain ok h1 where l: "hash_loop H (ce_read E) 16384 (the (fr_fd r)) 0 (Some h) = (ok, h1)" by fastforce
  have d: "length (sha256 H x) = 32" for x using assms(2) by (simp add: hash_law_def)
  have "(\<exists>h' d. r' = r\<lparr>fr_hasher := h', fr_hash_done := d\<rparr>) \<and> (res = kComplete \<longrightarrow> sha256 H (the (fr_fd r)) = fm_sha256 (fr_meta r))"
  proof (cases "ce_lseek E \<and> ok")
    case True
    with l have l: "hash_loop H (ce_read E) 16384 (the (fr_fd r)) 0 (Some h) = (True, h1)" by simp
    from hash_loop_Some [OF assms(1) _ assms(7) l] assms(6)
    obtain s where s: "h1 = Some s" "ss_ctx s = the (fr_fd r)" "\<not> ss_finalized s" by auto
    then have "sl_sha256_stream_finalize H h1 OUT = (Some (sha256 H (the (fr_fd r))), Some (s\<lparr>ss_finalized := True\<rparr>))"
      using assms(1) d by (simp add: sl_sha256_stream_finalize_def hash_healthy_def)
    then show ?thesis
      using assms(3,4,5,8) True l d by (auto simp: verify_file_def Let_def sl_ct_equal_full split: if_splits)
  next
    case False
    with assms(3,4,5) l have "r' = r\<lparr>fr_hasher := (if ce_lseek E then h1 else Some h), fr_hash_done := False\<rparr>" "res = kIoError"
      by (cases r; auto simp: verify_file_def split: if_splits)+
    then show ?thesis by blast
  qed
  then show "\<exists>h' d. r' = r\<lparr>fr_hasher := h', fr_hash_done := d\<rparr>" "res = kComplete \<Longrightarrow> sha256 H (the (fr_fd r)) = fm_sha256 (fr_meta r)"
    by blast+
qed

lemma on_chunk_cases:
  assumes "rx_safe r" "on_chunk H E w r = Some (res, r')"
  obtains (same) st where "r' = r\<lparr>fr_stats := st\<rparr>" "res \<noteq> kComplete"
  | (io) g where "r' = r\<lparr>fr_fd := Some g\<rparr>" "res = kIoError"
  | (wrote) g rm st i where "\<not> sl_resume_map_complete (Some (fr_resume r))" "rm_ok rm" "rm_total_chunks rm = rm_total_chunks (fr_resume r)"
      "rm_chunks rm = insert (unat (i :: u32)) (rm_chunks (fr_resume r))"
      "(res, r') = (let r2 = r\<lparr>fr_fd := Some g, fr_resume := rm, fr_stats := st\<rparr>
         in if sl_resume_map_complete (Some rm) then verify_file H E r2 else (kAccepted, r2))"
proof -
  have ms: "fr_meta_set r" and rm: "rm_ok (fr_resume r)" and t: "rm_total_chunks (fr_resume r) = fm_total_chunks (fr_meta r)"
    using assms(1) by (simp_all add: rx_safe_def)
  have bad: ?thesis if "(res, r') = bad_chunk r" using that by (intro same) (simp_all add: bad_chunk_def)
  show ?thesis
  proof (cases "sl_file_chunk_unpack (Some w) OUT")
    case None
    with assms(2) ms bad show ?thesis by (simp add: on_chunk_def)
  next
    case (Some c)
    let ?m = "fr_meta r" and ?i = "fc_chunk_index c" and ?n = "fc_data_len c"
    show ?thesis
    proof (cases "?i \<ge> fm_total_chunks ?m \<or> ?n > fm_chunk_size ?m \<or> (?i + 1 < fm_total_chunks ?m \<and> ?n \<noteq> fm_chunk_size ?m)
        \<or> \<not> sl_file_chunk_crc_ok (Some c)")
      case True
      with assms(2) ms Some bad show ?thesis by (auto simp: on_chunk_def Let_def split: if_splits)
    next
      case False
      then have ok: "(?i \<ge> fm_total_chunks ?m) = False" "(?n > fm_chunk_size ?m) = False"
        "(?i + 1 < fm_total_chunks ?m \<and> ?n \<noteq> fm_chunk_size ?m) = False" "sl_file_chunk_crc_ok (Some c) = True" by auto
      have h: "sl_resume_map_has (Some (fr_resume r)) ?i = Some (unat ?i \<in> rm_chunks (fr_resume r))"
        by (rule sl_resume_map_has_eq [OF rm_ok_sized [OF rm]])
      have lt: "?i < fm_total_chunks ?m" using ok(1) by (simp add: not_le)
      obtain rm' where s: "sl_resume_map_set (Some (fr_resume r)) ?i = Some (0, Some rm')" "rm_ok rm'"
        "rm_total_chunks rm' = rm_total_chunks (fr_resume r)" "rm_chunks rm' = insert (unat ?i) (rm_chunks (fr_resume r))"
        using sl_resume_map_set_ok [OF rm, of ?i] lt t by auto
      obtain okw g where w: "(if ?n > 0 then pwrite_loop (ce_pwrite E) (unat (ucast ?i * ucast (fm_chunk_size ?m) :: u64)) (the (fc_chunk_data c)) 0 (the (fr_fd r))
          else (True, the (fr_fd r))) = (okw, g)" by fastforce
      have e: "on_chunk H E w r = (if unat ?i \<in> rm_chunks (fr_resume r)
          then Some (kDuplicate, r\<lparr>fr_stats := (fr_stats r)\<lparr>duplicates := duplicates (fr_stats r) + 1\<rparr>\<rparr>)
          else if \<not> okw then Some (kIoError, r\<lparr>fr_fd := Some g\<rparr>)
          else let r2 = r\<lparr>fr_fd := Some g, fr_resume := rm', fr_stats := (fr_stats r)\<lparr>chunks_received := chunks_received (fr_stats r) + 1,
                  bytes_received := bytes_received (fr_stats r) + ucast ?n\<rparr>\<rparr>
            in Some (if sl_resume_map_complete (Some rm') then verify_file H E r2 else (kAccepted, r2)))"
        unfolding on_chunk_def Some option.case Let_def ok h w prod.case using ms s(1) by simp
      show ?thesis
      proof (cases "unat ?i \<in> rm_chunks (fr_resume r)")
        case True
        then show ?thesis using e assms(2) by (intro same) simp_all
      next
        case out: False
        show ?thesis
        proof (cases okw)
          case True
          have "\<not> sl_resume_map_complete (Some (fr_resume r))"
            using sl_resume_map_complete_iff [OF rm] out lt t by (auto simp: word_less_nat_alt)
          from wrote [OF this s(2-4)] show ?thesis using e assms(2) out True by (simp add: Let_def)
        next
          case False
          then show ?thesis using e assms(2) out by (intro io) simp_all
        qed
      qed
    qed
  qed
qed

lemma verify_file_done: "verify_file H E r = (kComplete, r') \<Longrightarrow> fr_hash_done r'"
  by (auto simp: verify_file_def Let_def split: if_splits prod.splits bool.splits option.splits)

lemma on_chunk_safe:
  assumes "rx_safe r" "hash_healthy H" "hash_law H" "on_chunk H E w r = Some (res, r')"
  shows "rx_safe r' \<and> fr_meta r' = fr_meta r \<and> fr_dest_path r' = fr_dest_path r
    \<and> (res = kComplete \<longrightarrow> fr_is_complete r' \<and> sha256 H (the (fr_fd r')) = fm_sha256 (fr_meta r))"
proof (cases rule: on_chunk_cases [OF assms(1,4), case_names same io wrote])
  case (wrote g rm st i)
  define r2 where "r2 = r\<lparr>fr_fd := Some g, fr_resume := rm, fr_stats := st\<rparr>"
  from assms(1) wrote(1) obtain h where h: "fr_hasher r2 = Some h" "ss_ctx h = []" "\<not> ss_finalized h" and nd: "\<not> fr_hash_done r2"
    and sh: "length (fm_sha256 (fr_meta r2)) = 32" by (auto simp: rx_safe_def r2_def)
  show ?thesis
  proof (cases "sl_resume_map_complete (Some rm)")
    case True
    then have v: "verify_file H E r2 = (res, r')" using wrote(5) by (simp add: r2_def Let_def)
    note s = verify_file_sound [OF assms(2,3) v nd h sh]
    from s(1) obtain h' d where r': "r' = r2\<lparr>fr_hasher := h', fr_hash_done := d\<rparr>" by blast
    have "rx_safe r'" using assms(1) wrote True by (simp add: rx_safe_def r' r2_def)
    moreover have "d" if "res = kComplete"
      using verify_file_done [of H E r2 r'] v that r' by simp
    ultimately show ?thesis using s(2) True assms(1) by (auto simp: r' r2_def fr_is_complete_def rx_safe_def)
  next
    case False
    then have "r' = r2" "res = kAccepted" using wrote(5) by (simp_all add: r2_def Let_def)
    then show ?thesis using assms(1) wrote(1-4) by (auto simp: rx_safe_def r2_def)
  qed
qed (use assms(1) in \<open>auto simp: rx_safe_def\<close>)

fun rx_run :: "hash_api \<Rightarrow> (bytes \<times> chunk_env) list \<Rightarrow> FileReceiver \<Rightarrow> FileReceiver option" where
  "rx_run H [] r = Some r"
| "rx_run H ((w, E) # ws) r = (case on_chunk H E w r of None \<Rightarrow> None | Some (_, r1) \<Rightarrow> rx_run H ws r1)"

lemma rx_run_safe:
  assumes "hash_healthy H" "hash_law H"
  shows "rx_safe r \<Longrightarrow> rx_run H ws r = Some r' \<Longrightarrow> rx_safe r' \<and> fr_meta r' = fr_meta r \<and> fr_dest_path r' = fr_dest_path r"
proof (induction ws arbitrary: r)
  case (Cons x ws)
  obtain w E where x: "x = (w, E)" by fastforce
  with Cons.prems(2) obtain res r1 where o: "on_chunk H E w r = Some (res, r1)" "rx_run H ws r1 = Some r'"
    by (auto split: option.splits)
  from on_chunk_safe [OF Cons.prems(1) assms o(1)] Cons.IH [OF _ o(2)] show ?case by simp
qed simp


definition tiny_meta :: sl_file_meta_t where
  "tiny_meta = \<lparr>fm_total_size = 1, fm_chunk_size = 1024, fm_total_chunks = 1, fm_mode = 0, fm_mtime_s = 0,
     fm_sha256 = replicate 32 7, fm_name = 97 # replicate 256 0, fm_name_len = 1\<rparr>"


subsection \<open>Where a transfer stops short\<close>

text \<open>No chunk belongs to an empty file, so the receiver of one never reports completion.\<close>

lemma empty_file_never_completes:
  assumes "fr_meta_set r" "fm_total_chunks (fr_meta r) = 0"
  shows "on_chunk H E w r = Some (bad_chunk r)"
  using assms by (auto simp: on_chunk_def Let_def split: option.splits)

text \<open>
  A read that gives less than a chunk is sent as a chunk of that size, the sender moves on to the next
  index, and the receiver refuses the frame.
\<close>

lemma short_read_refused:
  assumes "sender_of H f s" "has_more s" "ans (unat (fs_next_idx s) * unat (fs_chunk_size s)) = Some k" "0 < k" "k < 1024"
    and "fs_next_idx s + 1 < fm_total_chunks (fs_meta s)"
  shows "\<exists>w s'. send_next_chunk ts True ans (\<lambda>_. True) s = (True, Some w, s') \<and> fs_next_idx s' = fs_next_idx s + 1
    \<and> (\<forall>r. fr_meta_set r \<longrightarrow> fm_chunk_size (fr_meta r) = fm_chunk_size (fs_meta s)
          \<longrightarrow> fm_total_chunks (fr_meta r) = fm_total_chunks (fs_meta s) \<longrightarrow> on_chunk H' E w r = Some (bad_chunk r))"
proof -
  from assms(1) have a: "announces H (fs_meta s) f" "fs_fd s = Some f" "fs_bucket s = NULL" "fs_chunk_size s = fm_chunk_size (fs_meta s)"
    by (simp_all add: sender_of_def)
  have i: "fs_next_idx s < fm_total_chunks (fs_meta s)" using assms(2) by (simp add: has_more_def)
  note b = chunk_bounds [OF a(1) i] and z = announces_sizes [OF a(1)]
  define i where "i = fs_next_idx s"
  define d where "d = take k (drop (unat i * unat (fs_chunk_size s)) f)"
  have r: "sys_read ans (unat (fs_chunk_size s)) (unat (ucast i * ucast (fs_chunk_size s) :: u64)) f = Some d"
    using assms(3-5) b(2) z(1) by (simp add: sys_read_def d_def a(4) i_def min_def max_def)
  have len: "0 < length d" "length d < 1024" using assms(4,5) b(1) by (auto simp: d_def i_def a(4))
  obtain x xs where d: "d = x # xs" using len(1) by (cases d) auto
  have n: "length d = unat (of_nat (length d) :: u32)" using len by simp
  have nz: "of_nat (length d) \<le> (65536 :: u32)" "of_nat (length d) \<noteq> (0 :: u32)"
    using len by (simp_all add: word_le_nat_alt word_unat_eq_iff)
  define fl :: u8 where "fl = (if i + 1 = fm_total_chunks (fs_meta s) then 1 else 0)"
  define w where "w = pack_u32 i @ pack_u32 (of_nat (length d)) @ pack_u32 (sl_crc32c d) @ [fl, 0, 0, 0] @ d"
  have p: "sl_file_chunk_pack (Some \<lparr>fc_chunk_index = i, fc_data_len = of_nat (length d), fc_crc32c = 0,
      fc_flags = fl, fc_chunk_data = Some d\<rparr>) (Some (16 + length d)) = Some w"
    using n nz(2) len by (simp add: sl_file_chunk_pack_def Let_def w_def)
  have u: "sl_file_chunk_unpack (Some w) OUT =
      Some \<lparr>fc_chunk_index = i, fc_data_len = of_nat (length d), fc_crc32c = sl_crc32c d, fc_flags = fl, fc_chunk_data = Some d\<rparr>"
    using sl_file_chunk_unpack_eq [OF n nz, of i "sl_crc32c d" fl "[]"] by (simp add: w_def)
  have "of_nat (length d) \<noteq> fm_chunk_size (fs_meta s)" using n len z(1) by (auto simp: word_unat_eq_iff)
  then have "on_chunk H' E w r = Some (bad_chunk r)" if "fr_meta_set r" "fm_chunk_size (fr_meta r) = fm_chunk_size (fs_meta s)"
      "fm_total_chunks (fr_meta r) = fm_total_chunks (fs_meta s)" for r
    using that u assms(6) by (simp add: on_chunk_def Let_def i_def)
  moreover have "\<exists>s'. send_next_chunk ts True ans (\<lambda>_. True) s = (True, Some w, s') \<and> fs_next_idx s' = i + 1"
    using assms(2) r p a(2,3) by (simp add: send_next_chunk_def fs_throttle_def i_def [symmetric] fl_def Let_def d)
  ultimately show ?thesis unfolding i_def by blast
qed

end
