(* ===== verification/SL_Disk.thy ===== *)
theory SL_Disk
  imports SL_Stdio SL_File
begin

text \<open>
  Whole files: atomic replacement and reading (\<open>sl_atomic_file.c\<close>), framed snapshots
  (\<open>sl_snapshot.c\<close>) and the manager that saves and restores a component (\<open>snapshot_manager.cpp\<close>).
  The state is the file system; the answers of the system calls are arguments. A stream that is
  being written is not visible under another name before the rename, so the intermediate states of
  the temporary file are not kept.
\<close>

definition tmp_path :: "bytes \<Rightarrow> bytes" where
  "tmp_path p = p @ [46, 116, 109, 112]"

subsection \<open>Atomic files\<close>

function write_loop :: "io_answers \<Rightarrow> bytes \<Rightarrow> nat \<Rightarrow> bytes \<Rightarrow> bool \<times> bytes" where
  "write_loop ans d off f =
     (if off < length d then
        case ans off of
          None \<Rightarrow> (False, f)
        | Some k \<Rightarrow> let w = min (length d - off) (max 1 k) in write_loop ans d (off + w) (f @ take w (drop off d))
      else (True, f))"
  by pat_completeness auto

termination
  by (relation "measure (\<lambda>(ans, d, off, f). length d - off)") auto

declare write_loop.simps [simp del]

definition sl_atomic_write_bytes ::
  "bool \<Rightarrow> io_answers \<Rightarrow> bool \<Rightarrow> file_system \<Rightarrow> bytes ptr \<Rightarrow> bytes ptr \<Rightarrow> nat \<Rightarrow> int \<times> file_system" where
  "sl_atomic_write_bytes open_ok ans rename_ok fs path data len =
     (case path of
        None \<Rightarrow> (- 1, fs)
      | Some p \<Rightarrow>
          if data = NULL \<and> len > 0 then (- 1, fs)
          else if length p + 4 \<ge> 1024 then (- 1, fs)
          else if \<not> open_ok then (- 1, fs)
          else
            let d = (case data of None \<Rightarrow> [] | Some x \<Rightarrow> take len x); (ok, f) = write_loop ans d 0 [] in
            if \<not> ok then (- 1, fs(tmp_path p := None))
            else if \<not> rename_ok then (- 1, fs(tmp_path p := None))
            else (0, fs(p := Some f, tmp_path p := None)))"

definition sl_atomic_append_line ::
  "bool \<Rightarrow> bool \<Rightarrow> nat option \<Rightarrow> file_system \<Rightarrow> bytes ptr \<Rightarrow> bytes ptr \<Rightarrow> int \<times> file_system" where
  "sl_atomic_append_line malloc_ok open_ok ans fs path line =
     (case (path, line) of
        (Some p, Some l) \<Rightarrow>
          if \<not> malloc_ok then (- 1, fs)
          else
            let buf = l @ [10]; old = (case fs p of None \<Rightarrow> [] | Some f \<Rightarrow> f) in
            if \<not> open_ok then (- 1, fs)
            else
              (case ans of
                 None \<Rightarrow> (- 1, fs(p := Some old))
               | Some k \<Rightarrow> (if length buf \<le> k then 0 else - 1, fs(p := Some (old @ take k buf))))
      | _ \<Rightarrow> (- 1, fs))"

definition sl_read_all :: "bool \<Rightarrow> bool \<Rightarrow> bool \<Rightarrow> file_system \<Rightarrow> bytes ptr \<Rightarrow> out_ref \<Rightarrow> out_ref \<Rightarrow> bytes option" where
  "sl_read_all open_ok fseek_ok malloc_ok fs path out_data out_len =
     (case (path, out_data, out_len) of
        (Some p, Some _, Some _) \<Rightarrow>
          (case fs p of
             None \<Rightarrow> None
           | Some f \<Rightarrow>
               if \<not> open_ok then None
               else if \<not> fseek_ok then None
               else if \<not> malloc_ok \<and> length f > 0 then None
               else Some (fread (length f) 0 f))
      | _ \<Rightarrow> None)"

subsection \<open>Snapshots\<close>

definition SL_SNAPSHOT_MAGIC :: bytes where
  "SL_SNAPSHOT_MAGIC = [83, 76, 83, 83]"

abbreviation (input) SL_SNAPSHOT_VERSION :: u32 where "SL_SNAPSHOT_VERSION \<equiv> 1"

record save_env =
  sv_fopen :: bool
  sv_fwrite :: "nat \<Rightarrow> fwrite_answer"
  sv_fflush :: bool
  sv_rename :: bool

definition snapshot_header :: "nat \<Rightarrow> bytes" where
  "snapshot_header len = SL_SNAPSHOT_MAGIC @ pack_u32 SL_SNAPSHOT_VERSION @ pack_u64 (of_nat len)"

definition snapshot_crc :: "bytes \<Rightarrow> bytes \<Rightarrow> u32" where
  "snapshot_crc hdr d =
     sl_crc32c_finalize (if length d > 0 then sl_crc32c_update (sl_crc32c_update sl_crc32c_init hdr) d
                         else sl_crc32c_update sl_crc32c_init hdr)"

definition sl_snapshot_save :: "save_env \<Rightarrow> file_system \<Rightarrow> bytes ptr \<Rightarrow> bytes ptr \<Rightarrow> nat \<Rightarrow> int \<times> file_system" where
  "sl_snapshot_save E fs path payload payload_len =
     (case path of
        None \<Rightarrow> (- 1, fs)
      | Some p \<Rightarrow>
          if payload = NULL \<and> payload_len > 0 then (- 1, fs)
          else if length p + 4 \<ge> 1024 then (- 1, fs)
          else if \<not> sv_fopen E then (- 1, fs)
          else
            let d = (case payload of None \<Rightarrow> [] | Some x \<Rightarrow> take payload_len x);
                header = snapshot_header payload_len;
                (ok, f) = fwrite_all ([(sv_fwrite E 0, header)] @ (if payload_len > 0 then [(sv_fwrite E 1, d)] else [])
                            @ [(sv_fwrite E 2, pack_u32 (snapshot_crc header d))]) []
            in if \<not> ok then (- 1, fs(tmp_path p := None))
               else if \<not> sv_fflush E then (- 1, fs(tmp_path p := None))
               else if \<not> sv_rename E then (- 1, fs(tmp_path p := None))
               else (0, fs(p := Some f, tmp_path p := None)))"

definition read_header :: "bytes \<Rightarrow> u64 option" where
  "read_header f =
     (let header = fread 16 0 f in
      if length header \<noteq> 16 then None
      else if take 4 header \<noteq> SL_SNAPSHOT_MAGIC then None
      else if unpack_u32 (drop 4 header) \<noteq> SL_SNAPSHOT_VERSION then None
      else Some (unpack_u64 (drop 8 header)))"

text \<open>The status, the value of \<open>*out_len\<close> if it is set, and the bytes written to the buffer.\<close>

definition sl_snapshot_load ::
  "bool \<Rightarrow> file_system \<Rightarrow> bytes ptr \<Rightarrow> nat \<Rightarrow> out_ref \<Rightarrow> int \<times> nat option \<times> bytes" where
  "sl_snapshot_load open_ok fs path buf_cap out_len =
     (case (path, out_len) of
        (Some p, Some _) \<Rightarrow>
          (case (if open_ok then fs p else None) of
             None \<Rightarrow> (- 1, None, [])
           | Some f \<Rightarrow>
               (case read_header f of
                  None \<Rightarrow> (- 1, None, [])
                | Some plen \<Rightarrow>
                    let n = unat plen in
                    if buf_cap < n then (- 2, Some n, [])
                    else
                      let d = fread n 16 f in
                      if n > 0 \<and> length d \<noteq> n then (- 1, Some n, d)
                      else
                        let crc_buf = fread 4 (16 + n) f in
                        if length crc_buf \<noteq> 4 then (- 1, Some n, d)
                        else
                          let stored = unpack_u32 crc_buf; hdr = fread 16 0 f in
                          if stored \<noteq> snapshot_crc hdr d then (- 1, Some n, d)
                          else (0, Some n, d)))
      | _ \<Rightarrow> (- 1, None, []))"

definition sl_snapshot_verify :: "bool \<Rightarrow> bool \<Rightarrow> bool \<Rightarrow> file_system \<Rightarrow> bytes ptr \<Rightarrow> int" where
  "sl_snapshot_verify stat_ok malloc_ok open_ok fs path =
     (case path of
        None \<Rightarrow> - 1
      | Some p \<Rightarrow>
          (case (if stat_ok then fs p else None) of
             None \<Rightarrow> - 1
           | Some f \<Rightarrow>
               if length f < 20 then - 1
               else
                 let plen = length f - 20 in
                 if \<not> malloc_ok \<and> plen > 0 then - 1
                 else fst (sl_snapshot_load open_ok fs path plen OUT)))"

subsection \<open>Snapshot manager\<close>

text \<open>
  The serialiser yields bytes; the deserialiser accepts or refuses them and changes the state \<open>'w\<close> of the
  component. \<open>sm_tick\<close> is one round of the background thread after its wait.
\<close>

record SnapshotManagerStats =
  saves_ok :: u64
  saves_failed :: u64
  loads_ok :: u64
  loads_failed :: u64
  last_size_bytes :: u64

record 'w SnapshotManager =
  sm_path :: bytes
  sm_interval_ms :: u32
  sm_serialize :: "('w \<Rightarrow> bytes) option"
  sm_deserialize :: "(bytes \<Rightarrow> 'w \<Rightarrow> bool \<times> 'w) option"
  sm_running :: bool
  sm_stats :: SnapshotManagerStats

definition sm_new :: "bytes \<Rightarrow> u32 \<Rightarrow> ('w \<Rightarrow> bytes) option \<Rightarrow> (bytes \<Rightarrow> 'w \<Rightarrow> bool \<times> 'w) option \<Rightarrow> 'w SnapshotManager" where
  "sm_new path interval_ms ser deser =
     \<lparr>sm_path = path, sm_interval_ms = interval_ms, sm_serialize = ser, sm_deserialize = deser, sm_running = False,
      sm_stats = \<lparr>saves_ok = 0, saves_failed = 0, loads_ok = 0, loads_failed = 0, last_size_bytes = 0\<rparr>\<rparr>"

definition sm_load_failed :: "'w SnapshotManager \<Rightarrow> 'w SnapshotManager" where
  "sm_load_failed m = m\<lparr>sm_stats := (sm_stats m)\<lparr>loads_failed := loads_failed (sm_stats m) + 1\<rparr>\<rparr>"

definition sm_restore :: "bool \<Rightarrow> file_system \<Rightarrow> 'w SnapshotManager \<Rightarrow> 'w \<Rightarrow> bool \<times> 'w SnapshotManager \<times> 'w" where
  "sm_restore open_ok fs m w =
     (case sm_deserialize m of
        None \<Rightarrow> (False, m, w)
      | Some deser \<Rightarrow>
          let (rc, sz, _) = sl_snapshot_load open_ok fs (Some (sm_path m)) 0 OUT in
          if rc = - 1 then (True, m, w)
          else
            let n = (case sz of None \<Rightarrow> 0 | Some k \<Rightarrow> k);
                (rc2, sz2, d) = sl_snapshot_load open_ok fs (Some (sm_path m)) n OUT
            in if rc2 \<noteq> 0 then (False, sm_load_failed m, w)
               else
                 let buf = take (the sz2) d in
                 (case deser buf w of
                    (False, w') \<Rightarrow> (False, sm_load_failed m, w')
                  | (True, w') \<Rightarrow>
                      (True, m\<lparr>sm_stats := (sm_stats m)\<lparr>loads_ok := loads_ok (sm_stats m) + 1,
                                                       last_size_bytes := of_nat (length buf)\<rparr>\<rparr>, w')))"

definition sm_save_now :: "save_env \<Rightarrow> file_system \<Rightarrow> 'w SnapshotManager \<Rightarrow> 'w \<Rightarrow> bool \<times> 'w SnapshotManager \<times> file_system" where
  "sm_save_now E fs m w =
     (case sm_serialize m of
        None \<Rightarrow> (False, m, fs)
      | Some ser \<Rightarrow>
          let payload = ser w;
              (rc, fs') = sl_snapshot_save E fs (Some (sm_path m)) (Some payload) (length payload)
          in if rc = 0
             then (True, m\<lparr>sm_stats := (sm_stats m)\<lparr>saves_ok := saves_ok (sm_stats m) + 1, last_size_bytes := of_nat (length payload)\<rparr>\<rparr>, fs')
             else (False, m\<lparr>sm_stats := (sm_stats m)\<lparr>saves_failed := saves_failed (sm_stats m) + 1\<rparr>\<rparr>, fs'))"

definition sm_start :: "'w SnapshotManager \<Rightarrow> 'w SnapshotManager" where
  "sm_start m = m\<lparr>sm_running := True\<rparr>"

definition sm_stop :: "'w SnapshotManager \<Rightarrow> 'w SnapshotManager" where
  "sm_stop m = m\<lparr>sm_running := False\<rparr>"

definition sm_tick :: "save_env \<Rightarrow> file_system \<Rightarrow> 'w SnapshotManager \<Rightarrow> 'w \<Rightarrow> 'w SnapshotManager \<times> file_system" where
  "sm_tick E fs m w = (if sm_running m then snd (sm_save_now E fs m w) else (m, fs))"

subsection \<open>Replacement is all or nothing\<close>

lemma write_loop_ok:
  assumes "write_loop ans d off f = (True, f')" "off \<le> length d"
  shows "f' = f @ drop off d"
  using assms
proof (induction "length d - off" arbitrary: off f rule: less_induct)
  case less
  show ?case
  proof (cases "off < length d")
    case True
    then obtain k where k: "ans off = Some k" using less.prems(1) by (subst (asm) write_loop.simps) (auto split: option.splits)
    define w where "w = min (length d - off) (max 1 k)"
    have w: "0 < w" "off + w \<le> length d" using True by (auto simp: w_def)
    have "write_loop ans d (off + w) (f @ take w (drop off d)) = (True, f')"
      using less.prems(1) True k by (subst (asm) write_loop.simps) (simp add: Let_def w_def)
    from less.hyps [OF _ this] w True have "f' = (f @ take w (drop off d)) @ drop (off + w) d" by simp
    then show ?thesis by (simp add: add.commute [of off] flip: drop_drop)
  next
    case False
    with less.prems show ?thesis by (subst (asm) write_loop.simps) simp
  qed
qed

lemma tmp_path_neq [simp]: "tmp_path p \<noteq> p" "p \<noteq> tmp_path p"
  by (simp_all add: tmp_path_def)

lemma atomic_write_all_or_nothing:
  assumes "sl_atomic_write_bytes open_ok ans rename_ok fs (Some p) (Some d) (length d) = (rc, fs')"
  shows "fs' p = (if rc = 0 then Some d else fs p)" "q \<noteq> p \<Longrightarrow> q \<noteq> tmp_path p \<Longrightarrow> fs' q = fs q"
proof -
  obtain ok f where w: "write_loop ans d 0 [] = (ok, f)" by fastforce
  have "f = d" if ok using write_loop_ok [of ans d 0 "[]" f] w that by simp
  then show "fs' p = (if rc = 0 then Some d else fs p)" "q \<noteq> p \<Longrightarrow> q \<noteq> tmp_path p \<Longrightarrow> fs' q = fs q"
    using assms w by (auto simp: sl_atomic_write_bytes_def Let_def split: if_splits)
qed

lemma snapshot_crc_eq: "snapshot_crc hdr d = sl_crc32c (hdr @ d)"
  by (cases d) (simp_all add: snapshot_crc_def sl_crc32c_def sl_crc32c_update_append)

definition snapshot_file :: "bytes \<Rightarrow> bytes" where
  "snapshot_file d = snapshot_header (length d) @ d @ pack_u32 (sl_crc32c (snapshot_header (length d) @ d))"

lemma length_snapshot_header [simp]: "length (snapshot_header n) = 16"
  by (simp add: snapshot_header_def SL_SNAPSHOT_MAGIC_def)

lemma snapshot_save_all_or_nothing:
  assumes "sl_snapshot_save E fs (Some p) (Some d) (length d) = (rc, fs')"
  shows "fs' p = (if rc = 0 then Some (snapshot_file d) else fs p)" "q \<noteq> p \<Longrightarrow> q \<noteq> tmp_path p \<Longrightarrow> fs' q = fs q"
proof -
  let ?h = "snapshot_header (length d)"
  let ?ds = "[(sv_fwrite E 0, ?h)] @ (if length d > 0 then [(sv_fwrite E 1, d)] else []) @ [(sv_fwrite E 2, pack_u32 (snapshot_crc ?h d))]"
  obtain ok f where w: "fwrite_all ?ds [] = (ok, f)" by fastforce
  have f: "f = snapshot_file d" if o: ok
    using fwrite_all_ok [OF w [unfolded eqTrueI [OF o]]] by (cases d) (simp_all add: snapshot_file_def snapshot_crc_eq)
  have s: "sl_snapshot_save E fs (Some p) (Some d) (length d) =
    (if length p + 4 \<ge> 1024 then (- 1, fs) else if \<not> sv_fopen E then (- 1, fs)
     else if \<not> ok then (- 1, fs(tmp_path p := None)) else if \<not> sv_fflush E then (- 1, fs(tmp_path p := None))
     else if \<not> sv_rename E then (- 1, fs(tmp_path p := None)) else (0, fs(p := Some f, tmp_path p := None)))"
    unfolding sl_snapshot_save_def option.case Let_def take_all [OF order_refl] w prod.case by simp
  show "fs' p = (if rc = 0 then Some (snapshot_file d) else fs p)" "q \<noteq> p \<Longrightarrow> q \<noteq> tmp_path p \<Longrightarrow> fs' q = fs q"
    using assms f unfolding s by (auto split: if_splits)
qed

subsection \<open>Loading what was saved\<close>

lemma read_header_snapshot:
  assumes "length d < 2 ^ 64"
  shows "read_header (snapshot_header (length d) @ x) = Some (of_nat (length d))" "unat (of_nat (length d) :: u64) = length d"
  using assms by (simp_all add: read_header_def fread_def snapshot_header_def SL_SNAPSHOT_MAGIC_def Let_def)

text \<open>A file that starts with a genuine header: what is loaded depends on the data and the checksum after it.\<close>

lemma snapshot_load_framed:
  assumes "length d < 2 ^ 64" "length x = length d" "length c = 4" "fs p = Some (snapshot_header (length d) @ x @ c @ rest)"
  shows "sl_snapshot_load True fs (Some p) cap OUT =
    (if cap < length d then (- 2, Some (length d), [])
     else if unpack_u32 c \<noteq> sl_crc32c (snapshot_header (length d) @ x) then (- 1, Some (length d), x)
     else (0, Some (length d), x))"
  using assms read_header_snapshot [OF assms(1)]
  by (simp add: sl_snapshot_load_def fread_def Let_def snapshot_crc_eq)

lemma unpack_u32_byte_change:
  assumes "length c = 4" "i < 4" "b \<noteq> c ! i"
  shows "unpack_u32 (c[i := b]) \<noteq> unpack_u32 c"
proof
  assume eq: "unpack_u32 (c[i := b]) = unpack_u32 c"
  obtain c0 c1 c2 c3 where c: "c = [c0, c1, c2, c3]" using assms(1) by (auto simp: length_Suc_conv eval_nat_numeral)
  have "pack_u32 (unpack_u32 y) = y" if "length y = 4" for y
    using that pack_unpack_u32 by (auto simp: length_Suc_conv eval_nat_numeral)
  from this [of c] this [of "c[i := b]"] have "c[i := b] = c" using eq assms(1) by simp
  then show False using assms by (metis nth_list_update_eq)
qed

lemma snapshot_corrupt_byte:
  assumes "length d < 2 ^ 64" "16 \<le> i" "i < length (snapshot_file d)" "b \<noteq> snapshot_file d ! i"
    "fs p = Some ((snapshot_file d)[i := b])"
  shows "fst (sl_snapshot_load True fs (Some p) cap OUT) \<noteq> 0"
proof -
  let ?h = "snapshot_header (length d)" and ?c = "pack_u32 (sl_crc32c (snapshot_header (length d) @ d))"
  define k where "k = i - 16"
  have i: "i = 16 + k" "k < length d + 4" using assms(2,3) by (simp_all add: k_def snapshot_file_def)
  show ?thesis
  proof (cases "k < length d")
    case True
    then have f: "(snapshot_file d)[i := b] = ?h @ d[k := b] @ ?c @ []" by (simp add: snapshot_file_def i(1) list_update_append)
    have "b \<noteq> (?h @ d) ! (16 + k)" using assms(4) True by (simp add: snapshot_file_def i(1) nth_append)
    from sl_crc32c_byte_change [OF _ this] True have "sl_crc32c ((?h @ d)[16 + k := b]) \<noteq> sl_crc32c (?h @ d)" by simp
    then have "unpack_u32 ?c \<noteq> sl_crc32c (?h @ d[k := b])" by (simp add: list_update_append)
    then show ?thesis using snapshot_load_framed [OF assms(1), of "d[k := b]" ?c fs p "[]" cap] assms(5) f by simp
  next
    case False
    define j where "j = k - length d"
    have j: "k = length d + j" "j < 4" using False i(2) by (simp_all add: j_def)
    have f: "(snapshot_file d)[i := b] = ?h @ d @ ?c[j := b] @ []"
      by (simp add: snapshot_file_def i(1) j(1) list_update_append)
    have "b \<noteq> ?c ! j" using assms(4) j by (simp add: snapshot_file_def i(1) nth_append)
    from unpack_u32_byte_change [OF _ j(2) this] have "unpack_u32 (?c[j := b]) \<noteq> sl_crc32c (?h @ d)" by simp
    then show ?thesis using snapshot_load_framed [OF assms(1), of d "?c[j := b]" fs p "[]" cap] assms(5) f by simp
  qed
qed

lemma snapshot_load_file:
  assumes "length d < 2 ^ 64" "fs p = Some (snapshot_file d)"
  shows "sl_snapshot_load True fs (Some p) cap OUT = (if cap < length d then (- 2, Some (length d), []) else (0, Some (length d), d))"
  using snapshot_load_framed [OF assms(1), of d "pack_u32 (sl_crc32c (snapshot_header (length d) @ d))" fs p "[]" cap] assms(2)
  by (simp add: snapshot_file_def)

text \<open>
  C30. Snapshots are all or nothing. A save that succeeds leaves a file that loads back as exactly the
  payload, or reports its size when the buffer is too small, and verifies; a save that fails at any
  step leaves the old file as it was; no file but the temporary one is touched; and a saved file in
  which any one byte after the header is changed does not load.
\<close>

theorem snapshot_all_or_nothing:
  assumes "sl_snapshot_save E fs (Some p) (Some d) (length d) = (rc, fs')" "length d < 2 ^ 64"
  shows "(rc = 0 \<longrightarrow> sl_snapshot_load True fs' (Some p) cap OUT =
        (if cap < length d then (- 2, Some (length d), []) else (0, Some (length d), d))
        \<and> sl_snapshot_verify True True True fs' (Some p) = 0)
    \<and> (rc \<noteq> 0 \<longrightarrow> fs' p = fs p) \<and> (q \<noteq> p \<longrightarrow> q \<noteq> tmp_path p \<longrightarrow> fs' q = fs q)
    \<and> (rc = 0 \<longrightarrow> fs' p = Some f \<longrightarrow> 16 \<le> i \<longrightarrow> i < length f \<longrightarrow> b \<noteq> f ! i \<longrightarrow>
        fst (sl_snapshot_load True (fs'(p := Some (f[i := b]))) (Some p) cap OUT) \<noteq> 0)"
proof -
  note s = snapshot_save_all_or_nothing [OF assms(1)]
  have l: "sl_snapshot_load True fs' (Some p) c OUT = (if c < length d then (- 2, Some (length d), []) else (0, Some (length d), d))"
    if "rc = 0" for c using snapshot_load_file [OF assms(2)] s(1) that by simp
  have v: "sl_snapshot_verify True True True fs' (Some p) = 0" if "rc = 0"
    using l [OF that] s(1) that by (simp add: sl_snapshot_verify_def Let_def snapshot_file_def)
  have c: "fst (sl_snapshot_load True (fs'(p := Some (f[i := b]))) (Some p) cap OUT) \<noteq> 0"
    if "rc = 0" "fs' p = Some f" "16 \<le> i" "i < length f" "b \<noteq> f ! i"
    using snapshot_corrupt_byte [OF assms(2), of i b "fs'(p := Some (f[i := b]))" p cap] s(1) that by simp
  show ?thesis
  proof (intro conjI impI)
    show "fs' p = fs p" if "rc \<noteq> 0" using s(1) that by simp
    show "fs' q = fs q" if "q \<noteq> p" "q \<noteq> tmp_path p" using s(2) that .
  qed (fact l v c)+
qed

theorem snapshot_all_or_nothing_witness:
  "\<exists>fs'. sl_snapshot_save \<lparr>sv_fopen = True, sv_fwrite = (\<lambda>_. None), sv_fflush = True, sv_rename = True\<rparr> Map.empty (Some [97]) (Some [1, 2, 3]) 3 = (0, fs')
     \<and> sl_snapshot_load True fs' (Some [97]) 8 OUT = (0, Some 3, [1, 2, 3]) \<and> sl_snapshot_verify True True True fs' (Some [97]) = 0"
proof -
  let ?E = "\<lparr>sv_fopen = True, sv_fwrite = (\<lambda>_. None), sv_fflush = True, sv_rename = True\<rparr>"
  have "\<exists>fs'. sl_snapshot_save ?E Map.empty (Some [97]) (Some [1, 2, 3]) (length [1, 2, 3 :: u8]) = (0, fs')"
    by (simp add: sl_snapshot_save_def fwrite_def Let_def)
  then obtain fs' where s: "sl_snapshot_save ?E Map.empty (Some [97]) (Some [1, 2, 3]) (length [1, 2, 3 :: u8]) = (0, fs')" by blast
  from snapshot_all_or_nothing [OF s, of 8] have "sl_snapshot_load True fs' (Some [97]) 8 OUT = (0, Some 3, [1, 2, 3])"
    "sl_snapshot_verify True True True fs' (Some [97]) = 0" by simp_all
  moreover have "length [1, 2, 3 :: u8] = 3" by simp
  ultimately show ?thesis using s by metis
qed

text \<open>What follows the checksum is not looked at.\<close>

lemma snapshot_trailing_bytes_load:
  assumes "length d < 2 ^ 64" "fs p = Some (snapshot_file d @ junk)" "length d \<le> cap"
  shows "sl_snapshot_load True fs (Some p) cap OUT = (0, Some (length d), d)"
  using snapshot_load_framed [OF assms(1), of d "pack_u32 (sl_crc32c (snapshot_header (length d) @ d))" fs p junk cap] assms(2,3)
  by (simp add: snapshot_file_def)

text \<open>A component restored from a snapshot that was saved gets the bytes its serialiser gave.\<close>

lemma snapshot_manager_restores:
  assumes "sm_serialize m = Some ser" "sm_deserialize m = Some deser" "length (ser w) < 2 ^ 64"
    and "sm_save_now E fs m w = (True, m1, fs1)" "deser (ser w) w0 = (True, w1)"
  shows "\<exists>m2. sm_restore True fs1 m1 w0 = (True, m2, w1) \<and> loads_ok (sm_stats m2) = loads_ok (sm_stats m) + 1"
proof -
  let ?d = "ser w"
  obtain rc fs' where s: "sl_snapshot_save E fs (Some (sm_path m)) (Some ?d) (length ?d) = (rc, fs')" by fastforce
  then have r: "rc = 0" "fs1 = fs'" "m1 = m\<lparr>sm_stats := (sm_stats m)\<lparr>saves_ok := saves_ok (sm_stats m) + 1, last_size_bytes := of_nat (length ?d)\<rparr>\<rparr>"
    using assms(1,4) by (auto simp: sm_save_now_def Let_def split: if_splits)
  have l: "sl_snapshot_load True fs1 (Some (sm_path m)) c OUT = (if c < length ?d then (- 2, Some (length ?d), []) else (0, Some (length ?d), ?d))" for c
    using snapshot_load_file [OF assms(3)] snapshot_save_all_or_nothing(1) [OF s] r(1,2) by simp
  show ?thesis using assms(2,5) by (cases "ser w = []") (simp_all add: sm_restore_def r(3) l Let_def)
qed

end
