(* ===== verification/SL_Log.thy ===== *)
theory SL_Log
  imports SL_Stdio SL_File SL_Keys SL_Guard
begin

text \<open>
  The logs on disk: the hash-chained audit log (\<open>sl_audit_log.c\<close>) and the event log
  (\<open>sl_event_log.c\<close>). A log holds the content of its file; what \<open>fopen\<close> finds (\<open>None\<close> when it
  fails), the answers of \<open>fwrite\<close>, the clock and the success of \<open>calloc\<close> are arguments.
\<close>

subsection \<open>Audit log\<close>

type_synonym sl_audit_event_t = int

record sl_audit_log =
  al_fp :: bytes
  al_prev_hash :: bytes

definition sl_audit_log_open :: "bool \<Rightarrow> bytes option \<Rightarrow> bool \<Rightarrow> bytes ptr \<Rightarrow> sl_audit_log ptr" where
  "sl_audit_log_open calloc_ok content reopen_ok path =
     (if path = NULL then NULL
      else if \<not> calloc_ok then NULL
      else
        (case content of
           None \<Rightarrow> NULL
         | Some f \<Rightarrow>
             Some \<lparr>al_fp = f,
                   al_prev_hash = (if reopen_ok \<and> length f \<ge> 32 then fread 32 (length f - 32) f else replicate 32 0)\<rparr>))"

definition audit_header :: "u64 \<Rightarrow> sl_audit_event_t \<Rightarrow> nat \<Rightarrow> bytes" where
  "audit_header now event plen = pack_u64 now @ pack_u32 (word_of_int event) @ pack_u32 (of_nat plen)"

definition audit_hash :: "hash_api \<Rightarrow> bytes \<Rightarrow> bytes \<Rightarrow> bytes \<Rightarrow> bytes" where
  "audit_hash H prev header payload = sha256 H (prev @ header @ payload)"

definition sl_audit_log_append ::
  "hash_api \<Rightarrow> (nat \<Rightarrow> fwrite_answer) \<Rightarrow> clock_reading \<Rightarrow> sl_audit_log ptr \<Rightarrow> sl_audit_event_t \<Rightarrow> bytes ptr \<Rightarrow>
   int \<times> sl_audit_log ptr" where
  "sl_audit_log_append H wr ts L event payload =
     (case L of
        None \<Rightarrow> (- 1, NULL)
      | Some l \<Rightarrow>
          let p = (case payload of None \<Rightarrow> [] | Some s \<Rightarrow> s); plen = length p in
          if plen > 1024 then (- 1, L)
          else
            let header = audit_header (now_ms ts) event plen;
                new_hash = audit_hash H (al_prev_hash l) header p;
                (ok, f) = fwrite_all ([(wr 0, header)] @ (if plen > 0 then [(wr 1, p)] else []) @ [(wr 2, new_hash)]) (al_fp l)
            in if \<not> ok then (- 1, Some (l\<lparr>al_fp := f\<rparr>))
               else (0, Some (l\<lparr>al_fp := f, al_prev_hash := new_hash\<rparr>)))"

function audit_verify_loop :: "hash_api \<Rightarrow> bytes \<Rightarrow> bytes \<Rightarrow> int" where
  "audit_verify_loop H prev f =
     (if length f < 16 then 0
      else
        let header = take 16 f; plen = unpack_u32 (drop 12 header); n = unat plen; f1 = drop 16 f in
        if plen > 1024 then - 1
        else if plen > 0 \<and> length f1 < n then - 1
        else
          let payload = take n f1; f2 = drop n f1 in
          if length f2 < 32 then - 1
          else
            let stored = take 32 f2; computed = audit_hash H prev header payload in
            if stored \<noteq> computed then - 1
            else audit_verify_loop H computed (drop 32 f2))"
  by pat_completeness auto

termination
  by (relation "measure (\<lambda>(H, prev, f). length f)") auto

declare audit_verify_loop.simps [simp del]

definition sl_audit_log_verify :: "hash_api \<Rightarrow> bytes option \<Rightarrow> int" where
  "sl_audit_log_verify H content =
     (case content of None \<Rightarrow> - 1 | Some f \<Rightarrow> audit_verify_loop H (replicate 32 0) f)"

subsection \<open>Event log\<close>

type_synonym sl_event_type_t = u32

record sl_event_log =
  el_fp :: bytes
  el_next_seq :: u64

record sl_event_record_t =
  er_seq :: u64
  er_timestamp_ns :: u64
  er_type :: sl_event_type_t
  er_payload :: "bytes ptr"
  er_payload_len :: nat

definition now_ns :: "clock_reading \<Rightarrow> u64" where
  "now_ns ts = (case ts of None \<Rightarrow> 0 | Some (sec, nsec) \<Rightarrow> sec * 1000000000 + nsec)"

text \<open>The four numbers of a record header, and the length of their encoding.\<close>

definition event_header_decode :: "bytes \<Rightarrow> (u64 \<times> u64 \<times> u64 \<times> u64 \<times> nat) option" where
  "event_header_decode hdr =
     (case sl_varint_decode_u64 (Some hdr) OUT of
        None \<Rightarrow> None
      | Some (seq, n1) \<Rightarrow>
     (case sl_varint_decode_u64 (Some (drop n1 hdr)) OUT of
        None \<Rightarrow> None
      | Some (ts, n2) \<Rightarrow>
     (case sl_varint_decode_u64 (Some (drop (n1 + n2) hdr)) OUT of
        None \<Rightarrow> None
      | Some (ty, n3) \<Rightarrow>
     (case sl_varint_decode_u64 (Some (drop (n1 + n2 + n3) hdr)) OUT of
        None \<Rightarrow> None
      | Some (plen, n4) \<Rightarrow> Some (seq, ts, ty, plen, n1 + n2 + n3 + n4)))))"

text \<open>
  The scan of the existing records. The position after a record is a \<open>long\<close>; a seek to a negative
  one fails, which the code ignores, and leaves the position after the header that was read.
\<close>

partial_function (option) event_scan :: "bytes \<Rightarrow> nat \<Rightarrow> u64 \<Rightarrow> u64 option" where
  "event_scan f pos next_seq =
     (let hdr = fread 64 pos f in
      if hdr = [] then Some next_seq
      else
        (case event_header_decode hdr of
           None \<Rightarrow> Some next_seq
         | Some (seq, ts, ty, plen, n) \<Rightarrow>
             let target = int pos + int n + sint plen + 4;
                 pos' = (if target < 0 then pos + length hdr else nat target)
             in event_scan f pos' (if seq \<ge> next_seq then seq + 1 else next_seq)))"

definition sl_event_log_open :: "bool \<Rightarrow> bytes option \<Rightarrow> bytes ptr \<Rightarrow> sl_event_log ptr option" where
  "sl_event_log_open calloc_ok content path =
     (if path = NULL then Some NULL
      else if \<not> calloc_ok then Some NULL
      else
        (case content of
           None \<Rightarrow> Some NULL
         | Some f \<Rightarrow> map_option (\<lambda>q. Some \<lparr>el_fp = f, el_next_seq = q\<rparr>) (event_scan f 0 1)))"

definition event_header :: "u64 \<Rightarrow> u64 \<Rightarrow> sl_event_type_t \<Rightarrow> nat \<Rightarrow> bytes option" where
  "event_header seq now ty plen =
     (case sl_varint_encode_u64 seq (Some 40) of
        None \<Rightarrow> None
      | Some a \<Rightarrow>
     (case sl_varint_encode_u64 now (Some (40 - length a)) of
        None \<Rightarrow> None
      | Some b \<Rightarrow>
     (case sl_varint_encode_u64 (ucast ty) (Some (40 - length (a @ b))) of
        None \<Rightarrow> None
      | Some c \<Rightarrow>
     (case sl_varint_encode_u64 (of_nat plen) (Some (40 - length (a @ b @ c))) of
        None \<Rightarrow> None
      | Some d \<Rightarrow> Some (a @ b @ c @ d)))))"

text \<open>The write of the checksum is not checked.\<close>

definition sl_event_log_append ::
  "(nat \<Rightarrow> fwrite_answer) \<Rightarrow> clock_reading \<Rightarrow> sl_event_log ptr \<Rightarrow> sl_event_type_t \<Rightarrow> bytes ptr \<Rightarrow> nat \<Rightarrow> int \<times> sl_event_log ptr" where
  "sl_event_log_append wr ts L ty payload payload_len =
     (case L of
        None \<Rightarrow> (- 1, NULL)
      | Some l \<Rightarrow>
          if payload_len > 1048576 then (- 1, L)
          else
            (case event_header (el_next_seq l) (now_ns ts) ty payload_len of
               None \<Rightarrow> (- 1, L)
             | Some hdr \<Rightarrow>
                 let p = mem_take payload payload_len;
                     crc = sl_crc32c_finalize (if payload_len > 0
                             then sl_crc32c_update (sl_crc32c_update sl_crc32c_init hdr) p
                             else sl_crc32c_update sl_crc32c_init hdr);
                     (ok, f) = fwrite_all ((wr 0, hdr) # (if payload_len > 0 then [(wr 1, p)] else [])) (el_fp l)
                 in if \<not> ok then (- 1, Some (l\<lparr>el_fp := f\<rparr>))
                    else (0, Some (l\<lparr>el_fp := snd (fwrite (wr 2) (pack_u32 crc) f), el_next_seq := el_next_seq l + 1\<rparr>))))"

definition sl_event_log_seq :: "sl_event_log ptr \<Rightarrow> u64" where
  "sl_event_log_seq L = (case L of None \<Rightarrow> 0 | Some l \<Rightarrow> el_next_seq l)"

text \<open>The visitor is the application's; it returns zero to go on, and its own state.\<close>

type_synonym 'u sl_event_visitor_fn = "sl_event_record_t \<Rightarrow> 'u \<Rightarrow> int \<times> 'u"

function event_iterate_loop :: "'u sl_event_visitor_fn \<Rightarrow> bytes \<Rightarrow> nat \<Rightarrow> 'u \<Rightarrow> 'u" where
  "event_iterate_loop visitor f pos user =
     (let hdr = fread 40 pos f in
      if hdr = [] then user
      else
        (case event_header_decode hdr of
           None \<Rightarrow> user
         | Some (seq, ts, ty, plen, n) \<Rightarrow>
             let k = unat plen; payload = fread k (pos + n) f; crc = fread 4 (pos + n + length payload) f in
             if k > 1048576 then user
             else if k > 0 \<and> length payload \<noteq> k then user
             else if length crc \<noteq> 4 then user
             else
               let rec = \<lparr>er_seq = seq, er_timestamp_ns = ts, er_type = ucast ty,
                          er_payload = (if k > 0 then Some payload else NULL), er_payload_len = k\<rparr>;
                   (rc, user') = visitor rec user
               in if rc \<noteq> 0 then user' else event_iterate_loop visitor f (pos + n + k + 4) user'))"
  by pat_completeness auto

termination
  by (relation "measure (\<lambda>(visitor, f, pos, user). length f - pos)") (auto simp: fread_def Let_def)

declare event_iterate_loop.simps [simp del]

definition sl_event_log_iterate :: "bytes option \<Rightarrow> bytes ptr \<Rightarrow> 'u sl_event_visitor_fn ptr \<Rightarrow> 'u \<Rightarrow> int \<times> 'u" where
  "sl_event_log_iterate content path visitor user =
     (case (path, visitor) of
        (Some _, Some v) \<Rightarrow>
          (case content of
             None \<Rightarrow> (- 1, user)
           | Some f \<Rightarrow> (0, event_iterate_loop v f 0 user))
      | _ \<Rightarrow> (- 1, user))"

subsection \<open>What a valid audit log is\<close>

definition audit_entry_ok :: "bytes \<times> bytes \<Rightarrow> bool" where
  "audit_entry_ok e \<longleftrightarrow> length (fst e) = 16 \<and> length (snd e) \<le> 1024 \<and> unat (unpack_u32 (drop 12 (fst e))) = length (snd e)"

fun audit_chain :: "hash_api \<Rightarrow> bytes \<Rightarrow> (bytes \<times> bytes) list \<Rightarrow> bytes" where
  "audit_chain H prev [] = []"
| "audit_chain H prev ((h, p) # es) = h @ p @ audit_hash H prev h p @ audit_chain H (audit_hash H prev h p) es"

fun audit_final :: "hash_api \<Rightarrow> bytes \<Rightarrow> (bytes \<times> bytes) list \<Rightarrow> bytes" where
  "audit_final H prev [] = prev"
| "audit_final H prev ((h, p) # es) = audit_final H (audit_hash H prev h p) es"

definition audit_whole :: "hash_api \<Rightarrow> bytes \<Rightarrow> bool" where
  "audit_whole H f \<longleftrightarrow> (\<exists>es. list_all audit_entry_ok es \<and> f = audit_chain H (replicate 32 0) es)"

lemma length_audit_hash: "hash_law H \<Longrightarrow> length (audit_hash H prev h p) = 32"
  by (simp add: audit_hash_def hash_law_def)

lemma audit_verify_short: "length f < 16 \<Longrightarrow> audit_verify_loop H prev f = 0"
  by (subst audit_verify_loop.simps) simp

lemma audit_verify_entry:
  assumes "hash_law H" "audit_entry_ok (h, p)" "length x = 32"
  shows "audit_verify_loop H prev (h @ p @ x @ rest) =
    (if x = audit_hash H prev h p then audit_verify_loop H x rest else - 1)"
proof -
  have e: "length h = 16" "length p \<le> 1024" "unat (unpack_u32 (drop 12 h)) = length p"
    using assms(2) by (simp_all add: audit_entry_ok_def)
  then have "\<not> unpack_u32 (drop 12 h) > 1024" by (simp add: word_less_nat_alt)
  then show ?thesis using e assms(3) by (subst audit_verify_loop.simps) (auto simp: Let_def)
qed

lemma audit_verify_chain:
  assumes "hash_law H" "list_all audit_entry_ok es"
  shows "audit_verify_loop H prev (audit_chain H prev es @ t) = audit_verify_loop H (audit_final H prev es) t"
  using assms(2)
proof (induction es arbitrary: prev)
  case (Cons e es)
  then show ?case using audit_verify_entry [OF assms(1)] length_audit_hash [OF assms(1)] by (cases e) simp
qed simp

lemma audit_verify_parses:
  assumes "audit_verify_loop H prev f = 0"
  shows "\<exists>es t. list_all audit_entry_ok es \<and> length t < 16 \<and> f = audit_chain H prev es @ t"
  using assms
proof (induction "length f" arbitrary: prev f rule: less_induct)
  case less
  show ?case
  proof (cases "length f < 16")
    case True
    then have "list_all audit_entry_ok [] \<and> length f < 16 \<and> f = audit_chain H prev [] @ f" by simp
    then show ?thesis by blast
  next
    case False
    define h where "h = take 16 f"
    define n where "n = unat (unpack_u32 (drop 12 h))"
    define p where "p = take n (drop 16 f)"
    define x where "x = take 32 (drop n (drop 16 f))"
    define r where "r = drop 32 (drop n (drop 16 f))"
    from less.prems False have c: "\<not> unpack_u32 (drop 12 h) > 1024" "unpack_u32 (drop 12 h) > 0 \<longrightarrow> n \<le> length (drop 16 f)"
      "32 \<le> length (drop n (drop 16 f))" "x = audit_hash H prev h p" "audit_verify_loop H x r = 0"
      by (subst (asm) audit_verify_loop.simps; auto simp: Let_def h_def n_def p_def x_def r_def split: if_splits)+
    have "0 < n \<longrightarrow> n \<le> length (drop 16 f)" using c(2) by (simp add: n_def word_less_nat_alt)
    moreover have "length h = 16" using False by (simp add: h_def)
    ultimately have e: "audit_entry_ok (h, p)" using c(1) by (auto simp: audit_entry_ok_def p_def n_def [symmetric] word_less_nat_alt)
    have f: "f = h @ p @ x @ r" unfolding h_def p_def x_def r_def by (simp only: append_take_drop_id)
    have "length r < length f" using False by (simp add: r_def)
    from less.hyps [OF this c(5)] obtain es t where "list_all audit_entry_ok es" "length t < 16" "r = audit_chain H x es @ t" by blast
    then have "list_all audit_entry_ok ((h, p) # es) \<and> length t < 16 \<and> f = audit_chain H prev ((h, p) # es) @ t"
      using e f c(4) by simp
    then show ?thesis by blast
  qed
qed

lemma audit_chain_snoc: "audit_chain H prev (es @ [(h, p)]) =
    audit_chain H prev es @ h @ p @ audit_hash H (audit_final H prev es) h p"
  by (induction es arbitrary: prev) auto

lemma audit_final_snoc: "audit_final H prev (es @ [(h, p)]) = audit_hash H (audit_final H prev es) h p"
  by (induction es arbitrary: prev) auto

lemma length_audit_final:
  assumes "hash_law H" "length prev = 32"
  shows "length (audit_final H prev es) = 32"
  using assms by (induction es rule: rev_induct) (auto simp: audit_final_snoc length_audit_hash)

definition collision :: "hash_api \<Rightarrow> bool" where
  "collision H \<longleftrightarrow> (\<exists>x y. x \<noteq> y \<and> sha256 H x = sha256 H y)"

lemma audit_chain_unique:
  assumes "hash_law H" "\<not> collision H" "length prev = 32"
    and "list_all audit_entry_ok es" "list_all audit_entry_ok es'"
    and "length (audit_chain H prev es) = length (audit_chain H prev es')" "audit_final H prev es = audit_final H prev es'"
  shows "es = es'"
  using assms(4-7)
proof (induction es arbitrary: es' rule: rev_induct)
  case Nil
  then show ?case by (cases es') (auto simp: audit_entry_ok_def length_audit_hash [OF assms(1)])
next
  case (snoc e es)
  obtain h p where e: "e = (h, p)" by fastforce
  from snoc.prems(1,3) have "length (audit_chain H prev es') \<noteq> 0"
    by (auto simp: e audit_chain_snoc audit_entry_ok_def)
  then obtain es1 h' p' where es': "es' = es1 @ [(h', p')]" by (cases es' rule: rev_cases) auto
  have ok: "length h = 16" "length h' = 16" using snoc.prems(1,2) by (simp_all add: e es' audit_entry_ok_def)
  have fl: "length (audit_final H prev es) = 32" "length (audit_final H prev es1) = 32"
    using length_audit_final [OF assms(1,3)] by simp_all
  have "sha256 H (audit_final H prev es @ h @ p) = sha256 H (audit_final H prev es1 @ h' @ p')"
    using snoc.prems(4) by (simp add: e es' audit_final_snoc audit_hash_def)
  then have "audit_final H prev es @ h @ p = audit_final H prev es1 @ h' @ p'"
    using assms(2) unfolding collision_def by blast
  then have eq: "audit_final H prev es = audit_final H prev es1" "h = h'" "p = p'" using fl ok by simp_all
  moreover have "es = es1"
    using snoc.prems eq by (intro snoc.IH) (auto simp: e es' audit_chain_snoc)
  ultimately show ?case by (simp add: e es')
qed

subsection \<open>What the audit log writes\<close>

definition audit_log_ok :: "hash_api \<Rightarrow> sl_audit_log \<Rightarrow> bool" where
  "audit_log_ok H l \<longleftrightarrow> (\<exists>es. list_all audit_entry_ok es \<and> al_fp l = audit_chain H (replicate 32 0) es
     \<and> al_prev_hash l = audit_final H (replicate 32 0) es)"

lemma audit_append_ok:
  assumes "audit_log_ok H l" "sl_audit_log_append H wr ts (Some l) ev payload = (0, Some l')"
  shows "audit_log_ok H l'"
proof -
  from assms(1) obtain es where es: "list_all audit_entry_ok es" "al_fp l = audit_chain H (replicate 32 0) es"
    "al_prev_hash l = audit_final H (replicate 32 0) es" by (auto simp: audit_log_ok_def)
  define p where "p = (case payload of None \<Rightarrow> [] | Some s \<Rightarrow> s)"
  define h where "h = audit_header (now_ms ts) ev (length p)"
  define x where "x = audit_hash H (al_prev_hash l) h p"
  from assms(2) have len: "length p \<le> 1024" by (auto simp: sl_audit_log_append_def p_def [symmetric] Let_def split: if_splits)
  obtain ok f where w: "fwrite_all ([(wr 0, h)] @ (if length p > 0 then [(wr 1, p)] else []) @ [(wr 2, x)]) (al_fp l) = (ok, f)" by fastforce
  have "sl_audit_log_append H wr ts (Some l) ev payload =
      (if \<not> ok then (- 1, Some (l\<lparr>al_fp := f\<rparr>)) else (0, Some (l\<lparr>al_fp := f, al_prev_hash := x\<rparr>)))"
    unfolding sl_audit_log_append_def option.case p_def [symmetric] Let_def h_def [symmetric] x_def [symmetric] w prod.case
    using len by simp
  then have "ok \<and> l' = l\<lparr>al_fp := f, al_prev_hash := x\<rparr>" using assms(2) by (auto split: if_splits)
  moreover have "f = al_fp l @ h @ p @ x" if o: ok
    using fwrite_all_ok [OF w [unfolded eqTrueI [OF o]]] by (cases p) simp_all
  moreover have "length h = 16" "unat (unpack_u32 (drop 12 h)) = length p" using len by (simp_all add: h_def audit_header_def)
  ultimately have "list_all audit_entry_ok (es @ [(h, p)]) \<and> al_fp l' = audit_chain H (replicate 32 0) (es @ [(h, p)])
     \<and> al_prev_hash l' = audit_final H (replicate 32 0) (es @ [(h, p)])"
    using es len by (simp add: audit_entry_ok_def audit_chain_snoc audit_final_snoc x_def)
  then show ?thesis unfolding audit_log_ok_def by blast
qed

lemma audit_reopen:
  assumes "hash_law H" "audit_log_ok H l"
  shows "sl_audit_log_open True (Some (al_fp l)) True (Some path) = Some l"
proof -
  from assms(2) obtain es where es: "al_fp l = audit_chain H (replicate 32 0) es"
    "al_prev_hash l = audit_final H (replicate 32 0) es" by (auto simp: audit_log_ok_def)
  show ?thesis
  proof (cases es rule: rev_cases)
    case Nil
    with es show ?thesis by (simp add: sl_audit_log_open_def)
  next
    case (snoc es1 e)
    obtain h p where e: "e = (h, p)" by fastforce
    have "al_fp l = audit_chain H (replicate 32 0) es1 @ h @ p @ al_prev_hash l"
      using es by (simp add: snoc e audit_chain_snoc audit_final_snoc)
    moreover have "length (al_prev_hash l) = 32" using es(2) by (simp add: snoc e audit_final_snoc length_audit_hash [OF assms(1)])
    ultimately have "fread 32 (length (al_fp l) - 32) (al_fp l) = al_prev_hash l" "32 \<le> length (al_fp l)" by (simp_all add: fread_def)
    then show ?thesis by (simp add: sl_audit_log_open_def)
  qed
qed

lemma audit_whole_last:
  assumes "hash_law H" "list_all audit_entry_ok es" "f = audit_chain H (replicate 32 0) es" "f \<noteq> []"
  shows "drop (length f - 32) f = audit_final H (replicate 32 0) es"
proof (cases es rule: rev_cases)
  case (snoc es1 e)
  then show ?thesis using assms by (cases e) (simp add: audit_chain_snoc audit_final_snoc length_audit_hash)
qed (use assms in simp)

fun audit_appends ::
  "hash_api \<Rightarrow> (clock_reading \<times> sl_audit_event_t \<times> bytes ptr \<times> (nat \<Rightarrow> fwrite_answer)) list \<Rightarrow> sl_audit_log ptr \<Rightarrow> bool \<times> sl_audit_log ptr" where
  "audit_appends H [] L = (True, L)"
| "audit_appends H ((ts, ev, p, wr) # xs) L =
     (case sl_audit_log_append H wr ts L ev p of (rc, L1) \<Rightarrow> if rc \<noteq> 0 then (False, L1) else audit_appends H xs L1)"

lemma audit_appends_ok:
  "audit_log_ok H l \<Longrightarrow> audit_appends H xs (Some l) = (True, L) \<Longrightarrow> \<exists>l'. L = Some l' \<and> audit_log_ok H l'"
proof (induction xs arbitrary: l)
  case (Cons x xs)
  obtain ts ev p wr where x: "x = (ts, ev, p, wr)" by (metis surj_pair)
  obtain rc L1 where a: "sl_audit_log_append H wr ts (Some l) ev p = (rc, L1)" by fastforce
  with Cons.prems(2) have rc: "rc = 0" "audit_appends H xs L1 = (True, L)" by (auto simp: x split: if_splits)
  from a obtain l1 where "L1 = Some l1" by (auto simp: sl_audit_log_append_def Let_def split: if_splits prod.splits option.splits)
  then show ?case using Cons.IH [of l1] audit_append_ok [OF Cons.prems(1), of wr ts ev p l1] a rc by simp
qed auto


definition audit_example :: "(clock_reading \<times> sl_audit_event_t \<times> bytes ptr \<times> (nat \<Rightarrow> fwrite_answer)) list" where
  "audit_example = [(None, 1, Some [65], \<lambda>_. None), (None, 10, NULL, \<lambda>_. None)]"

lemma audit_example_appends:
  "\<exists>l. audit_appends toy_hash audit_example (sl_audit_log_open True (Some []) True (Some [97])) = (True, Some l) \<and> length (al_fp l) = 97"
  by (simp add: audit_example_def sl_audit_log_open_def sl_audit_log_append_def audit_header_def audit_hash_def toy_hash_def
      fwrite_def Let_def)


text \<open>
  The chain has no key: whoever can write the file can rewrite all of it, and a file cut back to
  fewer entries, or in the middle of a header, verifies as well.
\<close>

lemma audit_rewrite_verifies:
  assumes "hash_law H" "list_all audit_entry_ok es" "length t < 16"
  shows "sl_audit_log_verify H (Some (audit_chain H (replicate 32 0) es @ t)) = 0"
  using assms by (simp add: sl_audit_log_verify_def audit_verify_chain audit_verify_short)

subsection \<open>What the event log writes and reads\<close>

lemma varint_encode_eq: "10 \<le> cap \<Longrightarrow> sl_varint_encode_u64 v (Some cap) = Some (varint_bytes v)"
  using u64_less [of v] length_varint_bytes [of 10 v] by (simp add: sl_varint_encode_u64_def varint_encode_loop_eq)

lemma varint_decode_eq: "sl_varint_decode_u64 (Some (varint_bytes v @ rest)) OUT = Some (v, length (varint_bytes v))"
  using u64_less [of v] varint_decode_bytes [of v 0 0 rest 0] by (simp add: sl_varint_decode_u64_def)

lemma varint_bytes_len: "0 < length (varint_bytes v)" "length (varint_bytes v) \<le> 10"
proof -
  show "0 < length (varint_bytes v)" by (subst varint_bytes.simps) simp
  show "length (varint_bytes v) \<le> 10" using u64_less [of v] length_varint_bytes [of 10 v] by simp
qed

definition event_head :: "u64 \<Rightarrow> u64 \<Rightarrow> sl_event_type_t \<Rightarrow> nat \<Rightarrow> bytes" where
  "event_head seq now ty plen = varint_bytes seq @ varint_bytes now @ varint_bytes (ucast ty) @ varint_bytes (of_nat plen)"

lemma event_head_len: "0 < length (event_head seq now ty plen)" "length (event_head seq now ty plen) \<le> 40"
  using varint_bytes_len(1) [of seq] varint_bytes_len(2) [of seq] varint_bytes_len(2) [of now] varint_bytes_len(2) [of "ucast ty"]
    varint_bytes_len(2) [of "of_nat plen"]
  by (auto simp: event_head_def)

lemma event_header_eq: "event_header seq now ty plen = Some (event_head seq now ty plen)"
  using varint_bytes_len(2) [of seq] varint_bytes_len(2) [of now] varint_bytes_len(2) [of "ucast ty"]
  by (simp add: event_header_def event_head_def varint_encode_eq)

lemma event_header_decode_eq:
  assumes "40 \<le> n"
  shows "event_header_decode (take n (event_head seq now ty plen @ rest)) =
    Some (seq, now, ucast ty, of_nat plen, length (event_head seq now ty plen))"
proof -
  let ?v = "varint_bytes"
  define r where "r = take (n - length (event_head seq now ty plen)) rest"
  have t: "take n (event_head seq now ty plen @ rest) = ?v seq @ ?v now @ ?v (ucast ty) @ ?v (of_nat plen) @ r"
    using assms event_head_len(2) [of seq now ty plen] by (simp add: r_def event_head_def add.assoc)
  show ?thesis unfolding t event_header_decode_def
    by (simp add: varint_decode_eq event_head_def add.assoc)
qed

definition event_record :: "u64 \<Rightarrow> u64 \<Rightarrow> sl_event_type_t \<Rightarrow> bytes \<Rightarrow> bytes" where
  "event_record seq now ty p = event_head seq now ty (length p) @ p @ pack_u32 (sl_crc32c (event_head seq now ty (length p) @ p))"

fun event_file :: "u64 \<Rightarrow> (clock_reading \<times> sl_event_type_t \<times> bytes) list \<Rightarrow> bytes" where
  "event_file seq [] = []"
| "event_file seq ((ts, ty, p) # xs) = event_record seq (now_ns ts) ty p @ event_file (seq + 1) xs"

fun event_records :: "u64 \<Rightarrow> (clock_reading \<times> sl_event_type_t \<times> bytes) list \<Rightarrow> sl_event_record_t list" where
  "event_records seq [] = []"
| "event_records seq ((ts, ty, p) # xs) =
     \<lparr>er_seq = seq, er_timestamp_ns = now_ns ts, er_type = ty, er_payload = (if p = [] then NULL else Some p), er_payload_len = length p\<rparr>
     # event_records (seq + 1) xs"

fun visit_all :: "'u sl_event_visitor_fn \<Rightarrow> sl_event_record_t list \<Rightarrow> 'u \<Rightarrow> 'u" where
  "visit_all v [] u = u"
| "visit_all v (r # rs) u = (case v r u of (rc, u') \<Rightarrow> if rc \<noteq> 0 then u' else visit_all v rs u')"

fun event_appends :: "(clock_reading \<times> sl_event_type_t \<times> bytes) list \<Rightarrow> sl_event_log ptr \<Rightarrow> bool \<times> sl_event_log ptr" where
  "event_appends [] L = (True, L)"
| "event_appends ((ts, ty, p) # xs) L =
     (case sl_event_log_append (\<lambda>_. None) ts L ty (Some p) (length p) of
        (rc, L1) \<Rightarrow> if rc \<noteq> 0 then (False, L1) else event_appends xs L1)"

lemma event_append_eq:
  assumes "length p \<le> 1048576"
  shows "sl_event_log_append (\<lambda>_. None) ts (Some l) ty (Some p) (length p) =
    (0, Some (l\<lparr>el_fp := el_fp l @ event_record (el_next_seq l) (now_ns ts) ty p, el_next_seq := el_next_seq l + 1\<rparr>))"
proof -
  let ?h = "event_head (el_next_seq l) (now_ns ts) ty (length p)"
  have "sl_crc32c_update (sl_crc32c_update sl_crc32c_init ?h) p = sl_crc32c_update sl_crc32c_init (?h @ p)"
    by (simp add: sl_crc32c_update_append)
  moreover have "fwrite_all ((None, ?h) # (if length p > 0 then [(None, p)] else [])) (el_fp l) = (True, el_fp l @ ?h @ p)"
    using fwrite_all_taken [of "(None, ?h) # (if length p > 0 then [(None, p)] else [])" "el_fp l"] by (cases p) simp_all
  ultimately show ?thesis
    using assms by (cases p) (simp_all add: sl_event_log_append_def event_header_eq Let_def mem_take_def fwrite_def event_record_def sl_crc32c_def)
qed

lemma event_appends_eq:
  assumes "list_all (\<lambda>(ts, ty, p). length p \<le> 1048576) xs"
  shows "event_appends xs (Some l) = (True, Some (l\<lparr>el_fp := el_fp l @ event_file (el_next_seq l) xs,
    el_next_seq := el_next_seq l + of_nat (length xs)\<rparr>))"
  using assms
proof (induction xs arbitrary: l)
  case (Cons x xs)
  obtain ts ty p where x: "x = (ts, ty, p)" by (metis surj_pair)
  from Cons.prems have "length p \<le> 1048576" by (simp add: x)
  from event_append_eq [OF this] Cons.IH [of "l\<lparr>el_fp := el_fp l @ event_record (el_next_seq l) (now_ns ts) ty p, el_next_seq := el_next_seq l + 1\<rparr>"] Cons.prems
  show ?case by (simp add: x add.assoc)
qed simp

lemma sint_small: "n < 2 ^ 63 \<Longrightarrow> sint (of_nat n :: u64) = int n"
  by (simp add: sint_uint uint_nat signed_take_bit_int_eq_self)

lemma event_scan_file:
  assumes "list_all (\<lambda>(ts, ty, p). length p \<le> 1048576) xs" "unat seq + length xs < 2 ^ 64"
  shows "event_scan (pre @ event_file seq xs) (length pre) seq = Some (seq + of_nat (length xs))"
  using assms
proof (induction xs arbitrary: pre seq)
  case Nil
  then show ?case by (subst event_scan.simps) (simp add: fread_def)
next
  case (Cons x xs)
  obtain ts ty p where x: "x = (ts, ty, p)" by (metis surj_pair)
  from Cons.prems have p: "length p \<le> 1048576" by (simp add: x)
  define h where "h = event_head seq (now_ns ts) ty (length p)"
  define r where "r = event_record seq (now_ns ts) ty p"
  define rest where "rest = event_file (seq + 1) xs"
  have f: "pre @ event_file seq (x # xs) = pre @ r @ rest" by (simp add: x r_def rest_def)
  have r: "r @ rest = h @ (p @ pack_u32 (sl_crc32c (h @ p)) @ rest)" by (simp add: r_def h_def event_record_def)
  define hdr where "hdr = take 64 (r @ rest)"
  have hd: "fread 64 (length pre) (pre @ r @ rest) = hdr" by (simp add: fread_def hdr_def)
  have ne: "hdr \<noteq> []" using event_head_len(1) [of seq "now_ns ts" ty "length p"] by (simp add: hdr_def r h_def)
  have dec: "event_header_decode hdr = Some (seq, now_ns ts, ucast ty, of_nat (length p), length h)"
    unfolding hdr_def r h_def by (rule event_header_decode_eq) simp
  have s: "unat (seq + 1) = unat seq + 1" using Cons.prems(2) by (simp add: unat_word_ariths)
  have "sint (of_nat (length p) :: u64) = int (length p)" using p by (intro sint_small) simp
  then have t: "int (length pre) + int (length h) + sint (of_nat (length p) :: u64) + 4 = int (length (pre @ r))"
    by (simp add: r_def h_def event_record_def)
  have "event_scan (pre @ r @ rest) (length pre) seq = event_scan (pre @ r @ rest) (length (pre @ r)) (seq + 1)"
    by (subst event_scan.simps) (simp add: hd ne dec t Let_def del: length_append)
  also have "\<dots> = Some (seq + of_nat (length (x # xs)))"
    using Cons.IH [of "seq + 1" "pre @ r"] Cons.prems s by (simp add: rest_def add.assoc)
  finally show ?case unfolding f .
qed

lemma event_iterate_file:
  assumes "list_all (\<lambda>(ts, ty, p). length p \<le> 1048576) xs"
  shows "event_iterate_loop v (pre @ event_file seq xs) (length pre) u = visit_all v (event_records seq xs) u"
  using assms
proof (induction xs arbitrary: pre seq u)
  case Nil
  then show ?case by (subst event_iterate_loop.simps) (simp add: fread_def)
next
  case (Cons x xs)
  obtain ts ty p where x: "x = (ts, ty, p)" by (metis surj_pair)
  from Cons.prems have p: "length p \<le> 1048576" by (simp add: x)
  define h where "h = event_head seq (now_ns ts) ty (length p)"
  define r where "r = event_record seq (now_ns ts) ty p"
  define rest where "rest = event_file (seq + 1) xs"
  define rec where "rec = \<lparr>er_seq = seq, er_timestamp_ns = now_ns ts, er_type = ty,
    er_payload = (if p = [] then NULL else Some p), er_payload_len = length p\<rparr>"
  have f: "pre @ event_file seq (x # xs) = pre @ r @ rest" by (simp add: x r_def rest_def)
  have r: "r @ rest = h @ (p @ pack_u32 (sl_crc32c (h @ p)) @ rest)" by (simp add: r_def h_def event_record_def)
  define hdr where "hdr = take 40 (r @ rest)"
  have hd: "fread 40 (length pre) (pre @ r @ rest) = hdr" by (simp add: fread_def hdr_def)
  have ne: "hdr \<noteq> []" using event_head_len(1) [of seq "now_ns ts" ty "length p"] by (simp add: hdr_def r h_def)
  have dec: "event_header_decode hdr = Some (seq, now_ns ts, ucast ty, of_nat (length p), length h)"
    unfolding hdr_def r h_def by (rule event_header_decode_eq) simp
  have len: "unat (of_nat (length p) :: u64) = length p" "length r = length h + length p + 4"
    using p by (simp_all add: r_def h_def event_record_def)
  have pay: "fread (length p) (length pre + length h) (pre @ r @ rest) = p"
    "fread 4 (length pre + length h + length p) (pre @ r @ rest) = pack_u32 (sl_crc32c (h @ p))"
    unfolding r by (simp_all add: fread_def)
  have ty: "ucast (ucast ty :: u64) = ty" by (rule bit_word_eqI) (auto simp: bit_simps)
  have n: "length (pre @ r) = length pre + length h + length p + 4" using len(2) by simp
  obtain rc u' where vr: "v rec u = (rc, u')" by fastforce
  have k: "(if length p > 0 then Some p else NULL) = (if p = [] then NULL else Some p)" "(0 < length p \<and> length p \<noteq> length p) = False" by auto
  have "event_iterate_loop v (pre @ r @ rest) (length pre) u =
      (if rc \<noteq> 0 then u' else event_iterate_loop v (pre @ r @ rest) (length (pre @ r)) u')"
    using p unfolding n
    by (subst event_iterate_loop.simps) (simp only: hd ne dec len(1) pay ty Let_def k option.case prod.case if_False not_less [symmetric] length_pack rec_def [symmetric] vr simp_thms)
  then show ?case
    using Cons.IH [of "pre @ r" "seq + 1"] Cons.prems by (simp add: x rest_def [symmetric] rec_def [symmetric] r_def [symmetric] vr)
qed

text \<open>
  The event log is read back as it was written. Events appended to a new log get the sequence
  numbers 1, 2 and so on; iterating over the file hands exactly them to the visitor, in order, with
  their types, times and payloads, until the visitor asks to stop; and opening the file again ends
  its scan and continues with the next number.
\<close>

theorem event_log_roundtrip:
  assumes "list_all (\<lambda>(ts, ty, p). length p \<le> 1048576) xs" "length xs < 2 ^ 64 - 1"
  shows "\<exists>l0 l. sl_event_log_open True (Some []) (Some path) = Some (Some l0) \<and> event_appends xs (Some l0) = (True, Some l)
    \<and> sl_event_log_seq (Some l) = of_nat (length xs) + 1
    \<and> sl_event_log_iterate (Some (el_fp l)) (Some path) (Some v) u = (0, visit_all v (event_records 1 xs) u)
    \<and> sl_event_log_open True (Some (el_fp l)) (Some path) = Some (Some l)"
proof -
  have s0: "event_scan [] 0 1 = Some 1" by (subst event_scan.simps) (simp add: fread_def)
  define l where "l = \<lparr>el_fp = event_file 1 xs, el_next_seq = 1 + of_nat (length xs)\<rparr>"
  have "event_appends xs (Some \<lparr>el_fp = [], el_next_seq = 1\<rparr>) = (True, Some l)"
    using event_appends_eq [OF assms(1), of "\<lparr>el_fp = [], el_next_seq = 1\<rparr>"] by (simp add: l_def)
  moreover have "sl_event_log_open True (Some (el_fp l)) (Some path) = Some (Some l)"
    using event_scan_file [OF assms(1), of 1 "[]"] assms(2) by (simp add: sl_event_log_open_def l_def)
  moreover have "sl_event_log_iterate (Some (el_fp l)) (Some path) (Some v) u = (0, visit_all v (event_records 1 xs) u)"
    using event_iterate_file [OF assms(1), of v "[]" 1 u] by (simp add: sl_event_log_iterate_def l_def)
  ultimately show ?thesis using s0 by (simp add: sl_event_log_open_def l_def sl_event_log_seq_def add.commute)
qed

definition event_example :: "(clock_reading \<times> sl_event_type_t \<times> bytes) list" where
  "event_example = [(Some (2, 5), 3, [65, 66]), (None, 99, [])]"

theorem event_log_roundtrip_witness:
  "\<exists>l0 l. sl_event_log_open True (Some []) (Some [97]) = Some (Some l0) \<and> event_appends event_example (Some l0) = (True, Some l)
    \<and> sl_event_log_seq (Some l) = 3
    \<and> sl_event_log_iterate (Some (el_fp l)) (Some [97]) (Some (\<lambda>r u. (0, u @ [(er_seq r, er_timestamp_ns r, er_type r, er_payload r)]))) [] =
        (0, [(1, 2000000005, 3, Some [65, 66]), (2, 0, 99, NULL)])
    \<and> sl_event_log_open True (Some (el_fp l)) (Some [97]) = Some (Some l)"
  using event_log_roundtrip [of event_example "[97]" "\<lambda>r u. (0, u @ [(er_seq r, er_timestamp_ns r, er_type r, er_payload r)])" "[]"]
  by (simp add: event_example_def now_ns_def)

text \<open>
  The scan follows the payload length of a record without any check. A negative one, as a \<open>long\<close>,
  leads it back, and on a file like this it never ends.
\<close>

definition hanging_log :: bytes where
  "hanging_log = [1, 0, 5, 0xEF, 0xFF, 0xFF, 0xFF, 0xFF, 0xFF, 0xFF, 0xFF, 0xFF, 0x01]"

lemma hanging_header: "event_header_decode hanging_log = Some (1, 0, 5, - 17, 13)"
  by (simp add: event_header_decode_def hanging_log_def sl_varint_decode_u64_def Let_def)

lemma hanging_scan:
  assumes "event_scan f pos q = Some q'"
  shows "\<not> (f = hanging_log \<and> pos = 0 \<and> (q = 1 \<or> q = 2))"
proof (rule event_scan.raw_induct [OF _ assms, where P = "\<lambda>f pos q q'. \<not> (f = hanging_log \<and> pos = 0 \<and> (q = 1 \<or> q = 2))"])
  fix scan :: "bytes \<Rightarrow> nat \<Rightarrow> u64 \<Rightarrow> u64 option" and f pos q q'
  assume IH: "\<And>f pos q q'. scan f pos q = Some q' \<Longrightarrow> \<not> (f = hanging_log \<and> pos = 0 \<and> (q = 1 \<or> q = 2))"
    and s: "(let hdr = fread 64 pos f in if hdr = [] then Some q
        else case event_header_decode hdr of None \<Rightarrow> Some q
          | Some (seq, ts, ty, plen, n) \<Rightarrow> let target = int pos + int n + sint plen + 4;
              pos' = if target < 0 then pos + length hdr else nat target
              in scan f pos' (if seq \<ge> q then seq + 1 else q)) = Some q'"
  show "\<not> (f = hanging_log \<and> pos = 0 \<and> (q = 1 \<or> q = 2))"
  proof
    assume a: "f = hanging_log \<and> pos = 0 \<and> (q = 1 \<or> q = 2)"
    have "fread 64 0 hanging_log = hanging_log" "hanging_log \<noteq> []" by (simp_all add: fread_def hanging_log_def)
    moreover have "\<not> (2 :: u64) \<le> 1" by (simp add: word_le_nat_alt)
    ultimately have "scan hanging_log 0 2 = Some q'" using s a hanging_header by (auto simp: Let_def)
    then show False using IH by blast
  qed
qed

lemma event_log_open_hangs: "sl_event_log_open True (Some hanging_log) (Some path) = None"
  using hanging_scan [of hanging_log 0 1] by (cases "event_scan hanging_log 0 1") (auto simp: sl_event_log_open_def)

end
