(* ===== verification/SL_Harness.thy ===== *)
theory SL_Harness
  imports SL_Log "HOL-Library.AList"
begin

text \<open>
  The replay harness (\<open>replay_harness.cpp\<close>), which drives the events of a log into registered
  handlers. Handlers are the application's and change its state \<open>'w\<close>. A sleep is recorded as its
  length in milliseconds. The two clock readings of a run, in nanoseconds, are arguments.
\<close>

record ReplayEvent =
  ev_seq :: u64
  ev_timestamp_ns :: u64
  ev_type :: sl_event_type_t
  ev_payload :: bytes

type_synonym 'w ReplayHandler = "ReplayEvent \<Rightarrow> 'w \<Rightarrow> 'w"

record ReplayStats =
  events_seen :: u64
  events_dispatched :: u64
  events_skipped :: u64
  elapsed_ns :: u64

record 'w ReplayHarness =
  rh_handlers :: "(int \<times> 'w ReplayHandler) list"
  rh_default_handler :: "'w ReplayHandler ptr"

definition replay_stats_zero :: ReplayStats where
  "replay_stats_zero = \<lparr>events_seen = 0, events_dispatched = 0, events_skipped = 0, elapsed_ns = 0\<rparr>"

definition rh_on :: "sl_event_type_t \<Rightarrow> 'w ReplayHandler \<Rightarrow> 'w ReplayHarness \<Rightarrow> 'w ReplayHarness" where
  "rh_on ty h R = R\<lparr>rh_handlers := AList.update (sint ty) h (rh_handlers R)\<rparr>"

definition rh_on_default :: "'w ReplayHandler ptr \<Rightarrow> 'w ReplayHarness \<Rightarrow> 'w ReplayHarness" where
  "rh_on_default h R = R\<lparr>rh_default_handler := h\<rparr>"

definition rh_dispatch :: "'w ReplayHarness \<Rightarrow> ReplayEvent \<Rightarrow> 'w \<Rightarrow> 'w" where
  "rh_dispatch R ev w =
     (case map_of (rh_handlers R) (sint (ev_type ev)) of
        Some h \<Rightarrow> h ev w
      | None \<Rightarrow> (case rh_default_handler R of Some h \<Rightarrow> h ev w | None \<Rightarrow> w))"

text \<open>What a run threads through: the counters, the previous time, the sleeps and the application.\<close>

record 'w RunCtx =
  rx_stats :: ReplayStats
  rx_respect_timing :: bool
  rx_max_sleep_ms :: u32
  rx_prev_ts_ns :: u64
  rx_sleeps :: "u64 list"
  rx_world :: 'w

definition capped_delay :: "u64 \<Rightarrow> u64 \<Rightarrow> u32 \<Rightarrow> u64" where
  "capped_delay now prev max_sleep_ms =
     (let delta_ms = (now - prev) div 1000000 in
      if delta_ms > ucast max_sleep_ms then ucast max_sleep_ms else delta_ms)"

definition visitor_thunk :: "'w ReplayHarness \<Rightarrow> sl_event_record_t \<Rightarrow> 'w RunCtx \<Rightarrow> int \<times> 'w RunCtx" where
  "visitor_thunk R rec ctx =
     (let st1 = (rx_stats ctx)\<lparr>events_seen := events_seen (rx_stats ctx) + 1\<rparr>;
          ev = \<lparr>ev_seq = er_seq rec, ev_timestamp_ns = er_timestamp_ns rec, ev_type = er_type rec,
                ev_payload = (if er_payload_len rec > 0 then (case er_payload rec of None \<Rightarrow> [] | Some p \<Rightarrow> take (er_payload_len rec) p) else [])\<rparr>;
          sl = (if rx_respect_timing ctx \<and> rx_prev_ts_ns ctx \<noteq> 0 \<and> ev_timestamp_ns ev > rx_prev_ts_ns ctx
                then let delta = capped_delay (ev_timestamp_ns ev) (rx_prev_ts_ns ctx) (rx_max_sleep_ms ctx)
                     in if delta > 0 then [delta] else []
                else []);
          ctx1 = ctx\<lparr>rx_stats := st1, rx_sleeps := rx_sleeps ctx @ sl, rx_prev_ts_ns := ev_timestamp_ns ev\<rparr>;
          handler_present = map_of (rh_handlers R) (sint (ev_type ev)) \<noteq> None
      in (0, if handler_present \<or> rh_default_handler R \<noteq> NULL
             then ctx1\<lparr>rx_world := rh_dispatch R ev (rx_world ctx1), rx_stats := st1\<lparr>events_dispatched := events_dispatched st1 + 1\<rparr>\<rparr>
             else ctx1\<lparr>rx_stats := st1\<lparr>events_skipped := events_skipped st1 + 1\<rparr>\<rparr>))"

definition run_file ::
  "'w ReplayHarness \<Rightarrow> bytes option \<Rightarrow> bytes \<Rightarrow> bool \<Rightarrow> u32 \<Rightarrow> int \<Rightarrow> int \<Rightarrow> 'w \<Rightarrow> ReplayStats \<times> u64 list \<times> 'w" where
  "run_file R content path respect_timing max_sleep_ms t0 t1 w =
     (let ctx = \<lparr>rx_stats = replay_stats_zero, rx_respect_timing = respect_timing, rx_max_sleep_ms = max_sleep_ms,
                 rx_prev_ts_ns = 0, rx_sleeps = [], rx_world = w\<rparr>;
          ctx' = snd (sl_event_log_iterate content (Some path) (Some (visitor_thunk R)) ctx)
      in ((rx_stats ctx')\<lparr>elapsed_ns := word_of_int (t1 - t0)\<rparr>, rx_sleeps ctx', rx_world ctx'))"

text \<open>The loop of \<open>run_events\<close>, a second copy of the same code.\<close>

fun run_events_loop ::
  "'w ReplayHarness \<Rightarrow> bool \<Rightarrow> u32 \<Rightarrow> ReplayEvent list \<Rightarrow> ReplayStats \<Rightarrow> u64 \<Rightarrow> u64 list \<Rightarrow> 'w \<Rightarrow> ReplayStats \<times> u64 list \<times> 'w" where
  "run_events_loop R respect_timing max_sleep_ms [] st prev_ts sl w = (st, sl, w)"
| "run_events_loop R respect_timing max_sleep_ms (ev # evs) st prev_ts sl w =
     (let st1 = st\<lparr>events_seen := events_seen st + 1\<rparr>;
          sl1 = (if respect_timing \<and> prev_ts \<noteq> 0 \<and> ev_timestamp_ns ev > prev_ts
                 then let delta = capped_delay (ev_timestamp_ns ev) prev_ts max_sleep_ms in if delta > 0 then sl @ [delta] else sl
                 else sl)
      in if map_of (rh_handlers R) (sint (ev_type ev)) \<noteq> None \<or> rh_default_handler R \<noteq> NULL
         then run_events_loop R respect_timing max_sleep_ms evs (st1\<lparr>events_dispatched := events_dispatched st1 + 1\<rparr>)
                (ev_timestamp_ns ev) sl1 (rh_dispatch R ev w)
         else run_events_loop R respect_timing max_sleep_ms evs (st1\<lparr>events_skipped := events_skipped st1 + 1\<rparr>)
                (ev_timestamp_ns ev) sl1 w)"

definition run_events ::
  "'w ReplayHarness \<Rightarrow> ReplayEvent list \<Rightarrow> bool \<Rightarrow> u32 \<Rightarrow> int \<Rightarrow> int \<Rightarrow> 'w \<Rightarrow> ReplayStats \<times> u64 list \<times> 'w" where
  "run_events R events respect_timing max_sleep_ms t0 t1 w =
     (let (st, sl, w') = run_events_loop R respect_timing max_sleep_ms events replay_stats_zero 0 [] w
      in (st\<lparr>elapsed_ns := word_of_int (t1 - t0)\<rparr>, sl, w'))"

subsection \<open>A captured run is replayed as it was\<close>

definition event_of :: "sl_event_record_t \<Rightarrow> ReplayEvent" where
  "event_of r = \<lparr>ev_seq = er_seq r, ev_timestamp_ns = er_timestamp_ns r, ev_type = er_type r,
     ev_payload = (case er_payload r of None \<Rightarrow> [] | Some p \<Rightarrow> take (er_payload_len r) p)\<rparr>"

lemma visit_all_thunk:
  "(let c' = visit_all (visitor_thunk R) rs c in (rx_stats c', rx_sleeps c', rx_world c')) =
   run_events_loop R (rx_respect_timing c) (rx_max_sleep_ms c) (map event_of rs) (rx_stats c) (rx_prev_ts_ns c) (rx_sleeps c) (rx_world c)"
proof (induction rs arbitrary: c)
  case (Cons r rs)
  have p: "(if er_payload_len r > 0 then (case er_payload r of None \<Rightarrow> [] | Some p \<Rightarrow> take (er_payload_len r) p) else []) = ev_payload (event_of r)"
    by (simp add: event_of_def split: option.splits)
  have e: "\<lparr>ev_seq = er_seq r, ev_timestamp_ns = er_timestamp_ns r, ev_type = er_type r, ev_payload = ev_payload (event_of r)\<rparr> = event_of r"
    by (simp add: event_of_def)
  have fs: "ev_timestamp_ns (event_of r) = er_timestamp_ns r" "ev_type (event_of r) = er_type r" by (simp_all add: event_of_def)
  obtain c1 where v: "visitor_thunk R r c = (0, c1)" by (simp add: visitor_thunk_def Let_def)
  have c1: "rx_respect_timing c1 = rx_respect_timing c" "rx_max_sleep_ms c1 = rx_max_sleep_ms c" "rx_prev_ts_ns c1 = er_timestamp_ns r"
    using v by (auto simp: visitor_thunk_def Let_def split: if_splits)
  have "run_events_loop R (rx_respect_timing c) (rx_max_sleep_ms c) (map event_of (r # rs)) (rx_stats c) (rx_prev_ts_ns c) (rx_sleeps c) (rx_world c)
      = run_events_loop R (rx_respect_timing c1) (rx_max_sleep_ms c1) (map event_of rs) (rx_stats c1) (rx_prev_ts_ns c1) (rx_sleeps c1) (rx_world c1)"
    using v unfolding c1 by (simp add: visitor_thunk_def p e fs Let_def split: if_splits) (auto simp: e fs split: if_splits)
  then show ?case using Cons.IH [of c1] by (simp add: v)
qed simp

text \<open>
  C31. A captured run replays as the same run. Events that are appended to a new event log and then
  replayed from its file reach the handlers exactly as if they had been replayed from memory: the
  same events in the same order, the same waits between them, the same final state of the
  application and the same counters.
\<close>

theorem replay_file_equals_events:
  assumes "list_all (\<lambda>(ts, ty, p). length p \<le> 1048576) xs" "length xs < 2 ^ 64 - 1"
  shows "\<exists>l0 l. sl_event_log_open True (Some []) (Some path) = Some (Some l0) \<and> event_appends xs (Some l0) = (True, Some l)
    \<and> run_file R (Some (el_fp l)) path respect_timing max_sleep_ms t0 t1 w =
      run_events R (map event_of (event_records 1 xs)) respect_timing max_sleep_ms t0 t1 w"
proof -
  have s0: "event_scan [] 0 1 = Some 1" by (subst event_scan.simps) (simp add: fread_def)
  let ?l = "\<lparr>el_fp = event_file 1 xs, el_next_seq = 1 + of_nat (length xs)\<rparr>"
  define ctx where "ctx = \<lparr>rx_stats = replay_stats_zero, rx_respect_timing = respect_timing, rx_max_sleep_ms = max_sleep_ms,
    rx_prev_ts_ns = 0, rx_sleeps = [], rx_world = w\<rparr>"
  have a: "event_appends xs (Some \<lparr>el_fp = [], el_next_seq = 1\<rparr>) = (True, Some ?l)"
    using event_appends_eq [OF assms(1), of "\<lparr>el_fp = [], el_next_seq = 1\<rparr>"] by simp
  have "snd (sl_event_log_iterate (Some (event_file 1 xs)) (Some path) (Some (visitor_thunk R)) ctx) = visit_all (visitor_thunk R) (event_records 1 xs) ctx"
    using event_iterate_file [OF assms(1), of "visitor_thunk R" "[]" 1 ctx] by (simp add: sl_event_log_iterate_def)
  moreover obtain st sl w' where l: "run_events_loop R respect_timing max_sleep_ms (map event_of (event_records 1 xs)) replay_stats_zero 0 [] w = (st, sl, w')"
    by (metis prod_cases3)
  moreover have "rx_stats (visit_all (visitor_thunk R) (event_records 1 xs) ctx) = st"
    "rx_sleeps (visit_all (visitor_thunk R) (event_records 1 xs) ctx) = sl" "rx_world (visit_all (visitor_thunk R) (event_records 1 xs) ctx) = w'"
    using visit_all_thunk [of R "event_records 1 xs" ctx] l by (simp_all add: Let_def) (simp_all add: ctx_def)
  ultimately have "run_file R (Some (el_fp ?l)) path respect_timing max_sleep_ms t0 t1 w =
      run_events R (map event_of (event_records 1 xs)) respect_timing max_sleep_ms t0 t1 w"
    by (simp add: run_file_def run_events_def ctx_def [symmetric] Let_def)
  then show ?thesis using a s0 by (auto simp: sl_event_log_open_def)
qed

definition harness_example :: "u64 list ReplayHarness" where
  "harness_example = \<lparr>rh_handlers = [(3, \<lambda>ev w. w @ [ev_seq ev])], rh_default_handler = NULL\<rparr>"

theorem replay_file_equals_events_witness:
  "\<exists>l0 l. sl_event_log_open True (Some []) (Some [97]) = Some (Some l0) \<and> event_appends event_example (Some l0) = (True, Some l)
    \<and> run_file harness_example (Some (el_fp l)) [97] True 5 0 9 [] =
      (\<lparr>events_seen = 2, events_dispatched = 1, events_skipped = 1, elapsed_ns = 9\<rparr>, [], [1])"
  using replay_file_equals_events [of event_example "[97]" harness_example True 5 0 9 "[]"]
  by (simp add: event_example_def now_ns_def harness_example_def run_events_def replay_stats_zero_def event_of_def rh_dispatch_def Let_def)

end
