(* ===== verification/SL_Kv.thy ===== *)
theory SL_Kv
  imports SL_Stdio SL_File SL_Table SL_Log
begin

text \<open>
  The key-value store (\<open>sl_kvstore.c\<close>) and its typed facade (\<open>state_store.cpp\<close>): an append-only file
  of records, and an index in memory, on the chained table of SL_Table, that holds for each key where
  its record is. The answers of \<open>fwrite\<close> and the success of allocations are arguments. \<open>fseek\<close> fails
  for a negative position only. A write outside the caller's buffer is the outer \<open>None\<close>.
\<close>

subsection \<open>Store\<close>

abbreviation (input) SL_KV_FLAG_TOMB :: u8 where "SL_KV_FLAG_TOMB \<equiv> 1"

record kv_entry =
  ke_key :: bytes
  ke_file_offset :: nat
  ke_vlen :: nat
  ke_flags :: u8

record sl_kvstore =
  kv_fp :: bytes
  kv_buckets :: "kv_entry list list"
  kv_count :: nat

definition kv_find_entry :: "sl_kvstore \<Rightarrow> bytes \<Rightarrow> kv_entry ptr" where
  "kv_find_entry kv key = tbl_find ke_key (kv_buckets kv) key"

definition kv_upsert_entry :: "bool \<Rightarrow> sl_kvstore \<Rightarrow> bytes \<Rightarrow> kv_entry ptr \<times> sl_kvstore" where
  "kv_upsert_entry alloc_ok kv key =
     (case kv_find_entry kv key of
        Some e \<Rightarrow> (Some e, kv)
      | None \<Rightarrow>
          if \<not> alloc_ok then (NULL, kv)
          else let ne = \<lparr>ke_key = key, ke_file_offset = 0, ke_vlen = 0, ke_flags = 0\<rparr>
               in (Some ne, kv\<lparr>kv_buckets := tbl_cons ke_key ne (kv_buckets kv), kv_count := kv_count kv + 1\<rparr>))"

text \<open>An entry changed through its pointer.\<close>

definition kv_entry_write :: "kv_entry \<Rightarrow> sl_kvstore \<Rightarrow> sl_kvstore" where
  "kv_entry_write e kv = kv\<lparr>kv_buckets := tbl_set ke_key e (kv_buckets kv)\<rparr>"

definition kv_header :: "nat \<Rightarrow> nat \<Rightarrow> u8 \<Rightarrow> bytes option" where
  "kv_header klen vlen flags =
     (case sl_varint_encode_u64 (of_nat klen) (Some 21) of
        None \<Rightarrow> None
      | Some a \<Rightarrow>
     (case sl_varint_encode_u64 (of_nat vlen) (Some (21 - length a)) of
        None \<Rightarrow> None
      | Some b \<Rightarrow> Some (a @ b @ [flags])))"

definition write_record :: "(nat \<Rightarrow> fwrite_answer) \<Rightarrow> bytes \<Rightarrow> bytes \<Rightarrow> bytes \<Rightarrow> u8 \<Rightarrow> nat option \<times> bytes" where
  "write_record wr f key value flags =
     (case kv_header (length key) (length value) flags of
        None \<Rightarrow> (None, f)
      | Some hdr \<Rightarrow>
          let off = length f;
              crc1 = sl_crc32c_update (sl_crc32c_update sl_crc32c_init hdr) key;
              crc = sl_crc32c_finalize (if length value > 0 then sl_crc32c_update crc1 value else crc1);
              (ok, f') = fwrite_all ([(wr 0, hdr), (wr 1, key)] @ (if length value > 0 then [(wr 2, value)] else [])
                           @ [(wr 3, pack_u32 crc)]) f
          in (if ok then Some off else None, f'))"

text \<open>The scan of the file: from one record to the next, while they are well formed.\<close>

definition kv_record_head :: "bytes \<Rightarrow> nat \<Rightarrow> (u64 \<times> u64 \<times> u8 \<times> nat) option" where
  "kv_record_head f pos =
     (let hdr_buf = fread 21 pos f in
      if hdr_buf = [] then None
      else
        (case sl_varint_decode_u64 (Some hdr_buf) OUT of
           None \<Rightarrow> None
         | Some (klen, kn) \<Rightarrow>
        (case sl_varint_decode_u64 (Some (drop kn hdr_buf)) OUT of
           None \<Rightarrow> None
         | Some (vlen, vn) \<Rightarrow>
             if kn + vn + 1 > length hdr_buf then None
             else Some (klen, vlen, hdr_buf ! (kn + vn), pos + kn + vn + 1))))"

definition kv_index_record :: "bool \<Rightarrow> bytes \<Rightarrow> u64 \<Rightarrow> u8 \<Rightarrow> nat \<Rightarrow> sl_kvstore \<Rightarrow> sl_kvstore" where
  "kv_index_record alloc_ok key vlen flags key_off kv =
     (if flags AND SL_KV_FLAG_TOMB \<noteq> 0 then
        (case kv_find_entry kv key of
           None \<Rightarrow> kv
         | Some e \<Rightarrow> kv_entry_write (e\<lparr>ke_flags := ke_flags e OR SL_KV_FLAG_TOMB\<rparr>) kv)
      else
        (case kv_upsert_entry alloc_ok kv key of
           (None, kv1) \<Rightarrow> kv1
         | (Some e, kv1) \<Rightarrow>
             kv_entry_write (e\<lparr>ke_file_offset := key_off + length key, ke_vlen := unat vlen, ke_flags := 0\<rparr>) kv1))"

partial_function (option) kv_replay :: "bool \<Rightarrow> nat \<Rightarrow> sl_kvstore \<Rightarrow> sl_kvstore option" where
  "kv_replay alloc_ok pos kv =
     (case kv_record_head (kv_fp kv) pos of
        None \<Rightarrow> Some kv
      | Some (klen, vlen, flags, key_off) \<Rightarrow>
          if klen > 4096 then Some kv
          else
            let key = fread (unat klen) key_off (kv_fp kv) in
            if length key \<noteq> unat klen then Some kv
            else
              let kv1 = kv_index_record alloc_ok key vlen flags key_off kv;
                  here = int (key_off + unat klen);
                  next = (if flags AND SL_KV_FLAG_TOMB \<noteq> 0 then here else here + sint vlen)
              in if next < 0 then Some kv1
                 else kv_replay alloc_ok (nat next + 4) kv1)"

definition sl_kvstore_open :: "bool \<Rightarrow> bool \<Rightarrow> bytes option \<Rightarrow> bytes ptr \<Rightarrow> sl_kvstore ptr option" where
  "sl_kvstore_open calloc_ok alloc_ok content path =
     (if path = NULL then Some NULL
      else if \<not> calloc_ok then Some NULL
      else
        (case content of
           None \<Rightarrow> Some NULL
         | Some f \<Rightarrow> map_option Some (kv_replay alloc_ok 0 \<lparr>kv_fp = f, kv_buckets = replicate 4096 [], kv_count = 0\<rparr>)))"

definition sl_kvstore_put ::
  "bool \<Rightarrow> (nat \<Rightarrow> fwrite_answer) \<Rightarrow> sl_kvstore ptr \<Rightarrow> bytes ptr \<Rightarrow> bytes \<Rightarrow> int \<times> sl_kvstore ptr" where
  "sl_kvstore_put alloc_ok wr kvp key value =
     (case (kvp, key) of
        (Some kv, Some k) \<Rightarrow>
          (case write_record wr (kv_fp kv) k value 0 of
             (None, f) \<Rightarrow> (- 1, Some (kv\<lparr>kv_fp := f\<rparr>))
           | (Some off, f) \<Rightarrow>
               (case kv_upsert_entry alloc_ok (kv\<lparr>kv_fp := f\<rparr>) k of
                  (None, kv1) \<Rightarrow> (- 1, Some kv1)
                | (Some e, kv1) \<Rightarrow>
                    (0, Some (kv_entry_write (e\<lparr>ke_vlen := length value, ke_flags := 0, ke_file_offset := off\<rparr>) kv1))))
      | _ \<Rightarrow> (- 1, kvp))"

definition sl_kvstore_delete :: "(nat \<Rightarrow> fwrite_answer) \<Rightarrow> sl_kvstore ptr \<Rightarrow> bytes ptr \<Rightarrow> int \<times> sl_kvstore ptr" where
  "sl_kvstore_delete wr kvp key =
     (case (kvp, key) of
        (Some kv, Some k) \<Rightarrow>
          (case write_record wr (kv_fp kv) k [] SL_KV_FLAG_TOMB of
             (None, f) \<Rightarrow> (- 1, Some (kv\<lparr>kv_fp := f\<rparr>))
           | (Some off, f) \<Rightarrow>
               let kv1 = kv\<lparr>kv_fp := f\<rparr> in
               (case kv_find_entry kv1 k of
                  None \<Rightarrow> (0, Some kv1)
                | Some e \<Rightarrow> (0, Some (kv_entry_write (e\<lparr>ke_flags := ke_flags e OR SL_KV_FLAG_TOMB, ke_vlen := 0\<rparr>) kv1))))
      | _ \<Rightarrow> (- 1, kvp))"

text \<open>The status, \<open>*vlen_out\<close> if it is set, and the bytes read into the buffer.\<close>

definition sl_kvstore_get ::
  "sl_kvstore ptr \<Rightarrow> bytes ptr \<Rightarrow> nat \<Rightarrow> out_ref \<Rightarrow> (int \<times> nat option \<times> bytes) option" where
  "sl_kvstore_get kvp key buf_cap vlen_out =
     (case (kvp, key, vlen_out) of
        (Some kv, Some k, Some _) \<Rightarrow>
          (case kv_find_entry kv k of
             None \<Rightarrow> Some (- 2, None, [])
           | Some e \<Rightarrow>
               if ke_flags e AND SL_KV_FLAG_TOMB \<noteq> 0 then Some (- 2, None, [])
               else if buf_cap < ke_vlen e then Some (- 3, Some (ke_vlen e), [])
               else
                 let hdr = fread 21 (ke_file_offset e) (kv_fp kv) in
                 if hdr = [] then Some (- 1, Some (ke_vlen e), [])
                 else
                   (case sl_varint_decode_u64 (Some hdr) OUT of
                      None \<Rightarrow> Some (- 1, Some (ke_vlen e), [])
                    | Some (klen_disk, kn) \<Rightarrow>
                   (case sl_varint_decode_u64 (Some (drop kn hdr)) OUT of
                      None \<Rightarrow> Some (- 1, Some (ke_vlen e), [])
                    | Some (vlen_disk, vn) \<Rightarrow>
                        let pos = int (ke_file_offset e + kn + vn + 1) + sint klen_disk in
                        if pos < 0 then Some (- 1, Some (ke_vlen e), [])
                        else
                          let d = fread (unat vlen_disk) (nat pos) (kv_fp kv) in
                          if length d > buf_cap then None
                          else if length d \<noteq> unat vlen_disk then Some (- 1, Some (ke_vlen e), d)
                          else Some (0, Some (ke_vlen e), d))))
      | _ \<Rightarrow> Some (- 1, None, []))"

definition sl_kvstore_has :: "sl_kvstore ptr \<Rightarrow> bytes \<Rightarrow> bool" where
  "sl_kvstore_has kvp key =
     (case kvp of
        None \<Rightarrow> False
      | Some kv \<Rightarrow> (case kv_find_entry kv key of None \<Rightarrow> False | Some e \<Rightarrow> ke_flags e AND SL_KV_FLAG_TOMB = 0))"

definition sl_kvstore_size :: "sl_kvstore ptr \<Rightarrow> nat" where
  "sl_kvstore_size kvp =
     (case kvp of
        None \<Rightarrow> 0
      | Some kv \<Rightarrow> tbl_total (\<lambda>e. if ke_flags e AND SL_KV_FLAG_TOMB = 0 then 1 else 0) (kv_buckets kv))"

definition sl_kvstore_sync :: "bool \<Rightarrow> bool \<Rightarrow> int \<Rightarrow> sl_kvstore ptr \<Rightarrow> int" where
  "sl_kvstore_sync fflush_ok fileno_ok fsync kvp =
     (if kvp = NULL then - 1 else if \<not> fflush_ok then - 1 else if fileno_ok then fsync else - 1)"

subsection \<open>The store as a map\<close>

interpretation kvt: map_table ke_key "tbl_find ke_key" "tbl_put ke_key" tbl_total "tbl_ok 4096 ke_key"
  by (rule tbl_laws) simp_all

definition kv_head :: "bytes \<Rightarrow> bytes \<Rightarrow> u8 \<Rightarrow> bytes" where
  "kv_head k v fl = varint_bytes (of_nat (length k)) @ varint_bytes (of_nat (length v)) @ [fl]"

definition kv_record :: "bytes \<Rightarrow> bytes \<Rightarrow> u8 \<Rightarrow> bytes" where
  "kv_record k v fl = kv_head k v fl @ k @ v @ pack_u32 (sl_crc32c (kv_head k v fl @ k @ v))"

lemma kv_header_eq: "kv_header (length k) (length v) fl = Some (kv_head k v fl)"
  using varint_bytes_len(2) [of "of_nat (length k)"] by (simp add: kv_header_def kv_head_def varint_encode_eq)

lemma write_record_cases:
  assumes "write_record wr f k v fl = (r, f')"
  shows "\<exists>junk. f' = f @ junk" "r = Some off \<Longrightarrow> off = length f \<and> f' = f @ kv_record k v fl"
proof -
  let ?h = "kv_head k v fl"
  define crc where "crc = sl_crc32c (?h @ k @ v)"
  let ?ds = "[(wr 0, ?h), (wr 1, k)] @ (if length v > 0 then [(wr 2, v)] else []) @ [(wr 3, pack_u32 crc)]"
  obtain ok g where w: "fwrite_all ?ds f = (ok, g)" by fastforce
  have c: "sl_crc32c_finalize (if length v > 0 then sl_crc32c_update (sl_crc32c_update (sl_crc32c_update sl_crc32c_init ?h) k) v
      else sl_crc32c_update (sl_crc32c_update sl_crc32c_init ?h) k) = crc"
    by (cases v) (simp_all add: crc_def sl_crc32c_def sl_crc32c_update_append)
  have e: "write_record wr f k v fl = (if ok then Some (length f) else None, g)"
    unfolding write_record_def kv_header_eq option.case Let_def c w prod.case ..
  show "\<exists>junk. f' = f @ junk" using fwrite_all_extends [of ?ds f] assms e w by simp
  show "off = length f \<and> f' = f @ kv_record k v fl" if "r = Some off"
  proof -
    from that assms e have o: ok "off = length f" "f' = g" by (auto split: if_splits)
    show ?thesis using fwrite_all_ok [OF w [unfolded eqTrueI [OF o(1)]]] o by (cases v) (simp_all add: kv_record_def crc_def)
  qed
qed

lemma write_record_taken: "write_record (\<lambda>_. None) f k v fl = (Some (length f), f @ kv_record k v fl)"
proof -
  obtain r f' where w: "write_record (\<lambda>_. None) f k v fl = (r, f')" by fastforce
  have "r \<noteq> None" using w by (auto simp: write_record_def kv_header_eq Let_def fwrite_def split: if_splits)
  then show ?thesis using write_record_cases(2) [OF w] w by auto
qed

definition live :: "kv_entry \<Rightarrow> bool" where
  "live e \<longleftrightarrow> ke_flags e AND SL_KV_FLAG_TOMB = 0"

definition entry_reads :: "bytes \<Rightarrow> bytes \<Rightarrow> kv_entry \<Rightarrow> bytes \<Rightarrow> bool" where
  "entry_reads f k e v \<longleftrightarrow> ke_vlen e = length v \<and> length k < 2 ^ 63 \<and> length v < 2 ^ 63
     \<and> (\<exists>post. drop (ke_file_offset e) f = kv_record k v 0 @ post) \<and> ke_file_offset e \<le> length f"

definition kv_inv :: "sl_kvstore \<Rightarrow> (bytes \<Rightarrow> bytes option) \<Rightarrow> bool" where
  "kv_inv kv m \<longleftrightarrow> tbl_ok 4096 ke_key (kv_buckets kv) \<and> finite (dom m)
     \<and> tbl_total (\<lambda>e. if live e then 1 else 0) (kv_buckets kv) = card (dom m)
     \<and> (\<forall>k. case kv_find_entry kv k of
            None \<Rightarrow> m k = None
          | Some e \<Rightarrow> if live e then (\<exists>v. m k = Some v \<and> entry_reads (kv_fp kv) k e v) else m k = None)"

lemma entry_reads_grow: "entry_reads f k e v \<Longrightarrow> entry_reads (f @ junk) k e v"
  by (auto simp: entry_reads_def)

lemma kv_inv_grow:
  assumes "kv_inv kv m"
  shows "kv_inv (kv\<lparr>kv_fp := kv_fp kv @ junk\<rparr>) m"
  using assms entry_reads_grow unfolding kv_inv_def kv_find_entry_def by (fastforce split: option.splits)

lemma kv_upsert_cases:
  assumes "tbl_ok 4096 ke_key (kv_buckets kv)" "kv_upsert_entry a kv k = (Some e, kv1)"
  shows "ke_key e = k" "kv_fp kv1 = kv_fp kv"
    "ke_key e' = k \<Longrightarrow> kv_buckets (kv_entry_write e' kv1) = tbl_put ke_key e' (kv_buckets kv)"
proof -
  show k: "ke_key e = k" and "kv_fp kv1 = kv_fp kv"
    using assms(2) kvt.lookup_key by (auto simp: kv_upsert_entry_def kv_find_entry_def Let_def split: option.splits if_splits)
  show "kv_buckets (kv_entry_write e' kv1) = tbl_put ke_key e' (kv_buckets kv)" if "ke_key e' = k"
  proof (cases "tbl_find ke_key (kv_buckets kv) k")
    case None
    then have "kv1 = kv\<lparr>kv_buckets := tbl_cons ke_key e (kv_buckets kv), kv_count := kv_count kv + 1\<rparr>"
      using assms(2) by (auto simp: kv_upsert_entry_def kv_find_entry_def Let_def split: if_splits)
    then show ?thesis
      using None that k tbl_set_cons [OF assms(1), of e' e] by (simp add: kv_entry_write_def tbl_put_def)
  next
    case (Some x)
    then show ?thesis using assms(2) that by (simp add: kv_upsert_entry_def kv_find_entry_def kv_entry_write_def tbl_put_def)
  qed
qed

lemma kv_inv_update:
  assumes "kv_inv kv m" "kv_buckets kv' = tbl_put ke_key e (kv_buckets kv)" "kv_fp kv' = kv_fp kv" "ke_key e = k"
    and "case mv of None \<Rightarrow> \<not> live e | Some v \<Rightarrow> live e \<and> entry_reads (kv_fp kv) k e v"
  shows "kv_inv kv' (m(k := mv))"
proof -
  let ?f = "\<lambda>e. if live e then 1 else 0 :: nat"
  from assms(1) have t: "tbl_ok 4096 ke_key (kv_buckets kv)" and fin: "finite (dom m)"
    and tot: "tbl_total ?f (kv_buckets kv) = card (dom m)"
    and all: "\<And>k. case kv_find_entry kv k of None \<Rightarrow> m k = None
      | Some e \<Rightarrow> if live e then (\<exists>v. m k = Some v \<and> entry_reads (kv_fp kv) k e v) else m k = None"
    by (simp_all add: kv_inv_def)
  have ok: "tbl_ok 4096 ke_key (kv_buckets kv')" using kvt.put_invar [OF t] assms(2) by simp
  have find: "kv_find_entry kv' j = (if j = k then Some e else kv_find_entry kv j)" for j
    using kvt.lookup_put [OF t, of e j] assms(2,4) by (simp add: kv_find_entry_def)
  have "case kv_find_entry kv' j of None \<Rightarrow> (m(k := mv)) j = None
      | Some e \<Rightarrow> if live e then (\<exists>v. (m(k := mv)) j = Some v \<and> entry_reads (kv_fp kv') j e v) else (m(k := mv)) j = None" for j
    using all [of j] assms(3,5) by (cases "j = k"; cases mv; cases "kv_find_entry kv j") (simp_all add: find)
  moreover have "tbl_total ?f (kv_buckets kv') = card (dom (m(k := mv)))"
  proof -
    have p: "tbl_total ?f (kv_buckets kv') + (case kv_find_entry kv k of None \<Rightarrow> 0 | Some old \<Rightarrow> ?f old) = card (dom m) + ?f e"
      using kvt.total_put [OF t, of ?f e] assms(2,4) tot by (simp add: kv_find_entry_def)
    have old: "(case kv_find_entry kv k of None \<Rightarrow> 0 | Some old \<Rightarrow> ?f old) = (if k \<in> dom m then 1 else 0 :: nat)"
      using all [of k] by (cases "kv_find_entry kv k") (auto split: if_splits)
    have new: "?f e = (if mv = None then 0 else 1)" using assms(5) by (cases mv) auto
    have "card (dom (m(k := mv))) + (if k \<in> dom m then 1 else 0) = card (dom m) + (if mv = None then 0 else 1)"
      using fin card_Suc_Diff1 [of "dom m" k] by (cases mv) (auto simp: card_insert_if insert_absorb)
    then show ?thesis using p old new by simp
  qed
  ultimately show ?thesis using ok fin by (simp add: kv_inv_def)
qed

lemma kv_inv_absent: "kv_inv kv m \<Longrightarrow> kv_find_entry kv k = None \<Longrightarrow> m k = None"
  unfolding kv_inv_def by (elim conjE allE [of _ k]) simp

lemma kv_put_inv:
  assumes "kv_inv kv m" "sl_kvstore_put a wr (Some kv) (Some k) v = (rc, kvp)" "length k < 2 ^ 63" "length v < 2 ^ 63"
  obtains kv' where "kvp = Some kv'" "rc = 0 \<or> rc = - 1" "kv_inv kv' (if rc = 0 then m(k \<mapsto> v) else m)"
proof -
  obtain r f where w: "write_record wr (kv_fp kv) k v 0 = (r, f)" by fastforce
  obtain junk where f: "f = kv_fp kv @ junk" using write_record_cases(1) [OF w] by blast
  have g: "kv_inv (kv\<lparr>kv_fp := f\<rparr>) m" unfolding f by (rule kv_inv_grow [OF assms(1)])
  show ?thesis
  proof (cases r)
    case None
    then show ?thesis using that [of "kv\<lparr>kv_fp := f\<rparr>"] assms(2) w g by (auto simp: sl_kvstore_put_def)
  next
    case (Some off)
    note o = write_record_cases(2) [OF w Some]
    obtain ep kv1 where u: "kv_upsert_entry a (kv\<lparr>kv_fp := f\<rparr>) k = (ep, kv1)" by fastforce
    show ?thesis
    proof (cases ep)
      case None
      then have "kv1 = kv\<lparr>kv_fp := f\<rparr>" using u by (auto simp: kv_upsert_entry_def Let_def split: option.splits if_splits)
      then show ?thesis using that [of kv1] assms(2) w Some u None g by (auto simp: sl_kvstore_put_def)
    next
      case e: (Some e)
      have t: "tbl_ok 4096 ke_key (kv_buckets (kv\<lparr>kv_fp := f\<rparr>))" using g by (simp add: kv_inv_def)
      define e' where "e' = e\<lparr>ke_vlen := length v, ke_flags := 0, ke_file_offset := off\<rparr>"
      note c = kv_upsert_cases [OF t u [unfolded e]]
      have k': "ke_key e' = k" using c(1) by (simp add: e'_def)
      have "entry_reads f k e' v \<and> live e'"
        using o assms(3,4) by (simp add: entry_reads_def e'_def live_def)
      then have "kv_inv (kv_entry_write e' kv1) (m(k := Some v))"
        using kv_inv_update [OF g c(3) [OF k'] _ k', of "Some v"] c(2) by (simp add: kv_entry_write_def)
      then show ?thesis using that [of "kv_entry_write e' kv1"] assms(2) w Some u e by (auto simp: sl_kvstore_put_def e'_def)
    qed
  qed
qed

lemma kv_delete_inv:
  assumes "kv_inv kv m" "sl_kvstore_delete wr (Some kv) (Some k) = (rc, kvp)"
  obtains kv' where "kvp = Some kv'" "rc = 0 \<or> rc = - 1" "kv_inv kv' (if rc = 0 then m(k := None) else m)"
proof -
  obtain r f where w: "write_record wr (kv_fp kv) k [] 1 = (r, f)" by fastforce
  obtain junk where f: "f = kv_fp kv @ junk" using write_record_cases(1) [OF w] by blast
  define kv1 where "kv1 = kv\<lparr>kv_fp := f\<rparr>"
  have g: "kv_inv kv1 m" unfolding kv1_def f by (rule kv_inv_grow [OF assms(1)])
  have t: "tbl_ok 4096 ke_key (kv_buckets kv1)" using g by (simp add: kv_inv_def)
  show ?thesis
  proof (cases "r = None \<or> kv_find_entry kv1 k = None")
    case True
    have "m(k := None) = m" if "kv_find_entry kv1 k = None"
      using kv_inv_absent [OF g that] by (simp add: fun_upd_idem_iff)
    then show ?thesis using that [of kv1] True assms(2) w g
      by (cases r) (auto simp: sl_kvstore_delete_def kv1_def [symmetric] Let_def split: if_splits)
  next
    case False
    then obtain off e where e: "r = Some off" "kv_find_entry kv1 k = Some e" by auto
    define e' where "e' = e\<lparr>ke_flags := ke_flags e OR 1, ke_vlen := 0\<rparr>"
    have k': "ke_key e' = k" using e(2) kvt.lookup_key by (auto simp: e'_def kv_find_entry_def)
    have "(ke_flags e OR 1) AND 1 = 1" by (rule bit_word_eqI) (auto simp: bit_simps)
    then have dead: "\<not> live e'" by (simp add: live_def e'_def)
    have b: "kv_buckets (kv_entry_write e' kv1) = tbl_put ke_key e' (kv_buckets kv1)"
      using e(2) k' by (simp add: kv_entry_write_def tbl_put_def kv_find_entry_def)
    have "kv_inv (kv_entry_write e' kv1) (m(k := None))"
      using kv_inv_update [OF g b _ k', of None] dead by (simp add: kv_entry_write_def)
    then show ?thesis using that [of "kv_entry_write e' kv1"] assms(2) w e
      by (auto simp: sl_kvstore_delete_def kv1_def [symmetric] Let_def e'_def)
  qed
qed

lemma sint_of_nat_u64: "n < 2 ^ 63 \<Longrightarrow> sint (of_nat n :: u64) = int n"
  by (simp add: sint_uint unat_of_nat uint_word_of_int_eq signed_take_bit_int_eq_self unsigned_of_nat take_bit_nat_eq_self flip: of_nat_take_bit)

lemma kv_entry_get:
  assumes "kv_find_entry kv k = Some e" "live e" "entry_reads (kv_fp kv) k e v"
  shows "sl_kvstore_get (Some kv) (Some k) cap OUT = Some (if cap < length v then (- 3, Some (length v), []) else (0, Some (length v), v))"
proof -
  let ?vk = "varint_bytes (of_nat (length k))" and ?vv = "varint_bytes (of_nat (length v))"
  from assms(3) obtain post where l: "ke_vlen e = length v" "length k < 2 ^ 63" "length v < 2 ^ 63"
    and d: "drop (ke_file_offset e) (kv_fp kv) = kv_record k v 0 @ post" by (auto simp: entry_reads_def)
  obtain rest where h: "fread 21 (ke_file_offset e) (kv_fp kv) = ?vk @ ?vv @ rest"
    using varint_bytes_len(2) [of "of_nat (length k)"] varint_bytes_len(2) [of "of_nat (length v)"] d
    by (simp add: fread_def kv_record_def kv_head_def)
  have ne: "?vk @ ?vv @ rest \<noteq> []" using varint_bytes_len(1) [of "of_nat (length k)"] by auto
  have u: "unat (of_nat (length v) :: u64) = length v" "sint (of_nat (length k) :: u64) = int (length k)"
    using l sint_of_nat_u64 by (simp_all add: unat_of_nat unsigned_of_nat take_bit_nat_eq_self)
  have p: "fread (length v) (nat (int (ke_file_offset e + length ?vk + length ?vv + 1) + int (length k))) (kv_fp kv)
      = fread (length v) (ke_file_offset e + length (kv_head k v 0 @ k)) (kv_fp kv)"
    by (rule arg_cong [where f = "\<lambda>p. fread (length v) p (kv_fp kv)"]) (simp add: kv_head_def)
  have "drop (length (kv_head k v 0 @ k)) (drop (ke_file_offset e) (kv_fp kv)) = v @ pack_u32 (sl_crc32c (kv_head k v 0 @ k @ v)) @ post"
    unfolding d by (simp add: kv_record_def)
  then have v: "fread (length v) (ke_file_offset e + length (kv_head k v 0 @ k)) (kv_fp kv) = v"
    by (simp add: fread_def add.commute)
  have nn: "\<not> int (ke_file_offset e + length ?vk + length ?vv + 1) + int (length k) < 0" by simp
  have dk: "sl_varint_decode_u64 (Some (drop (length ?vk) (?vk @ ?vv @ rest))) OUT = Some (of_nat (length v), length ?vv)"
    by (simp add: varint_decode_eq)
  have fl: "(ke_flags e AND SL_KV_FLAG_TOMB \<noteq> 0) = False" using assms(2) by (simp add: live_def)
  show ?thesis
    unfolding sl_kvstore_get_def assms(1) option.case prod.case fl if_False l(1) h Let_def varint_decode_eq dk u p v
    using ne nn by auto
qed

definition kv_answer :: "nat \<Rightarrow> bytes option \<Rightarrow> int \<times> nat option \<times> bytes" where
  "kv_answer cap mv = (case mv of None \<Rightarrow> (- 2, None, [])
     | Some v \<Rightarrow> if cap < length v then (- 3, Some (length v), []) else (0, Some (length v), v))"

lemma kv_inv_reads:
  assumes "kv_inv kv m"
  shows "sl_kvstore_get (Some kv) (Some k) cap OUT = Some (kv_answer cap (m k))"
    "sl_kvstore_has (Some kv) k \<longleftrightarrow> m k \<noteq> None"
    "sl_kvstore_size (Some kv) = card (dom m)"
proof -
  have c: "case kv_find_entry kv k of None \<Rightarrow> m k = None
      | Some e \<Rightarrow> if live e then (\<exists>v. m k = Some v \<and> entry_reads (kv_fp kv) k e v) else m k = None"
    using assms by (simp add: kv_inv_def)
  show "sl_kvstore_get (Some kv) (Some k) cap OUT = Some (kv_answer cap (m k))"
  proof (cases "kv_find_entry kv k")
    case None
    then show ?thesis using c by (simp add: sl_kvstore_get_def kv_answer_def)
  next
    case (Some e)
    show ?thesis
    proof (cases "live e")
      case True
      with c Some obtain v where "m k = Some v" "entry_reads (kv_fp kv) k e v" by auto
      then show ?thesis using kv_entry_get [OF Some True] by (simp add: kv_answer_def)
    next
      case False
      then show ?thesis using c Some by (simp add: sl_kvstore_get_def kv_answer_def live_def)
    qed
  qed
  show "sl_kvstore_has (Some kv) k \<longleftrightarrow> m k \<noteq> None"
    using c by (cases "kv_find_entry kv k") (auto simp: sl_kvstore_has_def live_def split: if_splits)
  show "sl_kvstore_size (Some kv) = card (dom m)" using assms by (simp add: sl_kvstore_size_def kv_inv_def live_def)
qed

text \<open>A sequence of operations of the store, and what it does to a map.\<close>

datatype kv_op =
    KvPut bool "nat \<Rightarrow> fwrite_answer" bytes bytes
  | KvDelete "nat \<Rightarrow> fwrite_answer" bytes

fun kv_step :: "kv_op \<Rightarrow> sl_kvstore ptr \<Rightarrow> int \<times> sl_kvstore ptr" where
  "kv_step (KvPut alloc_ok wr k v) kvp = sl_kvstore_put alloc_ok wr kvp (Some k) v"
| "kv_step (KvDelete wr k) kvp = sl_kvstore_delete wr kvp (Some k)"

fun kv_run :: "kv_op list \<Rightarrow> sl_kvstore ptr \<Rightarrow> int list \<times> sl_kvstore ptr" where
  "kv_run [] kvp = ([], kvp)"
| "kv_run (x # xs) kvp = (case kv_step x kvp of (rc, kvp') \<Rightarrow> (case kv_run xs kvp' of (rcs, r) \<Rightarrow> (rc # rcs, r)))"

fun map_step :: "kv_op \<times> int \<Rightarrow> (bytes \<Rightarrow> bytes option) \<Rightarrow> (bytes \<Rightarrow> bytes option)" where
  "map_step (KvPut a wr k v, rc) m = (if rc = 0 then m(k \<mapsto> v) else m)"
| "map_step (KvDelete wr k, rc) m = (if rc = 0 then m(k := None) else m)"

fun kv_op_small :: "kv_op \<Rightarrow> bool" where
  "kv_op_small (KvPut a wr k v) = (length k < 2 ^ 63 \<and> length v < 2 ^ 63)"
| "kv_op_small (KvDelete wr k) = True"

fun kv_op_taken :: "kv_op \<Rightarrow> bool" where
  "kv_op_taken (KvPut a wr k v) = (a \<and> wr = (\<lambda>_. None))"
| "kv_op_taken (KvDelete wr k) = (wr = (\<lambda>_. None))"

lemma kv_step_inv:
  assumes "kv_inv kv m" "kv_step x (Some kv) = (rc, kvp)" "kv_op_small x"
  obtains kv' where "kvp = Some kv'" "rc = 0 \<or> rc = - 1" "kv_inv kv' (map_step (x, rc) m)" "kv_op_taken x \<Longrightarrow> rc = 0"
proof (cases x)
  case (KvPut a wr k v)
  have "rc = 0" if "a" "wr = (\<lambda>_. None)"
    using assms(2) that by (auto simp: KvPut sl_kvstore_put_def write_record_taken kv_upsert_entry_def Let_def split: option.splits)
  then show ?thesis using kv_put_inv [OF assms(1), of a wr k v rc kvp] assms(2,3) that unfolding KvPut kv_step.simps kv_op_small.simps map_step.simps kv_op_taken.simps by metis
next
  case (KvDelete wr k)
  have "rc = 0" if "wr = (\<lambda>_. None)"
    using assms(2) that by (auto simp: KvDelete sl_kvstore_delete_def write_record_taken Let_def split: option.splits)
  then show ?thesis using kv_delete_inv [OF assms(1), of wr k rc kvp] assms(2) that unfolding KvDelete kv_step.simps map_step.simps kv_op_taken.simps by metis
qed

lemma kv_run_inv:
  assumes "kv_inv kv m" "kv_run xs (Some kv) = (rcs, kvp)" "list_all kv_op_small xs"
  shows "\<exists>kv'. kvp = Some kv' \<and> kv_inv kv' (fold map_step (zip xs rcs) m) \<and> length rcs = length xs
    \<and> set rcs \<subseteq> {0, - 1} \<and> (list_all kv_op_taken xs \<longrightarrow> set rcs \<subseteq> {0})"
  using assms
proof (induction xs arbitrary: kv m rcs)
  case (Cons x xs)
  obtain rc k1 where s: "kv_step x (Some kv) = (rc, k1)" by fastforce
  obtain rs where r: "kv_run xs k1 = (rs, kvp)" "rcs = rc # rs" using Cons.prems(2) s by (auto split: prod.splits)
  obtain kv' where k: "k1 = Some kv'" "rc = 0 \<or> rc = - 1" "kv_inv kv' (map_step (x, rc) m)" "kv_op_taken x \<Longrightarrow> rc = 0"
    using kv_step_inv [OF Cons.prems(1) s] Cons.prems(3) by auto
  show ?case using Cons.IH [OF k(3) r(1) [unfolded k(1)]] Cons.prems(3) r(2) k(2,4) by auto
qed auto

lemma kv_open_empty: "sl_kvstore_open True a (Some []) (Some path) = Some (Some \<lparr>kv_fp = [], kv_buckets = replicate 4096 [], kv_count = 0\<rparr>)"
  by (simp add: sl_kvstore_open_def kv_replay.simps kv_record_head_def fread_def)

lemma kv_inv_empty: "kv_inv \<lparr>kv_fp = [], kv_buckets = replicate 4096 [], kv_count = 0\<rparr> (\<lambda>_. None)"
  by (simp add: kv_inv_def kv_find_entry_def tbl_empty)



text \<open>
  A store that is reopened reads its values wrongly. The scan records where the value starts, and a get
  takes it for the start of the record: it decodes the bytes of the value as a header.
\<close>

definition kv_example :: "bytes \<Rightarrow> bytes \<Rightarrow> bytes" where
  "kv_example v crc = [1, of_nat (length v), 0, 7] @ v @ crc"

lemma kv_put_example:
  assumes "length v = 5"
  shows "\<exists>kv crc. sl_kvstore_put True (\<lambda>_. None) (Some \<lparr>kv_fp = [], kv_buckets = replicate 4096 [], kv_count = 0\<rparr>) (Some [7]) v
      = (0, Some kv) \<and> kv_fp kv = kv_example v crc \<and> length crc = 4"
proof -
  have "varint_bytes 1 = [1]" "varint_bytes 5 = [5]" by (subst varint_bytes.simps, simp add: word_le_nat_alt)+
  then have "kv_record [7] v 0 = kv_example v (pack_u32 (sl_crc32c (kv_head [7] v 0 @ [7] @ v)))"
    using assms by (simp add: kv_record_def kv_head_def kv_example_def)
  then obtain crc where "kv_record [7] v 0 = kv_example v crc" "length crc = 4" by fastforce
  then show ?thesis
    by (simp add: sl_kvstore_put_def write_record_taken kv_upsert_entry_def kv_find_entry_def tbl_empty Let_def kv_entry_write_def) blast
qed

definition kv_reopened :: "bytes \<Rightarrow> nat \<Rightarrow> sl_kvstore" where
  "kv_reopened f n = kv_entry_write \<lparr>ke_key = [7], ke_file_offset = 4, ke_vlen = n, ke_flags = 0\<rparr>
     \<lparr>kv_fp = f, kv_buckets = tbl_cons ke_key \<lparr>ke_key = [7], ke_file_offset = 0, ke_vlen = 0, ke_flags = 0\<rparr> (replicate 4096 []),
      kv_count = 1\<rparr>"

lemma kv_reopened_find: "kv_find_entry (kv_reopened f n) [7] = Some \<lparr>ke_key = [7], ke_file_offset = 4, ke_vlen = n, ke_flags = 0\<rparr>"
proof -
  let ?e = "\<lparr>ke_key = [7], ke_file_offset = 0, ke_vlen = 0, ke_flags = 0\<rparr>" and ?t = "replicate 4096 [] :: kv_entry list list"
  let ?e' = "\<lparr>ke_key = [7], ke_file_offset = 4, ke_vlen = n, ke_flags = 0\<rparr>"
  have ok: "tbl_ok 4096 ke_key ?t" by (rule tbl_empty)
  have "tbl_set ke_key ?e' (tbl_cons ke_key ?e ?t) = tbl_put ke_key ?e' ?t"
    using tbl_set_cons [OF ok, of ?e' ?e] by (simp add: tbl_put_def tbl_empty)
  then show ?thesis using kvt.lookup_put [OF ok, of ?e' "[7]"] by (simp add: kv_find_entry_def kv_reopened_def kv_entry_write_def)
qed

lemma kv_reopen:
  assumes "length v = 5" "length crc = 4"
  shows "sl_kvstore_open True True (Some (kv_example v crc)) (Some path) = Some (Some (kv_reopened (kv_example v crc) 5))"
proof -
  let ?f = "kv_example v crc"
  have h: "kv_record_head ?f 0 = Some (1, 5, 0, 3)"
    using assms by (simp add: kv_record_head_def kv_example_def fread_def sl_varint_decode_u64_def Let_def)
  have k: "fread (Suc 0) 3 ?f = [7]" by (simp add: kv_example_def fread_def)
  have e: "kv_record_head ?f 13 = None" using assms by (simp add: kv_record_head_def kv_example_def fread_def)
  have i: "kv_index_record True [7] 5 0 3 \<lparr>kv_fp = ?f, kv_buckets = replicate 4096 [], kv_count = 0\<rparr> = kv_reopened ?f 5"
    by (simp add: kv_index_record_def kv_upsert_entry_def kv_find_entry_def tbl_empty kv_reopened_def Let_def)
  have fp: "kv_fp (kv_reopened ?f 5) = ?f" by (simp add: kv_reopened_def kv_entry_write_def)
  show ?thesis
    unfolding sl_kvstore_open_def
    by (subst kv_replay.simps, subst kv_replay.simps) (simp add: h k i fp e Let_def)
qed

lemma kv_reopen_wrong_value:
  assumes "length crc = 4"
  shows "\<exists>kv. sl_kvstore_open True True (Some (kv_example [0, 2, 0, 55, 66] crc)) (Some path) = Some (Some kv)
    \<and> sl_kvstore_get (Some kv) (Some [7]) 64 OUT = Some (0, Some 5, [55, 66])"
  using assms kv_reopen [of "[0, 2, 0, 55, 66]" crc path] kv_reopened_find [of "kv_example [0, 2, 0, 55, 66] crc" 5]
  by (simp add: sl_kvstore_get_def kv_reopened_def kv_entry_write_def kv_example_def fread_def sl_varint_decode_u64_def Let_def)

lemma kv_reopen_unreadable:
  assumes "length crc = 4"
  shows "\<exists>kv. sl_kvstore_open True True (Some (kv_example [104, 101, 108, 108, 111] crc)) (Some path) = Some (Some kv)
    \<and> sl_kvstore_get (Some kv) (Some [7]) 64 OUT = Some (- 1, Some 5, [])"
  using assms kv_reopen [of "[104, 101, 108, 108, 111]" crc path] kv_reopened_find [of "kv_example [104, 101, 108, 108, 111] crc" 5]
  by (simp add: sl_kvstore_get_def kv_reopened_def kv_entry_write_def kv_example_def fread_def sl_varint_decode_u64_def Let_def)

lemma kv_reopen_overflow:
  assumes "length crc = 4"
  shows "\<exists>kv. sl_kvstore_open True True (Some (kv_example [0, 6, 0, 55, 66] crc)) (Some path) = Some (Some kv)
    \<and> sl_kvstore_get (Some kv) (Some [7]) 5 OUT = None"
  using assms kv_reopen [of "[0, 6, 0, 55, 66]" crc path] kv_reopened_find [of "kv_example [0, 6, 0, 55, 66] crc" 5]
  by (simp add: sl_kvstore_get_def kv_reopened_def kv_entry_write_def kv_example_def fread_def sl_varint_decode_u64_def Let_def)

subsection \<open>State store\<close>

text \<open>
  \<open>StateStore\<close> is the handle of the C store. The getters read into a buffer of 4096 zeroed bytes, and
  once more into one of the size the store asks for. The outer \<open>None\<close> is a write outside the buffer,
  or a read of bytes that were never written.
\<close>

type_synonym StateStore = "sl_kvstore ptr"

definition store_open :: "bool \<Rightarrow> bool \<Rightarrow> bytes option \<Rightarrow> bytes \<Rightarrow> StateStore option" where
  "store_open calloc_ok alloc_ok content path = sl_kvstore_open calloc_ok alloc_ok content (Some path)"

definition store_put_string :: "bool \<Rightarrow> (nat \<Rightarrow> fwrite_answer) \<Rightarrow> bytes \<Rightarrow> bytes \<Rightarrow> StateStore \<Rightarrow> bool \<times> StateStore" where
  "store_put_string alloc_ok wr key value st =
     (if st = NULL then (False, st)
      else (case sl_kvstore_put alloc_ok wr st (Some key) value of (rc, st') \<Rightarrow> (rc = 0, st')))"

definition u64_buf :: "u64 \<Rightarrow> bytes" where
  "u64_buf value = map (\<lambda>i. ucast (drop_bit (56 - 8 * i) value)) [0..<8]"

definition store_put_u64 :: "bool \<Rightarrow> (nat \<Rightarrow> fwrite_answer) \<Rightarrow> bytes \<Rightarrow> u64 \<Rightarrow> StateStore \<Rightarrow> bool \<times> StateStore" where
  "store_put_u64 alloc_ok wr key value st =
     (if st = NULL then (False, st)
      else (case sl_kvstore_put alloc_ok wr st (Some key) (u64_buf value) of (rc, st') \<Rightarrow> (rc = 0, st')))"

definition store_put_bytes :: "bool \<Rightarrow> (nat \<Rightarrow> fwrite_answer) \<Rightarrow> bytes \<Rightarrow> bytes \<Rightarrow> StateStore \<Rightarrow> bool \<times> StateStore" where
  "store_put_bytes alloc_ok wr key data st =
     (if st = NULL then (False, st)
      else (case sl_kvstore_put alloc_ok wr st (Some key) data of (rc, st') \<Rightarrow> (rc = 0, st')))"

text \<open>The buffer after a successful get, cut to the length the store reported.\<close>

definition got_buffer :: "nat \<Rightarrow> nat option \<Rightarrow> bytes \<Rightarrow> bytes" where
  "got_buffer cap got d = take (case got of None \<Rightarrow> 0 | Some n \<Rightarrow> n) (d @ replicate (cap - length d) 0)"

definition store_get_string :: "bytes \<Rightarrow> StateStore \<Rightarrow> bytes option option" where
  "store_get_string key st =
     (if st = NULL then Some None
      else
        (case sl_kvstore_get st (Some key) 4096 OUT of
           None \<Rightarrow> None
         | Some (rc, got, d) \<Rightarrow>
             if rc = - 3 then
               (let cap = (case got of None \<Rightarrow> 0 | Some n \<Rightarrow> n) in
                case sl_kvstore_get st (Some key) cap OUT of
                  None \<Rightarrow> None
                | Some (rc2, got2, d2) \<Rightarrow> Some (if rc2 \<noteq> 0 then None else Some (got_buffer cap got2 d2)))
             else Some (if rc \<noteq> 0 then None else Some (got_buffer 4096 got d))))"

definition store_get_bytes :: "bytes \<Rightarrow> StateStore \<Rightarrow> bytes option option" where
  "store_get_bytes key st =
     (if st = NULL then Some None
      else
        (case sl_kvstore_get st (Some key) 4096 OUT of
           None \<Rightarrow> None
         | Some (rc, got, d) \<Rightarrow>
             if rc = - 3 then
               (let cap = (case got of None \<Rightarrow> 0 | Some n \<Rightarrow> n) in
                case sl_kvstore_get st (Some key) cap OUT of
                  None \<Rightarrow> None
                | Some (rc2, got2, d2) \<Rightarrow> Some (if rc2 \<noteq> 0 then None else Some (got_buffer cap got2 d2)))
             else Some (if rc \<noteq> 0 then None else Some (got_buffer 4096 got d))))"

definition u64_of_buf :: "bytes \<Rightarrow> u64" where
  "u64_of_buf buf = foldl (\<lambda>v b. push_bit 8 v OR ucast b) 0 buf"

definition store_get_u64 :: "bytes \<Rightarrow> StateStore \<Rightarrow> u64 option option" where
  "store_get_u64 key st =
     (if st = NULL then Some None
      else
        (case sl_kvstore_get st (Some key) 8 OUT of
           None \<Rightarrow> None
         | Some (rc, got, buf) \<Rightarrow>
             if rc \<noteq> 0 then Some None
             else if got \<noteq> Some 8 then Some None
             else if length buf < 8 then None
             else Some (Some (u64_of_buf buf))))"

definition store_remove :: "(nat \<Rightarrow> fwrite_answer) \<Rightarrow> bytes \<Rightarrow> StateStore \<Rightarrow> bool \<times> StateStore" where
  "store_remove wr key st =
     (if st = NULL then (False, st) else (case sl_kvstore_delete wr st (Some key) of (rc, st') \<Rightarrow> (rc = 0, st')))"

definition store_has :: "bytes \<Rightarrow> StateStore \<Rightarrow> bool" where
  "store_has key st = (if st = NULL then False else sl_kvstore_has st key)"

definition store_sync :: "bool \<Rightarrow> bool \<Rightarrow> int \<Rightarrow> StateStore \<Rightarrow> bool" where
  "store_sync fflush_ok fileno_ok fsync st \<longleftrightarrow> st \<noteq> NULL \<and> sl_kvstore_sync fflush_ok fileno_ok fsync st = 0"

definition store_size :: "StateStore \<Rightarrow> nat" where
  "store_size st = (if st = NULL then 0 else sl_kvstore_size st)"

text \<open>A view adds its prefix to every key.\<close>

definition view_make :: "bytes \<Rightarrow> bytes \<Rightarrow> bytes" where
  "view_make prefix key = prefix @ [58] @ key"

definition view_put_string :: "bool \<Rightarrow> (nat \<Rightarrow> fwrite_answer) \<Rightarrow> bytes \<Rightarrow> bytes \<Rightarrow> bytes \<Rightarrow> StateStore \<Rightarrow> bool \<times> StateStore" where
  "view_put_string alloc_ok wr prefix key value st = store_put_string alloc_ok wr (view_make prefix key) value st"

definition view_get_string :: "bytes \<Rightarrow> bytes \<Rightarrow> StateStore \<Rightarrow> bytes option option" where
  "view_get_string prefix key st = store_get_string (view_make prefix key) st"

definition view_put_u64 :: "bool \<Rightarrow> (nat \<Rightarrow> fwrite_answer) \<Rightarrow> bytes \<Rightarrow> bytes \<Rightarrow> u64 \<Rightarrow> StateStore \<Rightarrow> bool \<times> StateStore" where
  "view_put_u64 alloc_ok wr prefix key v st = store_put_u64 alloc_ok wr (view_make prefix key) v st"

definition view_get_u64 :: "bytes \<Rightarrow> bytes \<Rightarrow> StateStore \<Rightarrow> u64 option option" where
  "view_get_u64 prefix key st = store_get_u64 (view_make prefix key) st"

definition view_remove :: "(nat \<Rightarrow> fwrite_answer) \<Rightarrow> bytes \<Rightarrow> bytes \<Rightarrow> StateStore \<Rightarrow> bool \<times> StateStore" where
  "view_remove wr prefix key st = store_remove wr (view_make prefix key) st"

definition view_has :: "bytes \<Rightarrow> bytes \<Rightarrow> StateStore \<Rightarrow> bool" where
  "view_has prefix key st = store_has (view_make prefix key) st"

lemma u64_of_be:
  "foldl (\<lambda>v b. push_bit 8 v OR ucast b) 0 (map (\<lambda>i. ucast (drop_bit (8 * n - 8 - 8 * i) v) :: u8) [0..<n]) = take_bit (8 * n) (v :: u64)"
proof (induction n arbitrary: v)
  case (Suc n)
  have "map (\<lambda>i. ucast (drop_bit (8 * Suc n - 8 - 8 * i) v) :: u8) [0..<n]
      = map (\<lambda>i. ucast (drop_bit (8 * n - 8 - 8 * i) (drop_bit 8 v))) [0..<n]"
    by (rule map_cong) (auto simp: algebra_simps)
  then have m: "map (\<lambda>i. ucast (drop_bit (8 * Suc n - 8 - 8 * i) v) :: u8) [0..<Suc n]
      = map (\<lambda>i. ucast (drop_bit (8 * n - 8 - 8 * i) (drop_bit 8 v))) [0..<n] @ [ucast v]"
    unfolding upt_Suc by (simp del: diff_diff_left)
  have "push_bit 8 (take_bit (8 * n) (drop_bit 8 v)) OR ucast (ucast v :: u8) = take_bit (8 * Suc n) v"
    by (rule bit_word_eqI) (auto simp: bit_simps)
  then show ?case unfolding m foldl_append Suc.IH by simp
qed simp

lemma u64_buf_roundtrip: "u64_of_buf (u64_buf v) = v" "length (u64_buf v) = 8"
proof -
  have "take_bit 64 v = v" by (rule bit_word_eqI) (auto simp: bit_simps)
  then show "u64_of_buf (u64_buf v) = v" using u64_of_be [of 8 v] by (simp add: u64_of_buf_def u64_buf_def del: upt_rec_numeral)
qed (simp add: u64_buf_def)

lemma view_make_inj: "view_make p k = view_make p k' \<longleftrightarrow> k = k'"
  by (simp add: view_make_def)

lemma view_make_separate: "58 \<notin> set p \<Longrightarrow> 58 \<notin> set q \<Longrightarrow> view_make p k = view_make q k' \<longleftrightarrow> p = q \<and> k = k'"
proof (induction p arbitrary: q)
  case Nil
  then show ?case by (cases q) (auto simp: view_make_def)
next
  case (Cons x p)
  then show ?case by (cases q) (auto simp: view_make_def)
qed

lemma state_store_reads:
  assumes "kv_inv kv m"
  shows "store_get_string k (Some kv) = Some (m k)" "store_get_bytes k (Some kv) = Some (m k)"
    "store_get_u64 k (Some kv) = Some (case m k of None \<Rightarrow> None | Some v \<Rightarrow> if length v = 8 then Some (u64_of_buf v) else None)"
    "store_has k (Some kv) \<longleftrightarrow> m k \<noteq> None" "store_size (Some kv) = card (dom m)"
  using kv_inv_reads [OF assms]
  by (auto simp: store_get_string_def store_get_bytes_def store_get_u64_def store_has_def store_size_def kv_answer_def got_buffer_def Let_def
      split: option.splits)

text \<open>What is put under a name of one view is read back there, and every other name of every view is untouched.\<close>

lemma state_view_put_get:
  assumes "kv_inv kv m" "view_put_u64 a wr p k v (Some kv) = (True, st)" "length p + length k < 2 ^ 62"
  shows "view_get_u64 p k st = Some (Some v)"
    "(q, k') \<noteq> (p, k) \<Longrightarrow> 58 \<notin> set p \<Longrightarrow> 58 \<notin> set q \<Longrightarrow> view_get_u64 q k' st = view_get_u64 q k' (Some kv)"
    "(q, k') \<noteq> (p, k) \<Longrightarrow> 58 \<notin> set p \<Longrightarrow> 58 \<notin> set q \<Longrightarrow> view_get_string q k' st = view_get_string q k' (Some kv)"
proof -
  obtain rc where r: "sl_kvstore_put a wr (Some kv) (Some (view_make p k)) (u64_buf v) = (rc, st)" "rc = 0"
    using assms(2) by (auto simp: view_put_u64_def store_put_u64_def split: prod.splits)
  have l: "length (view_make p k) < 2 ^ 63" "length (u64_buf v) < 2 ^ 63" using assms(3) u64_buf_roundtrip(2) by (simp_all add: view_make_def)
  obtain kv' where "st = Some kv'" "kv_inv kv' (m(view_make p k \<mapsto> u64_buf v))"
    using kv_put_inv [OF assms(1) r(1) l] r(2) by auto
  note s = state_store_reads [OF this(2)] this(1)
  show "view_get_u64 p k st = Some (Some v)" by (simp add: view_get_u64_def s u64_buf_roundtrip)
  assume "(q, k') \<noteq> (p, k)" "58 \<notin> set p" "58 \<notin> set q"
  then have "view_make q k' \<noteq> view_make p k" using view_make_separate [of q p k' k] by auto
  then show "view_get_u64 q k' st = view_get_u64 q k' (Some kv)" "view_get_string q k' st = view_get_string q k' (Some kv)"
    by (simp_all add: view_get_u64_def view_get_string_def s state_store_reads [OF assms(1)])
qed

text \<open>Two views whose prefixes contain a colon can share a name.\<close>

lemma view_prefix_collision: "view_make [97] [98, 58, 99] = view_make [97, 58, 98] [99]"
  by (simp add: view_make_def)

end
