(* ===== verification/SL_Beacon.thy ===== *)
theory SL_Beacon
  imports SL_Record SL_Replay SL_Time "HOL-Library.AList"
begin

text \<open>
  Beacons, the authenticated heartbeats of a client: the framing they travel in (\<open>framing.hpp\<close>), their
  header and sealing (\<open>sl_beacon.c\<close>, \<open>sl_beacon_codec.c\<close>), the acknowledgements (\<open>sl_beacon_ack.c\<close>,
  \<open>sl_beacon_ack_codec.c\<close>), the registry, the server and the client (\<open>beacon_registry.cpp\<close>,
  \<open>beacon_server.cpp\<close>, \<open>beacon_client.cpp\<close>). The clocks, the answers of the socket and the generator are
  arguments; establishing the connection is the answer of \<open>connect\<close>.
\<close>

subsection \<open>Framing\<close>

type_synonym FrameType = u8

abbreviation (input) kFrameData :: FrameType where "kFrameData \<equiv> 4"
abbreviation (input) kFramePong :: FrameType where "kFramePong \<equiv> 8"

datatype ParseStatus = kNeedMore | kReady | kErrorOversize | kErrorBadType | kErrorBadReserved

record Frame =
  frame_type :: FrameType
  frame_flags :: u8
  frame_payload :: bytes

record FrameParser =
  fp_buf :: bytes
  fp_max_frame :: nat

definition fp_new :: "nat \<Rightarrow> FrameParser" where
  "fp_new max_frame = \<lparr>fp_buf = [], fp_max_frame = max_frame\<rparr>"

definition fp_feed :: "bytes \<Rightarrow> FrameParser \<Rightarrow> FrameParser" where
  "fp_feed data p = p\<lparr>fp_buf := fp_buf p @ data\<rparr>"

definition fp_next :: "Frame \<Rightarrow> FrameParser \<Rightarrow> ParseStatus \<times> Frame \<times> FrameParser" where
  "fp_next out p =
     (let buf = fp_buf p in
      if length buf < 8 then (kNeedMore, out, p)
      else
        let len = unat (unpack_u32 buf); type = buf ! 4; flags = buf ! 5; rsv = unpack_u16 (drop 6 buf) in
        if rsv \<noteq> 0 then (kErrorBadReserved, out, p)
        else if len > fp_max_frame p then (kErrorOversize, out, p)
        else if type = 0 \<or> type > kFramePong then (kErrorBadType, out, p)
        else
          let total = 8 + len in
          if length buf < total then (kNeedMore, out, p)
          else (kReady, \<lparr>frame_type = type, frame_flags = flags, frame_payload = drop 8 (take total buf)\<rparr>,
                p\<lparr>fp_buf := drop total buf\<rparr>))"

definition fp_encode :: "FrameType \<Rightarrow> u8 \<Rightarrow> bytes \<Rightarrow> bytes" where
  "fp_encode type flags payload = pack_u32 (of_nat (length payload)) @ [type, flags, 0, 0] @ payload"

definition fp_buffered :: "FrameParser \<Rightarrow> nat" where
  "fp_buffered p = length (fp_buf p)"

definition fp_reset :: "FrameParser \<Rightarrow> FrameParser" where
  "fp_reset p = p\<lparr>fp_buf := []\<rparr>"

subsection \<open>Beacons\<close>

abbreviation (input) SL_BEACON_HEADER_LEN :: nat where "SL_BEACON_HEADER_LEN \<equiv> 32"
abbreviation (input) SL_BEACON_MAX_PAYLOAD :: nat where "SL_BEACON_MAX_PAYLOAD \<equiv> 1024"
abbreviation (input) SL_BEACON_FLAG_NONE :: u16 where "SL_BEACON_FLAG_NONE \<equiv> 0"
abbreviation (input) SL_BEACON_FLAG_REQUEST_ACK :: u16 where "SL_BEACON_FLAG_REQUEST_ACK \<equiv> 1"
abbreviation (input) SL_BEACON_FLAG_LAST :: u16 where "SL_BEACON_FLAG_LAST \<equiv> 2"

record sl_beacon_t =
  bn_client_id :: u64
  bn_sequence :: u64
  bn_timestamp_ms :: u64
  bn_interval_ms :: u32
  bn_payload_len :: u16
  bn_flags :: u16
  bn_payload :: bytes

definition sl_beacon_pack_header :: "sl_beacon_t ptr \<Rightarrow> out_ref \<Rightarrow> bytes option" where
  "sl_beacon_pack_header bp out =
     (case (bp, out) of
        (Some b, Some _) \<Rightarrow>
          Some (pack_u64 (bn_client_id b) @ pack_u64 (bn_sequence b) @ pack_u64 (bn_timestamp_ms b)
                @ pack_u32 (bn_interval_ms b) @ pack_u16 (bn_payload_len b) @ pack_u16 (bn_flags b))
      | _ \<Rightarrow> None)"

definition sl_beacon_unpack_header :: "bytes ptr \<Rightarrow> out_ref \<Rightarrow> sl_beacon_t option" where
  "sl_beacon_unpack_header inp out =
     (case (inp, out) of
        (Some i, Some _) \<Rightarrow>
          Some \<lparr>bn_client_id = unpack_u64 i, bn_sequence = unpack_u64 (drop 8 i), bn_timestamp_ms = unpack_u64 (drop 16 i),
            bn_interval_ms = unpack_u32 (drop 24 i), bn_payload_len = unpack_u16 (drop 28 i), bn_flags = unpack_u16 (drop 30 i),
            bn_payload = replicate SL_BEACON_MAX_PAYLOAD 0\<rparr>
      | _ \<Rightarrow> None)"

definition sl_beacon_validate :: "sl_beacon_t ptr \<Rightarrow> int" where
  "sl_beacon_validate bp =
     (case bp of
        None \<Rightarrow> - 1
      | Some b \<Rightarrow>
          if bn_sequence b = 0 then - 1
          else if unat (bn_payload_len b) > SL_BEACON_MAX_PAYLOAD then - 1
          else if bn_flags b AND NOT (SL_BEACON_FLAG_REQUEST_ACK OR SL_BEACON_FLAG_LAST) \<noteq> 0 then - 1
          else if bn_interval_ms b \<noteq> 0 \<and> (bn_interval_ms b < 100 \<or> bn_interval_ms b > 600000) then - 1
          else 0)"

definition sl_beacon_wire_size :: "sl_beacon_t ptr \<Rightarrow> nat" where
  "sl_beacon_wire_size bp =
     (case bp of None \<Rightarrow> 0 | Some b \<Rightarrow> SL_BEACON_HEADER_LEN + unat (bn_payload_len b) + SL_AEAD_TAG_LEN)"

definition sl_beacon_seal ::
  "evp_gcm \<Rightarrow> sl_beacon_t ptr \<Rightarrow> bytes ptr \<Rightarrow> bytes ptr \<Rightarrow> u64 \<Rightarrow> out_ref \<Rightarrow> out_ref \<Rightarrow> bytes option" where
  "sl_beacon_seal E bp key static_iv seq wire_out wire_len_out =
     (case (bp, key, static_iv, wire_out, wire_len_out) of
        (Some b, Some k, Some iv, Some _, Some _) \<Rightarrow>
          if sl_beacon_validate bp \<noteq> 0 then None
          else
            (case sl_beacon_pack_header bp OUT of
               None \<Rightarrow> None
             | Some header \<Rightarrow>
                 (case sl_aead_seal E key (Some (sl_nonce_build iv seq)) (Some header) SL_BEACON_HEADER_LEN
                         (Some (bn_payload b)) (unat (bn_payload_len b)) OUT OUT of
                    None \<Rightarrow> None
                  | Some (ct, tag) \<Rightarrow> Some (header @ ct @ tag)))
      | _ \<Rightarrow> None)"

definition sl_beacon_open ::
  "evp_gcm \<Rightarrow> bytes ptr \<Rightarrow> bytes ptr \<Rightarrow> bytes ptr \<Rightarrow> u64 \<Rightarrow> out_ref \<Rightarrow> sl_beacon_t option" where
  "sl_beacon_open E wire key static_iv seq out =
     (case (wire, key, static_iv, out) of
        (Some w, Some k, Some iv, Some _) \<Rightarrow>
          if length w < SL_BEACON_HEADER_LEN + SL_AEAD_TAG_LEN then None
          else
            (case sl_beacon_unpack_header wire OUT of
               None \<Rightarrow> None
             | Some b \<Rightarrow>
                 if sl_beacon_validate (Some b) \<noteq> 0 then None
                 else if length w \<noteq> sl_beacon_wire_size (Some b) then None
                 else
                   let n = unat (bn_payload_len b); ct = drop SL_BEACON_HEADER_LEN w;
                       (rc, payload) = sl_aead_open E key (Some (sl_nonce_build iv seq)) wire SL_BEACON_HEADER_LEN
                                         (Some ct) n (Some (drop n ct)) (Some (bn_payload b))
                   in if rc \<noteq> 0 then None
                      else Some (b\<lparr>bn_payload := (case payload of None \<Rightarrow> bn_payload b | Some p \<Rightarrow> p)\<rparr>))
      | _ \<Rightarrow> None)"

subsection \<open>Acknowledgements\<close>

abbreviation (input) SL_BEACON_ACK_HEADER_LEN :: nat where "SL_BEACON_ACK_HEADER_LEN \<equiv> 32"
abbreviation (input) SL_ACK_SHUTDOWN :: u16 where "SL_ACK_SHUTDOWN \<equiv> 4"

record sl_beacon_ack_t =
  ba_client_id :: u64
  ba_ack_sequence :: u64
  ba_server_time_ms :: u64
  ba_status :: u16
  ba_reserved :: u16
  ba_suggested_interval_ms :: u32

definition sl_beacon_ack_pack :: "sl_beacon_ack_t ptr \<Rightarrow> out_ref \<Rightarrow> bytes option" where
  "sl_beacon_ack_pack ap out =
     (case (ap, out) of
        (Some a, Some _) \<Rightarrow>
          Some (pack_u64 (ba_client_id a) @ pack_u64 (ba_ack_sequence a) @ pack_u64 (ba_server_time_ms a)
                @ pack_u16 (ba_status a) @ pack_u16 0 @ pack_u32 (ba_suggested_interval_ms a))
      | _ \<Rightarrow> None)"

definition sl_beacon_ack_unpack :: "bytes ptr \<Rightarrow> out_ref \<Rightarrow> sl_beacon_ack_t option" where
  "sl_beacon_ack_unpack inp out =
     (case (inp, out) of
        (Some i, Some _) \<Rightarrow>
          Some \<lparr>ba_client_id = unpack_u64 i, ba_ack_sequence = unpack_u64 (drop 8 i), ba_server_time_ms = unpack_u64 (drop 16 i),
            ba_status = unpack_u16 (drop 24 i), ba_reserved = unpack_u16 (drop 26 i),
            ba_suggested_interval_ms = unpack_u32 (drop 28 i)\<rparr>
      | _ \<Rightarrow> None)"

definition sl_beacon_ack_validate :: "sl_beacon_ack_t ptr \<Rightarrow> int" where
  "sl_beacon_ack_validate ap =
     (case ap of
        None \<Rightarrow> - 1
      | Some a \<Rightarrow>
          if ba_reserved a \<noteq> 0 then - 1
          else if ba_ack_sequence a = 0 then - 1
          else if ba_status a > SL_ACK_SHUTDOWN then - 1
          else if ba_suggested_interval_ms a \<noteq> 0
                  \<and> (ba_suggested_interval_ms a < 100 \<or> ba_suggested_interval_ms a > 600000) then - 1
          else 0)"

definition sl_beacon_ack_seal ::
  "evp_gcm \<Rightarrow> sl_beacon_ack_t ptr \<Rightarrow> bytes ptr \<Rightarrow> bytes ptr \<Rightarrow> u64 \<Rightarrow> out_ref \<Rightarrow> bytes option" where
  "sl_beacon_ack_seal E ap key static_iv seq out =
     (case (ap, key, static_iv, out) of
        (Some a, Some k, Some iv, Some _) \<Rightarrow>
          if sl_beacon_ack_validate ap \<noteq> 0 then None
          else
            (case sl_beacon_ack_pack ap OUT of
               None \<Rightarrow> None
             | Some header \<Rightarrow>
                 (case sl_aead_seal E key (Some (sl_nonce_build iv seq)) (Some header) SL_BEACON_ACK_HEADER_LEN
                         NULL 0 NULL OUT of
                    None \<Rightarrow> None
                  | Some (ct, tag) \<Rightarrow> Some (header @ tag)))
      | _ \<Rightarrow> None)"

definition sl_beacon_ack_open ::
  "evp_gcm \<Rightarrow> bytes ptr \<Rightarrow> bytes ptr \<Rightarrow> bytes ptr \<Rightarrow> u64 \<Rightarrow> out_ref \<Rightarrow> sl_beacon_ack_t option" where
  "sl_beacon_ack_open E wire key static_iv seq out =
     (case (wire, key, static_iv, out) of
        (Some w, Some k, Some iv, Some _) \<Rightarrow>
          (case sl_beacon_ack_unpack wire OUT of
             None \<Rightarrow> None
           | Some a \<Rightarrow>
               if sl_beacon_ack_validate (Some a) \<noteq> 0 then None
               else if fst (sl_aead_open E key (Some (sl_nonce_build iv seq)) wire SL_BEACON_ACK_HEADER_LEN
                              NULL 0 (Some (drop SL_BEACON_ACK_HEADER_LEN w)) NULL) \<noteq> 0 then None
               else Some a)
      | _ \<Rightarrow> None)"

subsection \<open>Registry\<close>

record ClientEntry =
  ce_client_id :: u64
  ce_label :: bytes
  ce_key :: bytes
  ce_static_iv :: bytes
  ce_enabled :: bool

type_synonym BeaconRegistry = "(u64 \<times> ClientEntry) list"

definition registry_upsert :: "ClientEntry \<Rightarrow> BeaconRegistry \<Rightarrow> bool \<times> BeaconRegistry" where
  "registry_upsert entry r = (map_of r (ce_client_id entry) = None, AList.update (ce_client_id entry) entry r)"

definition registry_set_enabled :: "u64 \<Rightarrow> bool \<Rightarrow> BeaconRegistry \<Rightarrow> bool \<times> BeaconRegistry" where
  "registry_set_enabled client_id enabled r =
     (case map_of r client_id of
        None \<Rightarrow> (False, r)
      | Some e \<Rightarrow> (True, AList.update client_id (e\<lparr>ce_enabled := enabled\<rparr>) r))"

definition registry_remove :: "u64 \<Rightarrow> BeaconRegistry \<Rightarrow> bool \<times> BeaconRegistry" where
  "registry_remove client_id r = (map_of r client_id \<noteq> None, AList.delete client_id r)"

definition registry_lookup :: "BeaconRegistry \<Rightarrow> u64 \<Rightarrow> ClientEntry option" where
  "registry_lookup r client_id = map_of r client_id"

definition registry_size :: "BeaconRegistry \<Rightarrow> nat" where
  "registry_size r = length r"

fun registry_for_each :: "(ClientEntry \<Rightarrow> 'w \<Rightarrow> 'w) \<Rightarrow> BeaconRegistry \<Rightarrow> 'w \<Rightarrow> 'w" where
  "registry_for_each fn [] w = w"
| "registry_for_each fn ((i, e) # r) w = registry_for_each fn r (fn e w)"

subsection \<open>Server\<close>

record BeaconServerConfig =
  bsc_liveness_timeout_ms :: u32
  bsc_max_skew_ms :: u32
  bsc_key :: bytes
  bsc_static_iv :: bytes

record ClientState =
  cs_client_id :: u64
  cs_beacons_received :: u64
  cs_replays_rejected :: u64
  cs_auth_failures :: u64
  cs_skew_rejections :: u64
  cs_last_seq :: u64
  cs_last_seen_mono_ms :: u64
  cs_last_seen_wall_ms :: u64
  cs_alive :: bool
  cs_replay :: ReplayGuard

datatype BeaconResult = kAccepted | kAuthFailed | kReplay | kClockSkew | kMalformed

record BeaconServer =
  bs_cfg :: BeaconServerConfig
  bs_clients :: "(u64 \<times> ClientState) list"

definition client_state_new :: ClientState where
  "client_state_new = \<lparr>cs_client_id = 0, cs_beacons_received = 0, cs_replays_rejected = 0, cs_auth_failures = 0,
     cs_skew_rejections = 0, cs_last_seq = 0, cs_last_seen_mono_ms = 0, cs_last_seen_wall_ms = 0, cs_alive = False,
     cs_replay = rg_new 16\<rparr>"

definition bs_new :: "BeaconServerConfig \<Rightarrow> BeaconServer" where
  "bs_new cfg = \<lparr>bs_cfg = cfg, bs_clients = []\<rparr>"

definition client_of :: "BeaconServer \<Rightarrow> u64 \<Rightarrow> ClientState" where
  "client_of s i = (case map_of (bs_clients s) i of None \<Rightarrow> client_state_new | Some cs \<Rightarrow> cs)"

definition client_put :: "u64 \<Rightarrow> ClientState \<Rightarrow> BeaconServer \<Rightarrow> BeaconServer" where
  "client_put i cs s = s\<lparr>bs_clients := AList.update i cs (bs_clients s)\<rparr>"

definition clock_skew :: "u64 \<Rightarrow> u64 \<Rightarrow> u64" where
  "clock_skew timestamp now_wall = (if timestamp > now_wall then timestamp - now_wall else now_wall - timestamp)"

definition on_beacon ::
  "evp_gcm \<Rightarrow> clock_reading \<Rightarrow> clock_reading \<Rightarrow> bytes ptr \<Rightarrow> BeaconServer \<Rightarrow> BeaconResult \<times> BeaconServer" where
  "on_beacon E wall steady wire s =
     (case wire of
        None \<Rightarrow> (kMalformed, s)
      | Some w \<Rightarrow>
          if length w < SL_BEACON_HEADER_LEN + SL_AEAD_TAG_LEN then (kMalformed, s)
          else
            (case sl_beacon_unpack_header wire OUT of
               None \<Rightarrow> (kMalformed, s)
             | Some peek \<Rightarrow>
                 if sl_beacon_validate (Some peek) \<noteq> 0 then (kMalformed, s)
                 else
                   let i = bn_client_id peek;
                       cs0 = client_of s i;
                       cs = (if cs_client_id cs0 = 0 then cs0\<lparr>cs_client_id := i\<rparr> else cs0)
                   in if \<not> would_accept (cs_replay cs) (bn_sequence peek)
                      then (kReplay, client_put i (cs\<lparr>cs_replays_rejected := cs_replays_rejected cs + 1\<rparr>) s)
                      else
                        (case sl_beacon_open E wire (Some (bsc_key (bs_cfg s))) (Some (bsc_static_iv (bs_cfg s)))
                                (bn_sequence peek) OUT of
                           None \<Rightarrow> (kAuthFailed, client_put i (cs\<lparr>cs_auth_failures := cs_auth_failures cs + 1\<rparr>) s)
                         | Some opened \<Rightarrow>
                             if clock_skew (bn_timestamp_ms opened) (sl_clock_wall_ms wall) > ucast (bsc_max_skew_ms (bs_cfg s))
                             then (kClockSkew, client_put i (cs\<lparr>cs_skew_rejections := cs_skew_rejections cs + 1\<rparr>) s)
                             else
                               (case check_and_update (bn_sequence opened) (cs_replay cs) of
                                  (False, g) \<Rightarrow>
                                    (kReplay, client_put i (cs\<lparr>cs_replay := g, cs_replays_rejected := cs_replays_rejected cs + 1\<rparr>) s)
                                | (True, g) \<Rightarrow>
                                    (kAccepted,
                                     client_put i (cs\<lparr>cs_replay := g, cs_beacons_received := cs_beacons_received cs + 1,
                                       cs_last_seq := bn_sequence opened, cs_last_seen_mono_ms := sl_clock_mono_ms steady,
                                       cs_last_seen_wall_ms := bn_timestamp_ms opened, cs_alive := True\<rparr>) s)))))"

definition client_stale :: "BeaconServer \<Rightarrow> u64 \<Rightarrow> ClientState \<Rightarrow> bool" where
  "client_stale s now cs \<longleftrightarrow> cs_alive cs \<and> now - cs_last_seen_mono_ms cs > ucast (bsc_liveness_timeout_ms (bs_cfg s))"

definition reap_stale :: "clock_reading \<Rightarrow> BeaconServer \<Rightarrow> nat \<times> BeaconServer" where
  "reap_stale steady s =
     (let now = sl_clock_mono_ms steady in
      (length (filter (\<lambda>(i, cs). client_stale s now cs) (bs_clients s)),
       s\<lparr>bs_clients := map (\<lambda>(i, cs). (i, if client_stale s now cs then cs\<lparr>cs_alive := False\<rparr> else cs)) (bs_clients s)\<rparr>))"

definition bs_snapshot :: "BeaconServer \<Rightarrow> u64 \<Rightarrow> ClientState option" where
  "bs_snapshot s client_id = map_of (bs_clients s) client_id"

definition bs_client_count :: "BeaconServer \<Rightarrow> nat" where
  "bs_client_count s = length (bs_clients s)"

subsection \<open>Client\<close>

record BeaconClientConfig =
  bcc_client_id :: u64
  bcc_interval_ms :: u32
  bcc_jitter_ms :: u32
  bcc_request_ack :: bool
  bcc_static_payload :: bytes
  bcc_key :: bytes
  bcc_static_iv :: bytes

record BeaconClientStats =
  beacons_sent :: u64
  acks_received :: u64
  beacon_send_failures :: u64
  reconnects :: u64
  last_rtt_ms :: u64

record BeaconClient =
  bc_cfg :: BeaconClientConfig
  bc_fd :: int
  bc_seq :: u64
  bc_running :: bool
  bc_stats :: BeaconClientStats

definition bc_new :: "BeaconClientConfig \<Rightarrow> BeaconClient" where
  "bc_new cfg = \<lparr>bc_cfg = cfg, bc_fd = - 1, bc_seq = 1, bc_running = False,
     bc_stats = \<lparr>beacons_sent = 0, acks_received = 0, beacon_send_failures = 0, reconnects = 0, last_rtt_ms = 0\<rparr>\<rparr>"

text \<open>
  What the kernel answers to one \<open>send\<close>, with the outcome of the wait when it would block. The loop
  gives the result and the bytes that went out, or \<open>None\<close> while there is no further answer.
\<close>

datatype send_answer = Sent nat | WouldBlock bool | SendError

fun write_all :: "send_answer list \<Rightarrow> bytes \<Rightarrow> bytes \<Rightarrow> (bool \<times> bytes) option" where
  "write_all as [] sent = Some (True, sent)"
| "write_all [] (b # bs) sent = None"
| "write_all (Sent n # as) (b # bs) sent =
     (if n > 0 then write_all as (drop n (b # bs)) (sent @ take n (b # bs)) else Some (False, sent))"
| "write_all (WouldBlock ready # as) (b # bs) sent = (if ready then write_all as (b # bs) sent else Some (False, sent))"
| "write_all (SendError # as) (b # bs) sent = Some (False, sent)"

text \<open>What becomes of one address: the socket, whether a pending connection is ready in time and without error.\<close>

datatype connect_attempt = NoSocket | NotNonblocking | Connected int | Refused | Pending int bool bool

fun connect_loop :: "connect_attempt list \<Rightarrow> int" where
  "connect_loop [] = - 1"
| "connect_loop (Connected fd # as) = fd"
| "connect_loop (Pending fd ready no_error # as) = (if ready \<and> no_error then fd else connect_loop as)"
| "connect_loop (_ # as) = connect_loop as"

definition bc_connect :: "connect_attempt list option \<Rightarrow> BeaconClient \<Rightarrow> bool \<times> BeaconClient" where
  "bc_connect addrs c =
     (case addrs of
        None \<Rightarrow> (False, c\<lparr>bc_fd := - 1\<rparr>)
      | Some as \<Rightarrow> let fd = connect_loop as in (fd \<ge> 0, c\<lparr>bc_fd := fd\<rparr>))"

definition client_beacon :: "clock_reading \<Rightarrow> u16 \<Rightarrow> BeaconClient \<Rightarrow> sl_beacon_t" where
  "client_beacon wall flags c =
     (let cfg = bc_cfg c; n = min (length (bcc_static_payload cfg)) SL_BEACON_MAX_PAYLOAD in
      \<lparr>bn_client_id = bcc_client_id cfg, bn_sequence = bc_seq c, bn_timestamp_ms = sl_clock_wall_ms wall,
       bn_interval_ms = bcc_interval_ms cfg, bn_payload_len = of_nat n, bn_flags = flags,
       bn_payload = take n (bcc_static_payload cfg) @ replicate (SL_BEACON_MAX_PAYLOAD - n) 0\<rparr>)"

definition send_beacon_locked ::
  "evp_gcm \<Rightarrow> clock_reading \<Rightarrow> send_answer list \<Rightarrow> u16 \<Rightarrow> BeaconClient \<Rightarrow> (bool \<times> bytes \<times> BeaconClient) option" where
  "send_beacon_locked E wall answers flags c =
     (let cfg = bc_cfg c; b = client_beacon wall flags c in
      case sl_beacon_seal E (Some b) (Some (bcc_key cfg)) (Some (bcc_static_iv cfg)) (bc_seq c) OUT OUT of
        None \<Rightarrow> Some (False, [], c)
      | Some wire \<Rightarrow>
          (case write_all answers (fp_encode kFrameData 0 wire) [] of
             None \<Rightarrow> None
           | Some (False, sent) \<Rightarrow> Some (False, sent, c)
           | Some (True, sent) \<Rightarrow>
               Some (True, sent, c\<lparr>bc_seq := bc_seq c + 1, bc_stats := (bc_stats c)\<lparr>beacons_sent := beacons_sent (bc_stats c) + 1\<rparr>\<rparr>)))"

definition wait_for_ack :: "int \<Rightarrow> int \<Rightarrow> BeaconClient \<Rightarrow> bool \<times> BeaconClient" where
  "wait_for_ack poll recv c =
     (if poll \<le> 0 then (False, c)
      else if recv \<le> 0 then (False, c)
      else (True, c\<lparr>bc_stats := (bc_stats c)\<lparr>acks_received := acks_received (bc_stats c) + 1\<rparr>\<rparr>))"

fun reconnect_loop ::
  "(nat \<Rightarrow> bool \<times> connect_attempt list option) \<Rightarrow> nat \<Rightarrow> nat \<Rightarrow> u32 \<Rightarrow> BeaconClient \<Rightarrow> bool \<times> u32 list \<times> BeaconClient" where
  "reconnect_loop env 0 attempt delay c = (False, [], c)"
| "reconnect_loop env (Suc left) attempt delay c =
     (let (running, addrs) = env attempt in
      if \<not> running then (False, [], c)
      else
        (case bc_connect addrs c of
           (True, c1) \<Rightarrow> (True, [delay], c1\<lparr>bc_stats := (bc_stats c1)\<lparr>reconnects := reconnects (bc_stats c1) + 1\<rparr>\<rparr>)
         | (False, c1) \<Rightarrow>
             (case reconnect_loop env left (attempt + 1) (min (delay * 2) 30000) c1 of
                (ok, sleeps, c2) \<Rightarrow> (ok, delay # sleeps, c2))))"

definition reconnect_with_backoff ::
  "(nat \<Rightarrow> bool \<times> connect_attempt list option) \<Rightarrow> BeaconClient \<Rightarrow> bool \<times> u32 list \<times> BeaconClient" where
  "reconnect_with_backoff env c = reconnect_loop env 8 0 500 c"

definition next_delay_ms :: "'g rand_bytes \<Rightarrow> 'g \<Rightarrow> BeaconClientConfig \<Rightarrow> (u32 \<times> 'g) option" where
  "next_delay_ms R g cfg =
     (if bcc_jitter_ms cfg = 0 then Some (bcc_interval_ms cfg, g)
      else
        (case sl_rng_uniform R g (ucast (2 * bcc_jitter_ms cfg + 1)) OUT of
           None \<Rightarrow> None
         | Some (r, g') \<Rightarrow>
             let j = (case r of None \<Rightarrow> 0 | Some j \<Rightarrow> j);
                 out = uint (bcc_interval_ms cfg) + (sint j - uint (bcc_jitter_ms cfg))
             in Some (if out < 100 then 100 else of_int out, g')))"

definition count_send_failure :: "BeaconClient \<Rightarrow> BeaconClient" where
  "count_send_failure c = c\<lparr>bc_stats := (bc_stats c)\<lparr>beacon_send_failures := beacon_send_failures (bc_stats c) + 1\<rparr>\<rparr>"

definition send_one ::
  "evp_gcm \<Rightarrow> clock_reading \<Rightarrow> clock_reading \<Rightarrow> clock_reading \<Rightarrow> send_answer list \<Rightarrow> int \<Rightarrow> int \<Rightarrow> BeaconClient \<Rightarrow>
   (bool \<times> bytes \<times> BeaconClient) option" where
  "send_one E wall t0 t1 answers poll recv c =
     (let request_ack = bcc_request_ack (bc_cfg c);
          flags = (if request_ack then SL_BEACON_FLAG_REQUEST_ACK else SL_BEACON_FLAG_NONE)
      in case send_beacon_locked E wall answers flags c of
           None \<Rightarrow> None
         | Some (False, sent, c1) \<Rightarrow> Some (False, sent, count_send_failure c1)
         | Some (True, sent, c1) \<Rightarrow>
             if request_ack then
               (case wait_for_ack poll recv c1 of
                  (False, c2) \<Rightarrow> Some (False, sent, count_send_failure c2)
                | (True, c2) \<Rightarrow>
                    Some (True, sent,
                          c2\<lparr>bc_stats := (bc_stats c2)\<lparr>last_rtt_ms := sl_clock_mono_ms t1 - sl_clock_mono_ms t0\<rparr>\<rparr>))
             else Some (True, sent, c1))"

text \<open>
  One round of \<open>run\<close>: the sleeps of a reconnection, then either the end of the loop, or the next
  round after a failure, or the pause after a beacon.
\<close>

datatype run_round = RunEnds | RunRetries | RunPauses u32

definition run_step ::
  "evp_gcm \<Rightarrow> 'g rand_bytes \<Rightarrow> 'g \<Rightarrow> (nat \<Rightarrow> bool \<times> connect_attempt list option) \<Rightarrow>
   clock_reading \<Rightarrow> clock_reading \<Rightarrow> clock_reading \<Rightarrow> send_answer list \<Rightarrow> int \<Rightarrow> int \<Rightarrow> BeaconClient \<Rightarrow>
   (run_round \<times> u32 list \<times> bytes \<times> 'g \<times> BeaconClient) option" where
  "run_step E R g env wall t0 t1 answers poll recv c =
     (if \<not> bc_running c then Some (RunEnds, [], [], g, c)
      else
        let (up, sleeps, c1) = (if bc_fd c < 0 then reconnect_with_backoff env c else (True, [], c)) in
        if \<not> up then Some (RunEnds, sleeps, [], g, c1)
        else
          (case send_one E wall t0 t1 answers poll recv c1 of
             None \<Rightarrow> None
           | Some (False, sent, c2) \<Rightarrow> Some (RunRetries, sleeps, sent, g, c2\<lparr>bc_fd := - 1\<rparr>)
           | Some (True, sent, c2) \<Rightarrow>
               (case next_delay_ms R g (bc_cfg c2) of
                  None \<Rightarrow> None
                | Some (d, g') \<Rightarrow> Some (RunPauses d, sleeps, sent, g', c2))))"

definition bc_start :: "BeaconClient \<Rightarrow> BeaconClient" where
  "bc_start c = c\<lparr>bc_running := True\<rparr>"

definition bc_stop :: "BeaconClient \<Rightarrow> BeaconClient" where
  "bc_stop c = c\<lparr>bc_running := False\<rparr>"

subsection \<open>Frames arrive whole\<close>

definition frame_ok :: "nat \<Rightarrow> Frame \<Rightarrow> bool" where
  "frame_ok m f \<longleftrightarrow> frame_type f \<noteq> 0 \<and> frame_type f \<le> kFramePong \<and> length (frame_payload f) \<le> m \<and> m < 2 ^ 32"

definition frame_bytes :: "Frame \<Rightarrow> bytes" where
  "frame_bytes f = fp_encode (frame_type f) (frame_flags f) (frame_payload f)"

lemma length_frame_bytes [simp]: "length (frame_bytes f) = 8 + length (frame_payload f)"
  by (simp add: frame_bytes_def fp_encode_def)

lemma frame_header:
  assumes "frame_ok m f" "8 \<le> n" "buf = take n (frame_bytes f) @ rest"
  shows "unat (unpack_u32 buf) = length (frame_payload f)" "buf ! 4 = frame_type f" "buf ! 5 = frame_flags f"
    "unpack_u16 (drop 6 buf) = 0"
proof -
  obtain r where b: "buf = pack_u32 (of_nat (length (frame_payload f))) @ [frame_type f, frame_flags f, 0, 0] @ r"
    using assms(2,3) by (auto simp: frame_bytes_def fp_encode_def take_Cons' numeral_eq_Suc)
  show "unat (unpack_u32 buf) = length (frame_payload f)" using assms(1) by (simp add: b frame_ok_def)
  show "buf ! 4 = frame_type f" "buf ! 5 = frame_flags f" by (simp_all add: b nth_append)
  have "drop 6 buf = [0, 0] @ r" unfolding b by (simp add: pack_u32_def)
  then show "unpack_u16 (drop 6 buf) = 0" by (simp add: unpack_u16_def)
qed

lemma fp_next_frame:
  assumes "frame_ok (fp_max_frame p) f" "fp_buf p = frame_bytes f @ rest"
  shows "fp_next out p = (kReady, f, p\<lparr>fp_buf := rest\<rparr>)"
proof -
  note h = frame_header [OF assms(1), of "8 + length (frame_payload f)" "frame_bytes f @ rest" rest]
  have "drop 8 (take (8 + length (frame_payload f)) (frame_bytes f @ rest)) = frame_payload f"
    by (simp add: take_append) (simp add: frame_bytes_def fp_encode_def pack_u32_def)
  then show ?thesis
    using h assms by (simp add: fp_next_def Let_def frame_ok_def not_less)
qed

lemma fp_next_partial:
  assumes "frame_ok (fp_max_frame p) f" "fp_buf p = take n (frame_bytes f)" "n < length (frame_bytes f)"
  shows "fp_next out p = (kNeedMore, out, p)"
proof (cases "n < 8")
  case True
  then show ?thesis using assms by (simp add: fp_next_def)
next
  case False
  then show ?thesis
    using frame_header [OF assms(1), of n "fp_buf p" "[]"] assms by (simp add: fp_next_def Let_def frame_ok_def not_less)
qed

text \<open>
  A consumer feeds what arrives and takes frames until the parser has none. It gets the frames that
  were sent, however the stream was cut.
\<close>

fun fp_drain :: "nat \<Rightarrow> FrameParser \<Rightarrow> Frame list \<times> FrameParser" where
  "fp_drain 0 p = ([], p)"
| "fp_drain (Suc n) p =
     (case fp_next \<lparr>frame_type = 0, frame_flags = 0, frame_payload = []\<rparr> p of
        (kReady, f, p') \<Rightarrow> (case fp_drain n p' of (fs, p'') \<Rightarrow> (f # fs, p''))
      | _ \<Rightarrow> ([], p))"

fun fp_consume :: "bytes list \<Rightarrow> FrameParser \<Rightarrow> Frame list \<times> FrameParser" where
  "fp_consume [] p = ([], p)"
| "fp_consume (c # cs) p =
     (let p1 = fp_feed c p; (fs, p2) = fp_drain (length (fp_buf p1)) p1; (gs, p3) = fp_consume cs p2 in (fs @ gs, p3))"

lemma fp_drain_frames:
  assumes "list_all (frame_ok (fp_max_frame p)) fs" "fp_buf p @ future = concat (map frame_bytes fs)" "length (fp_buf p) \<le> n"
  shows "\<exists>gs hs buf. fp_drain n p = (gs, p\<lparr>fp_buf := buf\<rparr>) \<and> fs = gs @ hs \<and> buf @ future = concat (map frame_bytes hs)
    \<and> (future = [] \<longrightarrow> hs = [])"
  using assms
proof (induction fs arbitrary: p n)
  case Nil
  then have "fp_drain n p = ([], p)" by (cases n) (auto simp: fp_next_def)
  then show ?case using Nil by (intro exI [of _ "[]"] exI [of _ "fp_buf p"]) simp
next
  case (Cons f fs)
  show ?case
  proof (cases "length (fp_buf p) < length (frame_bytes f)")
    case True
    have "fp_buf p = take (length (fp_buf p)) (frame_bytes f)"
      using arg_cong [OF Cons.prems(2), of "take (length (fp_buf p))"] True by simp
    then have "fp_drain n p = ([], p)" using fp_next_partial [of p f] Cons.prems(1) True by (cases n) auto
    moreover have "future \<noteq> []" using Cons.prems(2) True by (auto dest: arg_cong [of _ _ length])
    ultimately show ?thesis using Cons.prems(2) by (intro exI [of _ "[]"] exI [of _ "f # fs"] exI [of _ "fp_buf p"]) simp
  next
    case False
    have "take (length (frame_bytes f)) (fp_buf p) = frame_bytes f"
      using arg_cong [OF Cons.prems(2), of "take (length (frame_bytes f))"] False by simp
    then have b: "fp_buf p = frame_bytes f @ drop (length (frame_bytes f)) (fp_buf p)" by (metis append_take_drop_id)
    then obtain rest where r: "fp_buf p = frame_bytes f @ rest" ..
    then have r2: "rest @ future = concat (map frame_bytes fs)" using Cons.prems(2) by simp
    obtain k where n: "n = Suc k" "length rest \<le> k" using Cons.prems(3) r by (cases n) auto
    have nx: "fp_next out p = (kReady, f, p\<lparr>fp_buf := rest\<rparr>)" for out
      using fp_next_frame [OF _ r] Cons.prems(1) by simp
    obtain gs hs buf where "fp_drain k (p\<lparr>fp_buf := rest\<rparr>) = (gs, p\<lparr>fp_buf := buf\<rparr>)" "fs = gs @ hs"
      "buf @ future = concat (map frame_bytes hs)" "future = [] \<longrightarrow> hs = []"
      using Cons.IH [of "p\<lparr>fp_buf := rest\<rparr>" k] Cons.prems(1) r2 n(2) by auto
    then show ?thesis by (intro exI [of _ "f # gs"] exI [of _ hs] exI [of _ buf]) (simp add: n nx)
  qed
qed

lemma fp_consume_frames:
  assumes "list_all (frame_ok (fp_max_frame p)) fs" "fp_buf p @ concat cs = concat (map frame_bytes fs)" "fp_buf p = [] \<or> cs \<noteq> []"
  shows "fp_consume cs p = (fs, p\<lparr>fp_buf := []\<rparr>)"
  using assms
proof (induction cs arbitrary: p fs)
  case Nil
  then show ?case by (cases fs) (auto simp: length_0_conv [symmetric] simp del: length_0_conv)
next
  case (Cons c cs)
  let ?p = "fp_feed c p"
  obtain gs hs buf where d: "fp_drain (length (fp_buf ?p)) ?p = (gs, ?p\<lparr>fp_buf := buf\<rparr>)" "fs = gs @ hs"
    "buf @ concat cs = concat (map frame_bytes hs)" "concat cs = [] \<longrightarrow> hs = []"
    using fp_drain_frames [of ?p fs "concat cs" "length (fp_buf ?p)"] Cons.prems(1,2) by (auto simp: fp_feed_def)
  have "fp_consume cs (?p\<lparr>fp_buf := buf\<rparr>) = (hs, ?p\<lparr>fp_buf := buf\<rparr>\<lparr>fp_buf := []\<rparr>)"
  proof (rule Cons.IH)
    show "list_all (frame_ok (fp_max_frame (?p\<lparr>fp_buf := buf\<rparr>))) hs" using Cons.prems(1) d(2) by (simp add: fp_feed_def)
    show "fp_buf (?p\<lparr>fp_buf := buf\<rparr>) @ concat cs = concat (map frame_bytes hs)" using d(3) by simp
    show "fp_buf (?p\<lparr>fp_buf := buf\<rparr>) = [] \<or> cs \<noteq> []" using d(3,4) by auto
  qed
  then show ?case using d(1,2) by (simp add: Let_def fp_feed_def)
qed

definition frame_wire :: "nat \<Rightarrow> Frame \<Rightarrow> bytes option" where
  "frame_wire m f = (if frame_ok m f then Some (frame_bytes f) else None)"

definition frame_unwire :: "nat \<Rightarrow> bytes \<Rightarrow> (Frame \<times> nat) option" where
  "frame_unwire m w =
     (case fp_next \<lparr>frame_type = 0, frame_flags = 0, frame_payload = []\<rparr> \<lparr>fp_buf = w, fp_max_frame = m\<rparr> of
        (kReady, f, p) \<Rightarrow> Some (f, length w - length (fp_buf p))
      | _ \<Rightarrow> None)"

lemma frame_bytes_nonempty [simp]: "frame_bytes f \<noteq> []"
  by (simp add: frame_bytes_def fp_encode_def pack_u32_def)

interpretation framing: wire_codec "frame_wire m" "frame_unwire m" "\<lambda>f. f"
  by unfold_locales (auto simp: frame_wire_def frame_unwire_def fp_next_frame split: if_splits)

subsection \<open>Sealed beacons\<close>

definition beacon_header :: "sl_beacon_t \<Rightarrow> bytes" where
  "beacon_header b = pack_u64 (bn_client_id b) @ pack_u64 (bn_sequence b) @ pack_u64 (bn_timestamp_ms b)
     @ pack_u32 (bn_interval_ms b) @ pack_u16 (bn_payload_len b) @ pack_u16 (bn_flags b)"

lemma pack_header_eq: "sl_beacon_pack_header (Some b) OUT = Some (beacon_header b)" "length (beacon_header b) = 32"
  by (simp_all add: sl_beacon_pack_header_def beacon_header_def)

lemma unpack_header_eq: "sl_beacon_unpack_header (Some (beacon_header b @ rest)) OUT = Some (b\<lparr>bn_payload := replicate 1024 0\<rparr>)"
  by (simp add: sl_beacon_unpack_header_def beacon_header_def wire)

lemma validate_payload [simp]: "sl_beacon_validate (Some (b\<lparr>bn_payload := p\<rparr>)) = sl_beacon_validate (Some b)"
  by (simp add: sl_beacon_validate_def)

lemma validate_len: "sl_beacon_validate (Some b) = 0 \<Longrightarrow> unat (bn_payload_len b) \<le> 1024"
  by (simp add: sl_beacon_validate_def split: if_splits)

text \<open>The payload as the receiver sees it: the bytes that count, then zeros.\<close>

definition beacon_view :: "sl_beacon_t \<Rightarrow> sl_beacon_t" where
  "beacon_view b = (let n = unat (bn_payload_len b) in b\<lparr>bn_payload := take n (bn_payload b) @ replicate (1024 - n) 0\<rparr>)"

lemma beacon_seal_open:
  assumes "gcm_law E" "evp_healthy E" "length (bn_payload b) = 1024"
    and "sl_beacon_seal E (Some b) (Some k) (Some iv) seq OUT OUT = Some w"
  shows "sl_beacon_open E (Some w) (Some k) (Some iv) seq OUT = Some (beacon_view b)" "length w = 48 + unat (bn_payload_len b)"
    "\<exists>rest. w = beacon_header b @ rest" "sl_beacon_validate (Some b) = 0"
proof -
  let ?n = "unat (bn_payload_len b)" and ?iv = "sl_nonce_build iv seq"
  show v: "sl_beacon_validate (Some b) = 0" using assms(4) by (simp add: sl_beacon_seal_def split: if_splits)
  define ct where "ct = (if ?n > 0 then gcm_enc E k ?iv (take ?n (bn_payload b)) else [])"
  define tag where "tag = gcm_tag E k ?iv (beacon_header b) ct"
  have w: "w = beacon_header b @ ct @ tag"
    using assms(4) v sl_aead_seal_ok [OF assms(2), of ?n "bn_payload b" k ?iv "Some (beacon_header b)" 32] validate_len [OF v] assms(3)
    by (simp add: sl_beacon_seal_def pack_header_eq mem_take_def ct_def tag_def)
  have l: "length ct = ?n" "length tag = 16" using assms(1,3) validate_len [OF v] by (auto simp: ct_def tag_def gcm_law_def)
  show "length w = 48 + ?n" "\<exists>rest. w = beacon_header b @ rest" using l by (simp_all add: w pack_header_eq)
  have "sl_aead_open E (Some k) (Some ?iv) (Some w) 32 (Some (drop 32 w)) ?n (Some (drop ?n (drop 32 w))) (Some (replicate 1024 0))
      = (0, Some (take ?n (bn_payload b) @ replicate (1024 - ?n) 0))"
    using assms(1-3) validate_len [OF v] l
    by (auto simp: sl_aead_open_def evp_healthy_def evp_setup_def gcm_law_def mem_take_def w pack_header_eq tag_def ct_def write_at_def Let_def)
  then show "sl_beacon_open E (Some w) (Some k) (Some iv) seq OUT = Some (beacon_view b)"
    using v l unpack_header_eq [of b "ct @ tag"] unfolding sl_beacon_open_def
    by (simp add: w pack_header_eq sl_beacon_wire_size_def beacon_view_def Let_def)
qed

text \<open>A genuine beacon: well formed, of the right length, with the tag of its header and ciphertext.\<close>

definition beacon_claim :: "bytes \<Rightarrow> sl_beacon_t" where
  "beacon_claim w = the (sl_beacon_unpack_header (Some w) OUT)"

definition beacon_genuine :: "evp_gcm \<Rightarrow> bytes \<Rightarrow> bytes \<Rightarrow> bytes \<Rightarrow> bool" where
  "beacon_genuine E k iv w \<longleftrightarrow>
     (let b = beacon_claim w; n = unat (bn_payload_len b) in
      length w = 48 + n \<and> sl_beacon_validate (Some b) = 0
      \<and> drop (32 + n) w = gcm_tag E k (sl_nonce_build iv (bn_sequence b)) (take 32 w) (take n (drop 32 w)))"

lemma beacon_claim: "sl_beacon_unpack_header (Some w) OUT = Some (beacon_claim w)"
  by (simp add: beacon_claim_def sl_beacon_unpack_header_def)

lemma beacon_open_iff:
  assumes "evp_healthy E"
  shows "sl_beacon_open E (Some w) (Some k) (Some iv) (bn_sequence (beacon_claim w)) OUT \<noteq> None \<longleftrightarrow> beacon_genuine E k iv w"
    "sl_beacon_open E (Some w) (Some k) (Some iv) seq OUT = Some b \<Longrightarrow> \<exists>p. b = (beacon_claim w)\<lparr>bn_payload := p\<rparr>"
proof -
  let ?b = "beacon_claim w" and ?n = "unat (bn_payload_len (beacon_claim w))"
  let ?iv = "sl_nonce_build iv (bn_sequence ?b)"
  define A where "A = sl_aead_open E (Some k) (Some ?iv) (Some w) 32 (Some (drop 32 w)) ?n (Some (drop ?n (drop 32 w))) (Some (bn_payload ?b))"
  have o: "sl_beacon_open E (Some w) (Some k) (Some iv) (bn_sequence ?b) OUT \<noteq> None \<longleftrightarrow>
      length w = 48 + ?n \<and> sl_beacon_validate (Some ?b) = 0 \<and> fst A = 0"
    unfolding sl_beacon_open_def option.case prod.case beacon_claim Let_def A_def [symmetric]
    by (auto simp: sl_beacon_wire_size_def split: prod.splits)
  have "fst A = 0 \<longleftrightarrow> take 16 (drop ?n (drop 32 w)) = gcm_tag E k ?iv (take 32 w) (take ?n (drop 32 w))"
    using sl_aead_open_healthy [OF assms, of ?n "Some (drop 32 w)" "Some (bn_payload ?b)" k ?iv "Some w" 32 "drop ?n (drop 32 w)"]
    unfolding A_def by (auto simp: mem_take_def)
  moreover have "take 16 (drop ?n (drop 32 w)) = drop (32 + ?n) w" if "length w = 48 + ?n" using that by (simp add: add.commute)
  ultimately show "sl_beacon_open E (Some w) (Some k) (Some iv) (bn_sequence ?b) OUT \<noteq> None \<longleftrightarrow> beacon_genuine E k iv w"
    unfolding o beacon_genuine_def Let_def by metis
  show "\<exists>p. b = (beacon_claim w)\<lparr>bn_payload := p\<rparr>" if "sl_beacon_open E (Some w) (Some k) (Some iv) seq OUT = Some b"
    using that by (auto simp: sl_beacon_open_def beacon_claim Let_def split: if_splits prod.splits)
qed

subsection \<open>The server accepts a beacon once\<close>

lemma client_of_put [simp]: "client_of (client_put i cs s) j = (if j = i then cs else client_of s j)"
  by (simp add: client_of_def client_put_def update_conv')

lemma client_of_new [simp]: "client_of (bs_new cfg) i = client_state_new"
  by (simp add: client_of_def bs_new_def)

lemma bs_cfg_simps [simp]:
  "bs_cfg (client_put i cs s) = bs_cfg s" "bs_cfg (snd (reap_stale t s)) = bs_cfg s" "bs_cfg (bs_new cfg) = cfg"
  by (simp_all add: client_put_def reap_stale_def bs_new_def Let_def)

lemma client_of_reap:
  "cs_replay (client_of (snd (reap_stale t s)) i) = cs_replay (client_of s i)"
  "cs_beacons_received (client_of (snd (reap_stale t s)) i) = cs_beacons_received (client_of s i)"
proof -
  define f where "f cs = (if client_stale s (sl_clock_mono_ms t) cs then cs\<lparr>cs_alive := False\<rparr> else cs)" for cs
  have "map_of (bs_clients (snd (reap_stale t s))) = map_option f \<circ> map_of (bs_clients s)"
    unfolding reap_stale_def Let_def f_def [symmetric] by (simp add: map_of_map)
  then have "client_of (snd (reap_stale t s)) i = (case map_of (bs_clients s) i of None \<Rightarrow> client_state_new | Some cs \<Rightarrow> f cs)"
    by (simp add: client_of_def split: option.splits)
  then show "cs_replay (client_of (snd (reap_stale t s)) i) = cs_replay (client_of s i)"
    "cs_beacons_received (client_of (snd (reap_stale t s)) i) = cs_beacons_received (client_of s i)"
    by (simp_all add: client_of_def f_def split: option.splits)
qed

definition beacon_acceptable :: "evp_gcm \<Rightarrow> clock_reading \<Rightarrow> BeaconServer \<Rightarrow> bytes \<Rightarrow> bool" where
  "beacon_acceptable E wall s w \<longleftrightarrow>
     beacon_genuine E (bsc_key (bs_cfg s)) (bsc_static_iv (bs_cfg s)) w
     \<and> clock_skew (bn_timestamp_ms (beacon_claim w)) (sl_clock_wall_ms wall) \<le> ucast (bsc_max_skew_ms (bs_cfg s))"

lemma on_beacon_cases:
  assumes "evp_healthy E" "on_beacon E wall st wp s = (r, s')"
    and agree: "\<And>i q. fst (check_and_update q (cs_replay (client_of s i))) = would_accept (cs_replay (client_of s i)) q"
  obtains "r \<noteq> kAccepted" "s' = s" "\<And>w. wp = Some w \<Longrightarrow> \<not> beacon_acceptable E wall s w"
  | w cs where "wp = Some w" "r \<noteq> kAccepted" "s' = client_put (bn_client_id (beacon_claim w)) cs s"
      "cs_replay cs = cs_replay (client_of s (bn_client_id (beacon_claim w)))"
      "cs_beacons_received cs = cs_beacons_received (client_of s (bn_client_id (beacon_claim w)))"
      "\<not> (beacon_acceptable E wall s w \<and> would_accept (cs_replay cs) (bn_sequence (beacon_claim w)))"
  | w cs where "wp = Some w" "r = kAccepted" "s' = client_put (bn_client_id (beacon_claim w)) cs s"
      "check_and_update (bn_sequence (beacon_claim w)) (cs_replay (client_of s (bn_client_id (beacon_claim w)))) = (True, cs_replay cs)"
      "cs_beacons_received cs = cs_beacons_received (client_of s (bn_client_id (beacon_claim w))) + 1"
      "beacon_acceptable E wall s w"
proof (cases wp)
  case None
  then show ?thesis using assms(2) that(1) by (simp add: on_beacon_def)
next
  case (Some w)
  let ?b = "beacon_claim w" and ?cfg = "bs_cfg s"
  show ?thesis
  proof (cases "length w < 48 \<or> sl_beacon_validate (Some ?b) \<noteq> 0")
    case True
    then have "r = kMalformed" "s' = s" using assms(2) by (auto simp: on_beacon_def Some beacon_claim split: if_splits)
    moreover have "\<not> beacon_genuine E k iv w" for k iv using True by (auto simp: beacon_genuine_def Let_def)
    ultimately show ?thesis using that(1) Some by (simp add: beacon_acceptable_def)
  next
    case ok: False
    define cs0 where "cs0 = client_of s (bn_client_id ?b)"
    define cs where "cs = (if cs_client_id cs0 = 0 then cs0\<lparr>cs_client_id := bn_client_id ?b\<rparr> else cs0)"
    have cs: "cs_replay cs = cs_replay cs0" "cs_beacons_received cs = cs_beacons_received cs0" by (simp_all add: cs_def)
    note e = assms(2) [unfolded on_beacon_def Some option.case beacon_claim Let_def cs0_def [symmetric] cs_def [symmetric]]
    note op = beacon_open_iff [OF assms(1), of w "bsc_key ?cfg" "bsc_static_iv ?cfg"]
    obtain acc g where u: "check_and_update (bn_sequence ?b) (cs_replay cs) = (acc, g)" by fastforce
    have acc: "acc = would_accept (cs_replay cs) (bn_sequence ?b)" using agree [of "bn_sequence ?b" "bn_client_id ?b"] u cs by (simp add: cs0_def)
    show ?thesis
    proof (cases "acc \<and> beacon_acceptable E wall s w")
      case True
      then obtain b where b: "sl_beacon_open E (Some w) (Some (bsc_key ?cfg)) (Some (bsc_static_iv ?cfg)) (bn_sequence ?b) OUT = Some b"
        using op(1) by (auto simp: beacon_acceptable_def)
      obtain p where p: "b = ?b\<lparr>bn_payload := p\<rparr>" using op(2) [OF b] ..
      have s: "\<not> clock_skew (bn_timestamp_ms ?b) (sl_clock_wall_ms wall) > ucast (bsc_max_skew_ms ?cfg)"
        using True by (simp add: beacon_acceptable_def not_less)
      define cs' where "cs' = cs\<lparr>cs_replay := g, cs_beacons_received := cs_beacons_received cs + 1, cs_last_seq := bn_sequence ?b,
        cs_last_seen_mono_ms := sl_clock_mono_ms st, cs_last_seen_wall_ms := bn_timestamp_ms ?b, cs_alive := True\<rparr>"
      have "r = kAccepted" "s' = client_put (bn_client_id ?b) cs' s"
        using e ok True acc b p s u by (auto simp: cs'_def)
      then show ?thesis using that(3) [OF Some, of cs'] u True cs by (simp add: cs0_def cs'_def)
    next
      case False
      have "\<exists>cs'. r \<noteq> kAccepted \<and> s' = client_put (bn_client_id ?b) cs' s \<and> cs_replay cs' = cs_replay cs \<and> cs_beacons_received cs' = cs_beacons_received cs"
      proof (cases "\<not> acc \<or> sl_beacon_open E (Some w) (Some (bsc_key ?cfg)) (Some (bsc_static_iv ?cfg)) (bn_sequence ?b) OUT = None")
        case True
        then show ?thesis using e ok acc by (auto split: if_splits)
      next
        case f: False
        then obtain b where b: "sl_beacon_open E (Some w) (Some (bsc_key ?cfg)) (Some (bsc_static_iv ?cfg)) (bn_sequence ?b) OUT = Some b"
          by auto
        obtain p where p: "b = ?b\<lparr>bn_payload := p\<rparr>" using op(2) [OF b] ..
        have "clock_skew (bn_timestamp_ms ?b) (sl_clock_wall_ms wall) > ucast (bsc_max_skew_ms ?cfg)"
          using False f op(1) by (auto simp: beacon_acceptable_def not_less)
        then show ?thesis using e ok acc b p f by auto
      qed
      then show ?thesis using that(2) [OF Some] False acc cs by (auto simp: cs0_def)
    qed
  qed
qed

datatype server_op = Receive clock_reading clock_reading "bytes ptr" | Reap clock_reading

fun server_run :: "evp_gcm \<Rightarrow> server_op list \<Rightarrow> BeaconServer \<Rightarrow> (u64 \<times> u64) list \<times> BeaconServer" where
  "server_run E [] s = ([], s)"
| "server_run E (Receive wall steady wire # xs) s =
     (case on_beacon E wall steady wire s of
        (r, s1) \<Rightarrow>
          (case server_run E xs s1 of
             (acc, s2) \<Rightarrow>
               (if r = kAccepted then (bn_client_id (beacon_claim (the wire)), bn_sequence (beacon_claim (the wire))) # acc
                else acc, s2)))"
| "server_run E (Reap steady # xs) s = server_run E xs (snd (reap_stale steady s))"

definition server_inv :: "(u64 \<times> u64) list \<Rightarrow> BeaconServer \<Rightarrow> bool" where
  "server_inv acc s \<longleftrightarrow> distinct acc \<and> (\<forall>i. let cs = client_of s i in
     rg_ok {q. (i, q) \<in> set acc} (cs_replay cs) \<and> kWindow (cs_replay cs) = 1024
     \<and> cs_beacons_received cs = of_nat (length (filter (\<lambda>(j, q). j = i) acc)))"

lemma server_inv_new: "server_inv [] (bs_new cfg)"
  using rg_new_ok [of 16 10] by (simp add: server_inv_def client_state_new_def Let_def rg_new_def kWindow_def)

lemma server_inv_agree: "server_inv acc s \<Longrightarrow> fst (check_and_update q (cs_replay (client_of s i))) = would_accept (cs_replay (client_of s i)) q"
  unfolding server_inv_def Let_def by (metis check_and_update_spec prod.collapse)

lemma server_inv_receive:
  assumes "server_inv acc s" "evp_healthy E" "on_beacon E wall st wp s = (r, s')"
  shows "server_inv (if r = kAccepted then acc @ [(bn_client_id (beacon_claim (the wp)), bn_sequence (beacon_claim (the wp)))] else acc) s'"
    "bs_cfg s' = bs_cfg s"
proof -
  note inv = assms(1) [unfolded server_inv_def Let_def]
  have "server_inv (if r = kAccepted then acc @ [(bn_client_id (beacon_claim (the wp)), bn_sequence (beacon_claim (the wp)))] else acc) s'
      \<and> bs_cfg s' = bs_cfg s"
    using assms(2,3) server_inv_agree [OF assms(1)]
  proof (cases rule: on_beacon_cases)
    case 1
    then show ?thesis using assms(1) by simp
  next
    case (2 w cs)
    then show ?thesis using inv by (simp add: server_inv_def Let_def)
  next
    case (3 w cs)
    let ?i = "bn_client_id (beacon_claim w)" and ?q = "bn_sequence (beacon_claim w)"
    have i: "rg_ok {q. (?i, q) \<in> set acc} (cs_replay (client_of s ?i))" "kWindow (cs_replay (client_of s ?i)) = 1024" using inv by auto
    have u: "fresh 1024 {q. (?i, q) \<in> set acc} ?q" "rg_ok (insert ?q {q. (?i, q) \<in> set acc}) (cs_replay cs)" "kWindow (cs_replay cs) = 1024"
      using check_and_update_spec [OF i(1) 3(4)] i(2) by auto
    have "{q. (?i, q) \<in> set (acc @ [(?i, ?q)])} = insert ?q {q. (?i, q) \<in> set acc}" by auto
    moreover have "{q. (j, q) \<in> set (acc @ [(?i, ?q)])} = {q. (j, q) \<in> set acc}" if "j \<noteq> ?i" for j using that by auto
    ultimately show ?thesis using inv u 3 by (simp add: server_inv_def Let_def fresh_def)
  qed
  then show "server_inv (if r = kAccepted then acc @ [(bn_client_id (beacon_claim (the wp)), bn_sequence (beacon_claim (the wp)))] else acc) s'"
    "bs_cfg s' = bs_cfg s" by simp_all
qed

lemma server_run_inv:
  assumes "server_inv acc s" "evp_healthy E" "server_run E xs s = (acc', s')"
  shows "server_inv (acc @ acc') s' \<and> bs_cfg s' = bs_cfg s"
  using assms(1,3)
proof (induction xs arbitrary: acc acc' s)
  case (Cons x xs)
  show ?case
  proof (cases x)
    case (Receive wall st wp)
    obtain r s1 where o: "on_beacon E wall st wp s = (r, s1)" by fastforce
    obtain acc2 where r: "server_run E xs s1 = (acc2, s')"
      "acc' = (if r = kAccepted then (bn_client_id (beacon_claim (the wp)), bn_sequence (beacon_claim (the wp))) # acc2 else acc2)"
      using Cons.prems(2) o by (auto simp: Receive split: prod.splits)
    show ?thesis using Cons.IH [OF server_inv_receive(1) [OF Cons.prems(1) assms(2) o] r(1)] server_inv_receive(2) [OF Cons.prems(1) assms(2) o] r(2)
      by (auto split: if_splits)
  next
    case (Reap t)
    have "server_inv acc (snd (reap_stale t s))" using Cons.prems(1) by (simp add: server_inv_def client_of_reap Let_def)
    then show ?thesis using Cons.IH Cons.prems(2) by (simp add: Reap)
  qed
qed simp

lemma accepts_iff:
  assumes "server_inv acc s" "evp_healthy E"
  shows "fst (on_beacon E wall st (Some w) s) = kAccepted \<longleftrightarrow>
    beacon_acceptable E wall s w \<and> fresh 1024 {q. (bn_client_id (beacon_claim w), q) \<in> set acc} (bn_sequence (beacon_claim w))"
proof -
  let ?i = "bn_client_id (beacon_claim w)" and ?q = "bn_sequence (beacon_claim w)"
  obtain r s' where o: "on_beacon E wall st (Some w) s = (r, s')" by fastforce
  obtain ok g where u: "check_and_update ?q (cs_replay (client_of s ?i)) = (ok, g)" by fastforce
  have f: "ok \<longleftrightarrow> fresh 1024 {q. (?i, q) \<in> set acc} ?q" "would_accept (cs_replay (client_of s ?i)) ?q = ok"
    using assms(1) check_and_update_spec [OF _ u] unfolding server_inv_def Let_def by metis+
  show ?thesis using assms(2) o server_inv_agree [OF assms(1)]
  proof (cases rule: on_beacon_cases)
    case 1
    then show ?thesis using o by auto
  next
    case (2 w' cs)
    then show ?thesis using o f by auto
  next
    case (3 w' cs)
    then show ?thesis using o f u by auto
  qed
qed

text \<open>
  C19. The beacon server accepts exactly the beacons it should. After any sequence of received messages
  and sweeps, no two accepted beacons have the same client and sequence number, the counter of each
  client is the number of its accepted beacons, and the next message is accepted if and only if it is
  genuine (well formed, with the tag of its header and ciphertext under the key of the server), its
  time is within the allowed skew, its number was not accepted from this client before and is less
  than a window behind each number that was. So nothing an attacker without the key sends changes
  what is accepted later.
\<close>

theorem beacon_server_exact:
  assumes "evp_healthy E" "server_run E ops (bs_new cfg) = (acc, s)"
  shows "distinct acc
    \<and> (\<forall>i cs. bs_snapshot s i = Some cs \<longrightarrow> cs_beacons_received cs = of_nat (length (filter (\<lambda>(j, q). j = i) acc)))
    \<and> (fst (on_beacon E wall st (Some w) s) = kAccepted \<longleftrightarrow>
        beacon_genuine E (bsc_key cfg) (bsc_static_iv cfg) w
        \<and> clock_skew (bn_timestamp_ms (beacon_claim w)) (sl_clock_wall_ms wall) \<le> ucast (bsc_max_skew_ms cfg)
        \<and> (bn_client_id (beacon_claim w), bn_sequence (beacon_claim w)) \<notin> set acc
        \<and> (\<forall>q. (bn_client_id (beacon_claim w), q) \<in> set acc \<longrightarrow> unat q < unat (bn_sequence (beacon_claim w)) + 1024))"
proof -
  have i: "server_inv acc s" "bs_cfg s = cfg" using server_run_inv [OF server_inv_new assms] by simp_all
  have "cs_beacons_received (client_of s j) = of_nat (length (filter (\<lambda>(k, q). k = j) acc))" for j
    using i(1) by (simp add: server_inv_def Let_def)
  then have "\<forall>i cs. bs_snapshot s i = Some cs \<longrightarrow> cs_beacons_received cs = of_nat (length (filter (\<lambda>(j, q). j = i) acc))"
    by (metis bs_snapshot_def client_of_def option.simps(5))
  moreover have "bn_sequence (beacon_claim w) \<noteq> 0" if "beacon_genuine E (bsc_key cfg) (bsc_static_iv cfg) w"
    using that by (auto simp: beacon_genuine_def sl_beacon_validate_def Let_def split: if_splits)
  ultimately show ?thesis
    using i accepts_iff [OF i(1) assms(1), of wall st w] by (auto simp: server_inv_def beacon_acceptable_def fresh_def)
qed

definition example_server :: BeaconServerConfig where
  "example_server = \<lparr>bsc_liveness_timeout_ms = 15000, bsc_max_skew_ms = 30000, bsc_key = [1], bsc_static_iv = replicate 12 2\<rparr>"

definition example_client :: BeaconClient where
  "example_client = bc_new \<lparr>bcc_client_id = 7, bcc_interval_ms = 5000, bcc_jitter_ms = 500, bcc_request_ack = True,
     bcc_static_payload = [10, 20], bcc_key = [1], bcc_static_iv = replicate 12 2\<rparr>"

definition example_beacon :: bytes where
  "example_beacon = the (sl_beacon_seal toy_gcm (Some (client_beacon None 1 example_client)) (Some [1]) (Some (replicate 12 2)) 1 OUT OUT)"

theorem beacon_server_exact_witness:
  "\<exists>acc s. server_run toy_gcm [Receive None None (Some example_beacon), Reap None] (bs_new example_server) = (acc, s)
    \<and> acc = [(7, 1)] \<and> fst (on_beacon toy_gcm None None (Some example_beacon) s) \<noteq> kAccepted"
proof -
  let ?r = "server_run toy_gcm [Receive None None (Some example_beacon), Reap None] (bs_new example_server)"
  have r: "?r = ([(7, 1)], snd ?r)" by code_simp
  have "(bn_client_id (beacon_claim example_beacon), bn_sequence (beacon_claim example_beacon)) = (7, 1)" by code_simp
  then have "fst (on_beacon toy_gcm None None (Some example_beacon) (snd ?r)) \<noteq> kAccepted"
    using beacon_server_exact [OF _ r, of None None example_beacon] toy_gcm_law by simp
  then show ?thesis using r by blast
qed

lemma write_all_sent: "write_all as buf sent = Some (True, out) \<Longrightarrow> out = sent @ buf"
  by (induction as buf sent rule: write_all.induct) (auto split: if_splits simp: append_eq_conv_conj)

lemma send_beacon_sent:
  assumes "send_beacon_locked E wall as flags c = Some (True, sent, c')"
  obtains w where "sl_beacon_seal E (Some (client_beacon wall flags c)) (Some (bcc_key (bc_cfg c))) (Some (bcc_static_iv (bc_cfg c)))
      (bc_seq c) OUT OUT = Some w" "sent = frame_bytes \<lparr>frame_type = kFrameData, frame_flags = 0, frame_payload = w\<rparr>"
    "bc_seq c' = bc_seq c + 1"
  using assms unfolding send_beacon_locked_def Let_def frame_bytes_def
  by (auto split: option.splits bool.splits prod.splits dest!: write_all_sent)

lemma length_client_payload: "length (bn_payload (client_beacon wall flags c)) = 1024"
  by (simp add: client_beacon_def Let_def)

lemma client_beacon_view: "beacon_view (client_beacon wall flags c) = client_beacon wall flags c"
proof -
  have "unat (of_nat (min (length p) 1024) :: u16) = min (length p) 1024" for p :: bytes by (rule of_nat_unat_u16) simp
  then show ?thesis by (simp add: beacon_view_def client_beacon_def Let_def)
qed

text \<open>
  C20. A beacon that a client sends reaches the server. When the client reports it sent, the bytes on
  the wire are one frame; the parser of the server yields exactly this frame however the stream is cut;
  the server, after any history in which it accepted no later number of this client, accepts it if the
  clocks agree; what it reads is what the client put in, payload included; and it refuses the same
  bytes when they come again.
\<close>

theorem beacon_end_to_end:
  assumes "gcm_law E" "evp_healthy E" "send_beacon_locked E wall as flags c = Some (True, sent, c')"
    and "concat chunks = sent" "server_run E ops (bs_new cfg) = (acc, s)"
    and "bsc_key cfg = bcc_key (bc_cfg c)" "bsc_static_iv cfg = bcc_static_iv (bc_cfg c)"
    and "clock_skew (sl_clock_wall_ms wall) (sl_clock_wall_ms wall') \<le> ucast (bsc_max_skew_ms cfg)"
    and "\<forall>q. (bcc_client_id (bc_cfg c), q) \<in> set acc \<longrightarrow> q < bc_seq c"
  shows "\<exists>w s'. fp_consume chunks (fp_new 65536) = ([\<lparr>frame_type = kFrameData, frame_flags = 0, frame_payload = w\<rparr>], fp_new 65536)
    \<and> on_beacon E wall' st (Some w) s = (kAccepted, s')
    \<and> sl_beacon_open E (Some w) (Some (bsc_key cfg)) (Some (bsc_static_iv cfg)) (bc_seq c) OUT = Some (client_beacon wall flags c)
    \<and> fst (on_beacon E wall'' st' (Some w) s') \<noteq> kAccepted \<and> bc_seq c' = bc_seq c + 1"
proof -
  let ?b = "client_beacon wall flags c"
  have b: "bn_client_id ?b = bcc_client_id (bc_cfg c)" "bn_sequence ?b = bc_seq c" "bn_timestamp_ms ?b = sl_clock_wall_ms wall"
    by (simp_all add: client_beacon_def Let_def)
  obtain w where w: "sl_beacon_seal E (Some ?b) (Some (bsc_key cfg)) (Some (bsc_static_iv cfg)) (bc_seq c) OUT OUT = Some w"
    "sent = frame_bytes \<lparr>frame_type = kFrameData, frame_flags = 0, frame_payload = w\<rparr>" "bc_seq c' = bc_seq c + 1"
    using send_beacon_sent [OF assms(3)] assms(6,7) by metis
  note o = beacon_seal_open [OF assms(1,2) length_client_payload w(1), unfolded client_beacon_view]
  obtain rest where "w = beacon_header ?b @ rest" using o(3) ..
  then have cl: "beacon_claim w = ?b\<lparr>bn_payload := replicate 1024 0\<rparr>"
    using unpack_header_eq [of ?b rest] by (simp add: beacon_claim_def)
  have "frame_ok 65536 \<lparr>frame_type = kFrameData, frame_flags = 0, frame_payload = w\<rparr>"
    using o(2) validate_len [OF o(4)] by (simp add: frame_ok_def)
  then have p: "fp_consume chunks (fp_new 65536) = ([\<lparr>frame_type = kFrameData, frame_flags = 0, frame_payload = w\<rparr>], fp_new 65536)"
    using fp_consume_frames [of "fp_new 65536" "[\<lparr>frame_type = kFrameData, frame_flags = 0, frame_payload = w\<rparr>]" chunks] assms(4) w(2)
    by (simp add: fp_new_def)
  have i: "server_inv acc s" "bs_cfg s = cfg" using server_run_inv [OF server_inv_new assms(2,5)] by simp_all
  have "beacon_genuine E (bsc_key cfg) (bsc_static_iv cfg) w"
    using beacon_open_iff(1) [OF assms(2), of w "bsc_key cfg" "bsc_static_iv cfg"] o(1) by (simp add: cl b)
  moreover have "fresh 1024 {q. (bn_client_id ?b, q) \<in> set acc} (bc_seq c)"
    using assms(9) o(4) b by (auto simp: fresh_def word_less_nat_alt sl_beacon_validate_def split: if_splits)
  ultimately obtain s' where a: "on_beacon E wall' st (Some w) s = (kAccepted, s')"
    using accepts_iff [OF i(1) assms(2), of wall' st w] assms(8) i(2) by (cases "on_beacon E wall' st (Some w) s") (simp add: cl b beacon_acceptable_def)
  have "fst (on_beacon E wall'' st' (Some w) s') \<noteq> kAccepted"
    using accepts_iff [OF server_inv_receive(1) [OF i(1) assms(2) a] assms(2), of wall'' st' w] by (simp add: fresh_def)
  then show ?thesis using p a o(1) w(3) by blast
qed

theorem beacon_end_to_end_witness:
  "\<exists>w s'. fp_consume [take 11 (fp_encode 4 0 example_beacon), drop 11 (fp_encode 4 0 example_beacon)] (fp_new 65536)
      = ([\<lparr>frame_type = 4, frame_flags = 0, frame_payload = w\<rparr>], fp_new 65536)
    \<and> on_beacon toy_gcm None None (Some w) (bs_new example_server) = (kAccepted, s')
    \<and> sl_beacon_open toy_gcm (Some w) (Some [1]) (Some (replicate 12 2)) 1 OUT = Some (client_beacon None 1 example_client)
    \<and> fst (on_beacon toy_gcm None None (Some w) s') \<noteq> kAccepted"
proof -
  let ?f = "fp_encode 4 0 example_beacon"
  let ?s = "send_beacon_locked toy_gcm None [Sent 3, WouldBlock True, Sent 100] 1 example_client"
  have s: "?s = Some (True, ?f, snd (snd (the ?s)))" by code_simp
  have c: "bsc_key example_server = bcc_key (bc_cfg example_client)" "bsc_static_iv example_server = bcc_static_iv (bc_cfg example_client)"
    "bc_seq example_client = 1" "bsc_key example_server = [1]" "bsc_static_iv example_server = replicate 12 2"
    by (simp_all add: example_server_def example_client_def bc_new_def)
  show ?thesis
    using beacon_end_to_end [of toy_gcm, OF _ _ s, of "[take 11 ?f, drop 11 ?f]" "[]" example_server "[]" "bs_new example_server" None None None None]
      toy_gcm_law c by (auto simp: clock_skew_def)
qed

text \<open>
  Anyone can make the server keep state: a message with a well-formed header and a wrong tag leaves an
  entry for the client it names. And a beacon whose transmission failed is followed by another one with
  the same number, so with the same nonce.
\<close>

lemma forged_beacon_kept:
  assumes "48 \<le> length w" "sl_beacon_validate (Some (beacon_claim w)) = 0" "\<not> beacon_genuine E (bsc_key cfg) (bsc_static_iv cfg) w"
    "evp_healthy E" "on_beacon E wall st (Some w) (bs_new cfg) = (r, s)"
  shows "r \<noteq> kAccepted \<and> bs_client_count s = 1"
proof -
  have o: "sl_beacon_open E (Some w) (Some (bsc_key cfg)) (Some (bsc_static_iv cfg)) (bn_sequence (beacon_claim w)) OUT = None"
    using beacon_open_iff(1) [OF assms(4), of w "bsc_key cfg" "bsc_static_iv cfg"] assms(3) by simp
  have "bs_client_count (client_put i cs (bs_new cfg)) = 1" for i cs by (simp add: bs_client_count_def client_put_def bs_new_def)
  then show ?thesis using assms(1,2,5) o by (auto simp: on_beacon_def beacon_claim Let_def split: if_splits)
qed

lemma failed_send_keeps_number:
  "send_beacon_locked E wall as flags c = Some (False, sent, c') \<Longrightarrow> bc_seq c' = bc_seq c"
  by (auto simp: send_beacon_locked_def Let_def split: option.splits bool.splits prod.splits)

text \<open>The pause before the next beacon stays within the jitter of the interval.\<close>

lemma next_delay_bounds:
  assumes "next_delay_ms R g cfg = Some (d, g')" "uint (bcc_interval_ms cfg) + uint (bcc_jitter_ms cfg) < 2 ^ 32" "uint (bcc_jitter_ms cfg) < 2 ^ 31"
    and "bcc_jitter_ms cfg \<noteq> 0"
  shows "uint d \<le> max 100 (uint (bcc_interval_ms cfg) + uint (bcc_jitter_ms cfg))"
    "uint d \<ge> max 100 (uint (bcc_interval_ms cfg) - uint (bcc_jitter_ms cfg))"
proof -
  let ?i = "uint (bcc_interval_ms cfg)" and ?j = "uint (bcc_jitter_ms cfg)"
  obtain r where r: "sl_rng_uniform R g (ucast (2 * bcc_jitter_ms cfg + 1)) OUT = Some (r, g')"
    and d: "d = (let out = ?i + (sint (case r of None \<Rightarrow> 0 | Some j \<Rightarrow> j) - ?j) in if out < 100 then 100 else of_int out)"
    using assms(1,4) by (auto simp: next_delay_ms_def Let_def split: option.splits)
  define x where "x = (case r of None \<Rightarrow> 0 | Some j \<Rightarrow> j)"
  have "uint (2 * bcc_jitter_ms cfg + 1) = 2 * ?j + 1"
    using assms(3) uint_ge_0 [of "bcc_jitter_ms cfg"] by (simp add: uint_word_ariths)
  moreover have "take_bit 64 (2 * ?j + 1) = 2 * ?j + 1" using assms(3) uint_ge_0 [of "bcc_jitter_ms cfg"] by (simp add: take_bit_int_eq_self)
  ultimately have "uint x \<le> 2 * ?j"
    using r sl_rng_uniform_below [of R g "ucast (2 * bcc_jitter_ms cfg + 1)"] uint_ge_0 [of "bcc_jitter_ms cfg"]
    by (cases r) (auto simp: x_def word_less_def unsigned_ucast_eq)
  moreover have "sint x = uint x" if "uint x < 2 ^ 63"
    using that signed_take_bit_int_eq_self [of 63 "uint x"] uint_ge_0 [of x] by (simp add: sint_uint)
  ultimately have x: "0 \<le> sint x" "sint x \<le> 2 * ?j"
    using assms(3) by simp_all
  have o: "uint (of_int z :: u32) = z" if "0 \<le> z" "z < 2 ^ 32" for z
    using that by (simp add: uint_word_of_int_eq take_bit_int_eq_self)
  define z where "z = ?i + (sint x - ?j)"
  have "uint d = (if z < 100 then 100 else z)"
    using d x assms(2) o [of z] unfolding x_def [symmetric] z_def [symmetric] Let_def by (simp add: z_def split: if_splits)
  then show "uint d \<le> max 100 (?i + ?j)" "uint d \<ge> max 100 (?i - ?j)"
    using x by (auto simp: z_def)
qed

end
