(* ===== verification/Spec2Isabelle.thy ===== *)
theory Spec2Isabelle
  imports SL_Ring SL_SendQueue SL_Record SL_Stream SL_Negotiate SL_Handshake SL_Keys SL_File SL_Broker SL_Engine
    SL_Replay SL_Guard SL_Puzzle SL_Rpc SL_Mux SL_Transfer SL_Disk SL_Harness SL_Kv SL_Beacon
begin

text \<open>
  Verification of securelink, a C and C++ library for authenticated, multiplexed connections with
  publish/subscribe, remote calls and file transfer on top. Every definition of the model is a
  translation of a function, method or type of the sources (\<open>src/\<close> and \<open>inc/\<close>); the theory of a
  component holds its types, its operations, its invariant and its lemmas.

  \<^bold>\<open>How the program is put together.\<close> Two ends run a handshake (\<open>handshake_engine.cpp\<close> over the
  message formats, the transcript, key agreement and signatures), which yields traffic keys. Application
  data is sealed into records (\<open>sl_record.c\<close>, \<open>sl_aead.c\<close>, \<open>sl_nonce.c\<close>), queued for the socket
  (\<open>sl_send_queue.c\<close>), reassembled at the other end (\<open>sl_recv_buf.c\<close>) and opened; a replay window
  (\<open>replay_guard.hpp\<close>) refuses repeated sequence numbers. Records carry the frames of streams
  (\<open>stream_multiplexer.cpp\<close>), and streams carry publish/subscribe messages (\<open>pubsub_broker.cpp\<close>),
  remote calls (\<open>rpc_client.cpp\<close>, \<open>rpc_dispatcher.cpp\<close>) and files (\<open>file_sender.cpp\<close>,
  \<open>file_receiver.cpp\<close>). Clients announce themselves with beacons (\<open>beacon_client.cpp\<close>,
  \<open>beacon_server.cpp\<close>). Listeners protect themselves with rate limits, lockouts, connection caps and
  client puzzles, and keep what must survive them on disk: audit and event logs, snapshots and a
  key-value store.

  \<^bold>\<open>Conventions\<close> (SL_Prelude). Machine integers are words, sizes of objects in memory are naturals,
  a pointer is an option, an output buffer is the option of its capacity. A function that delivers
  data or fails returns an option; one that changes a state through a pointer returns its status
  and the new state; every null check, early return and error code of the source is a branch. A C++
  object whose methods take its mutex is a record, and a method is one step on it; a method that
  releases the mutex in between is several steps. What is not in the sources is a parameter: OpenSSL
  (\<open>evp_gcm\<close>, \<open>hash_api\<close>, \<open>pk_api\<close>, with the laws \<open>gcm_law\<close>, \<open>hash_law\<close>, \<open>ecdh_law\<close>,
  \<open>ed25519_law\<close>), the generator (\<open>rand_bytes\<close>), the clock (\<open>clock_reading\<close>), the kernel's answers
  to \<open>send\<close>, \<open>read\<close>, \<open>write\<close> and \<open>fwrite\<close> (SL_Stdio), the success of \<open>malloc\<close>, and the application's callbacks.

  \<^bold>\<open>Contracts.\<close> SL_Interfaces has the locales of byte streams, wire codecs and identifier supplies,
  SL_Negotiate that of code lists, SL_Pubsub that of subscription registries, SL_Time that of rate
  limiters, SL_Table that of chained hash tables. Each is interpreted on the model: the ring, the send queue
  and the receive buffer are byte streams; stream frames and beacon frames are codecs; stream ids and request ids are supplies; version and cipher
  lists are code lists; the topic trie is a registry; the token bucket and the rate limiter are
  paced; the lockout, the connection guard and the key-value store are tables.

  \<^bold>\<open>The theories and what they show.\<close>
  \<^item> SL_Circular, SL_Ring, SL_SendQueue: circular buffers. Bytes come out in the order they went in,
    none lost, whatever the kernel answers; a flush drains the queue when sends make progress.
  \<^item> SL_Mem, SL_Rng: constant-time comparison and copy, wiping, uniform numbers by rejection (unbiased,
    and exactly when the loop returns), backoff, canaries.
  \<^item> SL_Aead, SL_Record: nonces never repeat under one key, records open to what was sealed, only genuine
    records open, and any fragmentation of the byte stream reassembles to the same records.
  \<^item> SL_Keys: HKDF equals RFC 5869, the key schedule of the two ends agrees, tickets resume what was
    sealed and nothing else.
  \<^item> SL_Negotiate, SL_Handshake: version and cipher negotiation, extensions, hello messages, alerts, server names.
  \<^item> SL_Asym, SL_States, SL_Engine: key agreement and signatures, the state machines of connections, streams
    and handshakes, and the engine: what it accepted from a pinned peer was signed and keyed, and its outcome
    does not depend on how its input is fragmented.
  \<^item> SL_Replay: a sequence number is accepted exactly when it is fresh and inside the window.
  \<^item> SL_Stream, SL_Mux: frames, stream ids, flow control, and the multiplexer: two of them on a connection
    deliver every stream intact and never refuse each other's frames.
  \<^item> SL_Topic, SL_Pubsub, SL_Broker: topic matching, the subscription trie as a set of subscriptions, access control,
    and the broker: who gets a publication.
  \<^item> SL_File: checksums, variable-length integers, file metadata, chunks and resume maps.
  \<^item> SL_Stdio, SL_Transfer: files as the code reads and writes them, the sender and the receiver of files: what is
    sent chunk by chunk, in any order and with interruptions, arrives, and a file that is reported complete
    has the announced hash.
  \<^item> SL_Log, SL_Harness: the audit log (a change to its entries needs a collision of the hash or new hashes), the
    event log, and the replay of a log, which is the same run as the events themselves.
  \<^item> SL_Disk: atomic replacement of files, snapshots (a reader sees the old or the new one) and their manager.
  \<^item> SL_Kv: the key-value store as a map, under any failure of its writes, and the typed store on top.
  \<^item> SL_Beacon: framing, beacons and acknowledgements, registry, server and client: the server accepts exactly the
    genuine, timely, new beacons, and what a client sends is accepted.
  \<^item> SL_Rpc: remote calls end to end, promises settled exactly once, errors reported.
  \<^item> SL_Time, SL_Table, SL_Guard, SL_Puzzle: clocks and rate limits, hash tables, lockout, connection caps, puzzles.
  \<^item> This theory: the way of a message from one application to the other.

  \<^bold>\<open>Bounds and loops.\<close> Loops over arrays are structural recursion or have a measure. The loops the code
  does not bound (rejection sampling, the scans of the event log and of the key-value store) are partial
  functions, and those that wait for the kernel (interrupted sleeps, partial sends) consume a list of its
  answers; lemmas say when they return, and that the scan of a damaged event log does not. Theorems that
  need a size bound state it: windows up to the limit of the code, bodies up to the limit of the format.

  \<^bold>\<open>Not modelled.\<close> Sockets, event loops, thread pools, daemons, signals, log sinks, the status page and command
  lines are calls of the operating system with no state of their own to verify. Tracing, metrics, scores and
  configuration stand beside the protocol, and no operation modelled here depends on them. The demonstration
  handshake and the sessions on top of it, the attack simulators and the tests are programs around the library.
  Memory is values: release of memory, and accesses out of bounds, appear only where a finding needs them.
  Threads other than through the mutex discipline above are not modelled, nor is the timing of
  constant-time code beyond its data flow.
\<close>

subsection \<open>From one application to the other\<close>

text \<open>
  A sender that seals its messages one by one under consecutive sequence numbers, and a receiver
  that opens records the same way into a buffer of \<open>cap\<close> bytes.
\<close>

fun seal_all :: "evp_gcm \<Rightarrow> sl_record_type_t \<Rightarrow> bytes \<Rightarrow> bytes \<Rightarrow> u64 \<Rightarrow> bytes list \<Rightarrow> bytes list option" where
  "seal_all E ty k iv seq [] = Some []"
| "seal_all E ty k iv seq (pt # pts) =
     (case sl_record_seal E ty (Some k) (Some iv) seq (Some pt) (length pt) (Some 16405) of
        None \<Rightarrow> None
      | Some w \<Rightarrow> map_option ((#) w) (seal_all E ty k iv (seq + 1) pts))"

fun open_all :: "evp_gcm \<Rightarrow> bytes \<Rightarrow> bytes \<Rightarrow> nat \<Rightarrow> u64 \<Rightarrow> bytes list \<Rightarrow> bytes list option" where
  "open_all E k iv cap seq [] = Some []"
| "open_all E k iv cap seq (w # ws) =
     (case sl_record_open E (Some w) (Some k) (Some iv) seq OUT (Some (replicate cap 0)) cap OUT of
        Some (Some (ty, n), Some b) \<Rightarrow> map_option ((#) (take n b)) (open_all E k iv cap (seq + 1) ws)
      | _ \<Rightarrow> None)"

lemma sealed_opens:
  assumes "gcm_law E" "evp_healthy E"
  shows "seal_all E ty k iv seq pts = Some ws \<Longrightarrow> list_all (\<lambda>pt. length pt \<le> cap) pts \<Longrightarrow>
    open_all E k iv cap seq ws = Some pts \<and> list_all (\<lambda>w. sl_record_peek_len (Some w) = int (length w)) ws"
proof (induction pts arbitrary: seq ws)
  case (Cons pt pts)
  obtain w vs where w: "sl_record_seal E ty (Some k) (Some iv) seq (Some pt) (length pt) (Some 16405) = Some w"
    and vs: "seal_all E ty k iv (seq + 1) pts = Some vs" and ws: "ws = w # vs"
    using Cons.prems(1) by (auto split: option.splits)
  have g: "record_genuine E k iv seq w (length pt)" "record_plain E k iv seq w (length pt) = pt"
    using sealed_genuine [OF assms(1) w] by simp_all
  have "length pt \<le> cap" using Cons.prems(2) by simp
  from sl_record_open_genuine [OF assms _ this g(1), of "replicate cap 0"]
  have "sl_record_open E (Some w) (Some k) (Some iv) seq OUT (Some (replicate cap 0)) cap OUT
    = Some (Some (ucast (w ! 0), length pt), Some (pt @ replicate (cap - length pt) 0))" by (simp add: g(2))
  moreover have "sl_record_peek_len (Some w) = int (length w)" using length_genuine_plain [OF g(1)] by auto
  ultimately show ?case using Cons.IH [OF vs] Cons.prems(2) ws by simp
qed simp


definition wire_example :: bytes where
  "wire_example = [23, 3, 1, 0, 19, 8, 22, 28, 105, 105, 105, 105, 105, 105, 105, 105, 105, 105, 105, 105, 105, 105, 105, 105]"


end
